(* ===== verification/Prelude.thy ===== *)
theory Prelude
  imports Main "HOL-Library.Word" "HOL-Library.Sublist"
begin

text \<open>
  Shared vocabulary of the development: Go's bytes and strings, the errors the
  input/output code distinguishes, the small facts on lists and prefixes that several
  components use, and the locale that turns "holds initially, kept by every step" into
  "holds in every reachable state" for the concurrent components.
\<close>

section \<open>Bytes and strings\<close>

text \<open>
  A Go \<open>byte\<close> is an 8-bit word and a \<open>[]byte\<close> a list of them; a Go \<open>string\<close> is a
  sequence of bytes too and is written here as a HOL \<open>string\<close>. The conversions
  \<open>[]byte(s)\<close> and \<open>string(b)\<close> of the source are \<open>bytes_of\<close> and \<open>string_of\<close>.
\<close>

type_synonym byte = "8 word"
type_synonym bytes = "byte list"

definition byte_of :: "char \<Rightarrow> byte" where
  "byte_of c = word_of_nat (of_char c)"

definition bytes_of :: "string \<Rightarrow> bytes" where
  "bytes_of s = map byte_of s"

definition string_of :: "bytes \<Rightarrow> string" where
  "string_of bs = map (\<lambda>b. char_of (unat b)) bs"

lemma char_of_byte_of [simp]: "char_of (unat (byte_of c)) = c"
proof -
  have "of_char c = (of_char (char_of (of_char c :: nat)) :: nat)"
    by simp
  also have "\<dots> = of_char c mod 256"
    by (simp only: of_char_of)
  finally have "(of_char c :: nat) mod 256 = of_char c" by simp
  then show ?thesis
    by (simp add: byte_of_def unsigned_of_nat take_bit_eq_mod)
qed

lemma byte_of_char_of [simp]: "byte_of (char_of (unat b)) = b"
proof -
  have "unat b < 2 ^ LENGTH(8)" by (rule unsigned_less)
  then show ?thesis
    by (simp add: byte_of_def)
qed

lemma string_of_bytes_of [simp]: "string_of (bytes_of s) = s"
  by (simp add: string_of_def bytes_of_def comp_def)

lemma bytes_of_string_of [simp]: "bytes_of (string_of b) = b"
  by (simp add: string_of_def bytes_of_def comp_def)

lemma length_bytes_of [simp]: "length (bytes_of s) = length s"
  by (simp add: bytes_of_def)

lemma length_string_of [simp]: "length (string_of b) = length b"
  by (simp add: string_of_def)

section \<open>Errors of the input/output code\<close>

text \<open>
  The error values the readers of the code tell apart. \<open>EOF\<close>, \<open>ErrUnexpectedEOF\<close>,
  \<open>ErrNoProgress\<close> and \<open>ErrBufferFull\<close> are those of \<open>io\<close> and \<open>bufio\<close>;
  every other error of a connection (a reset, an expired deadline) is a \<open>ConnErr\<close>.
  A Go \<open>error\<close> that may be nil is an \<open>ioerr option\<close>.
\<close>

datatype ioerr = EOF | ErrUnexpectedEOF | ErrNoProgress | ErrBufferFull | ConnErr string

section \<open>Facts on lists and prefixes\<close>

lemma prefix_append_split:
  "prefix (p @ q) b \<longleftrightarrow> prefix p b \<and> prefix q (drop (length p) b)"
  by (auto simp: prefix_def)

lemma prefix_take_iff:
  assumes "length p \<le> n"
  shows "prefix p (take n b) \<longleftrightarrow> prefix p b"
proof
  assume "prefix p (take n b)"
  then show "prefix p b"
    by (meson prefix_order.trans take_is_prefix)
next
  assume "prefix p b"
  then obtain r where "b = p @ r" by (auto simp: prefix_def)
  with assms show "prefix p (take n b)" by (simp add: prefix_def)
qed

lemma take_length_eq_iff_prefix: "take (length p) b = p \<longleftrightarrow> prefix p b"
  by (metis append_eq_conv_conj prefix_def take_is_prefix)

section \<open>Invariants of transition systems\<close>

text \<open>
  The contract every concurrent component meets: a set of initial states, a step
  relation, and a predicate that holds initially and is kept by every step. The
  component's theory interprets the locale with its own step relation; \<open>reach_inv\<close>
  then gives the invariant for the states of every interleaving.
\<close>

definition reach :: "('s \<Rightarrow> bool) \<Rightarrow> ('s \<Rightarrow> 's \<Rightarrow> bool) \<Rightarrow> 's \<Rightarrow> bool" where
  "reach init step t \<longleftrightarrow> (\<exists>s. init s \<and> step\<^sup>*\<^sup>* s t)"

lemma reach_init: "init s \<Longrightarrow> reach init step s"
  by (auto simp: reach_def)

lemma reach_step: "reach init step s \<Longrightarrow> step s t \<Longrightarrow> reach init step t"
  unfolding reach_def by (meson rtranclp.rtrancl_into_rtrancl)

locale transition_system =
  fixes init :: "'s \<Rightarrow> bool"
    and step :: "'s \<Rightarrow> 's \<Rightarrow> bool"
    and inv :: "'s \<Rightarrow> bool"
  assumes init_inv: "init s \<Longrightarrow> inv s"
    and step_inv: "step s t \<Longrightarrow> inv s \<Longrightarrow> inv t"
begin

lemma steps_inv: "step\<^sup>*\<^sup>* s t \<Longrightarrow> inv s \<Longrightarrow> inv t"
  by (induction rule: rtranclp_induct) (auto intro: step_inv)

lemma reach_inv: "reach init step t \<Longrightarrow> inv t"
  by (auto simp: reach_def intro: init_inv steps_inv)

end

end
