(* ===== verification/Channels.thy ===== *)
theory Channels
  imports Prelude
begin

text \<open>
  Go's buffered channels: a queue with a capacity and a closed flag. An operation that
  cannot proceed yet is \<open>Blocks\<close>; one that the language answers with a panic (a send on
  or a close of a closed channel) is \<open>Panics\<close>. The first-in-first-out contract the
  users of a channel rely on is a locale, interpreted on these operations.
\<close>

section \<open>Channels and their operations\<close>

record 'a channel =
  ch_buf :: "'a list"
  ch_cap :: nat
  ch_closed :: bool

datatype 'r attempt = Blocks | Panics | Proceeds 'r

definition make_chan :: "nat \<Rightarrow> 'a channel" where
  "make_chan n = \<lparr>ch_buf = [], ch_cap = n, ch_closed = False\<rparr>"

definition chan_send :: "'a \<Rightarrow> 'a channel \<Rightarrow> 'a channel attempt" where
  "chan_send x ch =
     (if ch_closed ch then Panics
      else if length (ch_buf ch) < ch_cap ch then Proceeds (ch\<lparr>ch_buf := ch_buf ch @ [x]\<rparr>)
      else Blocks)"

text \<open>\<open>c, ok := <-ch\<close>: a closed and empty channel yields \<open>ok = false\<close>.\<close>

definition chan_recv :: "'a channel \<Rightarrow> ('a option \<times> 'a channel) attempt" where
  "chan_recv ch =
     (case ch_buf ch of
        x # xs \<Rightarrow> Proceeds (Some x, ch\<lparr>ch_buf := xs\<rparr>)
      | [] \<Rightarrow> if ch_closed ch then Proceeds (None, ch) else Blocks)"

definition chan_close :: "'a channel \<Rightarrow> 'a channel attempt" where
  "chan_close ch = (if ch_closed ch then Panics else Proceeds (ch\<lparr>ch_closed := True\<rparr>))"

lemma chan_send_eq:
  "chan_send x ch = Proceeds ch' \<longleftrightarrow>
     \<not> ch_closed ch \<and> length (ch_buf ch) < ch_cap ch \<and> ch' = ch\<lparr>ch_buf := ch_buf ch @ [x]\<rparr>"
  "chan_send x ch = Panics \<longleftrightarrow> ch_closed ch"
  by (auto simp: chan_send_def)

lemma chan_recv_eq:
  "chan_recv ch = Proceeds (Some x, ch') \<longleftrightarrow>
     (\<exists>xs. ch_buf ch = x # xs \<and> ch' = ch\<lparr>ch_buf := xs\<rparr>)"
  "chan_recv ch = Proceeds (None, ch') \<longleftrightarrow> ch_buf ch = [] \<and> ch_closed ch \<and> ch' = ch"
  "chan_recv ch \<noteq> Panics"
  "chan_recv ch = Blocks \<longleftrightarrow> ch_buf ch = [] \<and> \<not> ch_closed ch"
  by (auto simp: chan_recv_def split: list.splits)

lemma chan_close_eq:
  "chan_close ch = Proceeds ch' \<longleftrightarrow> \<not> ch_closed ch \<and> ch' = ch\<lparr>ch_closed := True\<rparr>"
  "chan_close ch = Panics \<longleftrightarrow> ch_closed ch"
  "chan_close ch \<noteq> Blocks"
  by (auto simp: chan_close_def)

lemmas chan_eqs = chan_send_eq chan_recv_eq chan_close_eq

lemma make_chan_sel [simp]:
  "ch_buf (make_chan n) = []" "ch_cap (make_chan n) = n" "\<not> ch_closed (make_chan n)"
  by (simp_all add: make_chan_def)

section \<open>The first-in-first-out contract\<close>

text \<open>
  What the sender and the receivers of a channel rely on: the elements in flight form a
  queue, a send appends to it, a receive takes its head, and closing leaves it alone.
\<close>

locale fifo_channel =
  fixes in_flight :: "'c \<Rightarrow> 'a list"
    and send :: "'a \<Rightarrow> 'c \<Rightarrow> 'c attempt"
    and recv :: "'c \<Rightarrow> ('a option \<times> 'c) attempt"
    and close :: "'c \<Rightarrow> 'c attempt"
    and is_closed :: "'c \<Rightarrow> bool"
  assumes send_in_flight: "send x c = Proceeds c' \<Longrightarrow> in_flight c' = in_flight c @ [x]"
    and recv_in_flight: "recv c = Proceeds (Some x, c') \<Longrightarrow> in_flight c = x # in_flight c'"
    and close_in_flight: "close c = Proceeds c' \<Longrightarrow> in_flight c' = in_flight c"
    and send_open: "send x c = Proceeds c' \<Longrightarrow> \<not> is_closed c \<and> \<not> is_closed c'"
    and recv_closed: "recv c = Proceeds (r, c') \<Longrightarrow> is_closed c' = is_closed c"
    and close_closed: "close c = Proceeds c' \<Longrightarrow> is_closed c'"
begin

text \<open>
  The history of a channel: what was taken from it, followed by what is in flight, is what
  was sent, in the order of the sends.
\<close>

lemma history_send:
  "send x c = Proceeds c' \<Longrightarrow> taken @ in_flight c = sent \<Longrightarrow> taken @ in_flight c' = sent @ [x]"
  by (simp add: send_in_flight flip: append_assoc)

lemma history_recv:
  "recv c = Proceeds (Some x, c') \<Longrightarrow> taken @ in_flight c = sent \<Longrightarrow>
     (taken @ [x]) @ in_flight c' = sent"
  by (simp add: recv_in_flight)

lemma history_close:
  "close c = Proceeds c' \<Longrightarrow> taken @ in_flight c = sent \<Longrightarrow> taken @ in_flight c' = sent"
  by (simp add: close_in_flight)

lemmas history = history_send history_recv history_close

lemma closed_not_sent: "is_closed c \<Longrightarrow> send x c \<noteq> Proceeds c'"
  by (blast dest: send_open)

end

interpretation go_chan: fifo_channel ch_buf chan_send chan_recv chan_close ch_closed
proof (unfold_locales, goal_cases)
  case (5 c r c')
  then show ?case by (cases r) (auto simp: chan_eqs)
qed (auto simp: chan_eqs)

end
