(* ===== verification/Patricia.thy ===== *)
theory Patricia
  imports Prelude
begin

text \<open>
  The patricia tree of \<open>rpc/mux.go\<close> (\<open>Tree\<close>, \<open>ptNode\<close>, \<open>newTree\<close>, \<open>newNode\<close>,
  \<open>splitPrefix\<close>, \<open>match\<close>): its construction from a list of byte strings and the
  search in it, proved against "one of the strings is a prefix of the input" and "the
  input is one of the strings".
\<close>

section \<open>The node type\<close>

text \<open>
  \<open>type ptNode struct { prefix []byte; next map[byte]*ptNode; terminal bool }\<close>. The
  Go map is a partial function; a nil map reads as the empty one.
\<close>

datatype ptNode = PtNode (pt_prefix: bytes) (pt_next: "byte \<Rightarrow> ptNode option") (pt_terminal: bool)

record Tree =
  root :: ptNode
  maxDepth :: nat

section \<open>splitPrefix\<close>

text \<open>
  The inner loop \<open>for j, b := range bss\<close> at column \<open>i\<close>: whether all strings have
  the same byte there, and that byte.
\<close>

fun splitPrefix_column :: "nat \<Rightarrow> nat \<Rightarrow> byte \<Rightarrow> bytes list \<Rightarrow> bool \<times> byte" where
  "splitPrefix_column i j cur [] = (True, cur)"
| "splitPrefix_column i j cur (b # bs) =
     (if length b \<le> i then (False, cur)
      else if j = 0 then splitPrefix_column i (Suc j) (b ! i) bs
      else if cur \<noteq> b ! i then (False, cur)
      else splitPrefix_column i (Suc j) cur bs)"

text \<open>
  The outer loop \<open>for i := 0; ; i++\<close>. It has no bound of its own: it stops because the
  first string has a finite length.
\<close>

function splitPrefix_loop :: "nat \<Rightarrow> bytes \<Rightarrow> bytes \<Rightarrow> bytes list \<Rightarrow> bytes" where
  "splitPrefix_loop i pfx b0 bs =
     (case splitPrefix_column i 0 0 (b0 # bs) of
        (eq, cur) \<Rightarrow>
          if \<not> eq then pfx
          else splitPrefix_loop (Suc i) (pfx @ [cur]) b0 bs)"
  by pat_completeness auto
termination
  by (relation "measure (\<lambda>(i, p, b0, bs). length b0 - i)") (auto split: if_splits)

declare splitPrefix_loop.simps [simp del]

definition splitPrefix :: "bytes list \<Rightarrow> bytes \<times> bytes list" where
  "splitPrefix bss =
     (case bss of
        [] \<Rightarrow> ([], bss)
      | b0 # bs \<Rightarrow>
          if length b0 = 0 then ([], bss)
          else if length bss = 1 then (b0, [[]])
          else let pfx = splitPrefix_loop 0 [] b0 bs
               in (pfx, map (\<lambda>b. drop (length pfx) b) bss))"

section \<open>newNode and newTree\<close>

text \<open>
  The loop of \<open>newNode\<close> over the remainders: an empty one makes the node terminal, any
  other is filed under its first byte.
\<close>

fun newNode_nexts ::
  "bytes list \<Rightarrow> bool \<Rightarrow> (byte \<Rightarrow> bytes list option) \<Rightarrow> bool \<times> (byte \<Rightarrow> bytes list option)" where
  "newNode_nexts [] terminal nexts = (terminal, nexts)"
| "newNode_nexts (s # strs) terminal nexts =
     (case s of
        [] \<Rightarrow> newNode_nexts strs True nexts
      | c # rest \<Rightarrow>
          newNode_nexts strs terminal
            (nexts(c \<mapsto> (case nexts c of None \<Rightarrow> [] | Some rests \<Rightarrow> rests) @ [rest])))"

text \<open>
  What the loop computes: the remainders filed under a byte are those that start with it,
  in their order, without that byte.
\<close>

definition rests_under :: "byte \<Rightarrow> bytes list \<Rightarrow> bytes list" where
  "rests_under c strs = map tl (filter (\<lambda>s. s \<noteq> [] \<and> hd s = c) strs)"

lemma rests_under_simps [simp]:
  "rests_under c [] = []"
  "rests_under c ([] # strs) = rests_under c strs"
  "rests_under c ((d # r) # strs) = (if d = c then r # rests_under c strs else rests_under c strs)"
  by (simp_all add: rests_under_def)

lemma set_rests_under: "r \<in> set (rests_under c strs) \<longleftrightarrow> c # r \<in> set strs"
proof (induction strs)
  case Nil
  then show ?case by simp
next
  case (Cons s strs)
  then show ?case by (cases s) auto
qed

lemma newNode_nexts_eq:
  "newNode_nexts strs t nexts =
     (t \<or> [] \<in> set strs,
      \<lambda>c. if rests_under c strs = [] then nexts c
           else Some ((case nexts c of None \<Rightarrow> [] | Some rests \<Rightarrow> rests) @ rests_under c strs))"
proof (induction strs arbitrary: t nexts)
  case Nil
  then show ?case by simp
next
  case (Cons s strs)
  then show ?case
    by (cases s) (auto simp: fun_eq_iff split: option.splits)
qed

definition total_length :: "bytes list \<Rightarrow> nat" where
  "total_length strs = sum_list (map length strs)"

lemma total_length_simps [simp]:
  "total_length [] = 0"
  "total_length (s # strs) = length s + total_length strs"
  by (simp_all add: total_length_def)

lemma total_length_rests_under:
  "total_length (rests_under c strs) + length (rests_under c strs) \<le> total_length strs"
proof (induction strs)
  case Nil
  then show ?case by simp
next
  case (Cons s strs)
  then show ?case by (cases s) auto
qed

lemma total_length_map_drop: "total_length (map (drop n) strs) \<le> total_length strs"
  by (induction strs) auto

lemma splitPrefix_total: "splitPrefix bss = (p, rest) \<Longrightarrow> total_length rest \<le> total_length bss"
  using total_length_map_drop [of "length p" bss]
  by (auto simp: splitPrefix_def Let_def split: list.splits if_splits)

lemma newNode_decreases:
  assumes "(p, strs') = splitPrefix strs"
    and "(t, nexts) = newNode_nexts strs' False (\<lambda>_. None)" and "nexts c = Some rests"
  shows "total_length rests < total_length strs"
proof -
  from assms(2,3) have rests: "rests = rests_under c strs'" "rests \<noteq> []"
    by (auto simp: newNode_nexts_eq split: if_splits)
  from rests(2) have "0 < length rests" by simp
  moreover have "total_length rests + length rests \<le> total_length strs'"
    unfolding rests(1) by (rule total_length_rests_under)
  moreover have "total_length strs' \<le> total_length strs"
    by (rule splitPrefix_total) (rule assms(1) [symmetric])
  ultimately show ?thesis by linarith
qed

function newNode :: "bytes list \<Rightarrow> ptNode" where
  "newNode strs =
     (if length strs = 0 then PtNode [] (\<lambda>_. None) True
      else if length strs = 1 then PtNode (hd strs) (\<lambda>_. None) True
      else (case splitPrefix strs of
              (p, strs') \<Rightarrow>
                (case newNode_nexts strs' False (\<lambda>_. None) of
                   (terminal, nexts) \<Rightarrow>
                     PtNode p
                       (\<lambda>first. case nexts first of
                          None \<Rightarrow> None
                        | Some rests \<Rightarrow> Some (newNode rests))
                       terminal)))"
  by pat_completeness auto
termination
proof (relation "measure total_length", simp, unfold in_measure)
qed (rule newNode_decreases)

declare newNode.simps [simp del]

definition newTree :: "bytes list \<Rightarrow> Tree" where
  "newTree bs = \<lparr>root = newNode bs,
     maxDepth = fold (\<lambda>b max. if max < length b then length b else max) bs 0 + 1\<rparr>"

definition newTreeString :: "string list \<Rightarrow> Tree" where
  "newTreeString strs = newTree (map bytes_of strs)"

section \<open>match\<close>

text \<open>
  \<open>func (n *ptNode) match(b []byte, prefix bool) bool\<close>, with its conditions in the
  source's order; the second \<open>l == len(b)\<close> branch cannot be taken but is kept.
\<close>

function match :: "ptNode \<Rightarrow> bytes \<Rightarrow> bool \<Rightarrow> bool" where
  "match (PtNode pre nxt terminal) b pfx =
     (let l = (if length pre > 0 \<and> length pre > length b then length b else length pre)
      in if length pre > 0 \<and> take l b \<noteq> pre then False
         else if terminal \<and> (pfx \<or> length pre = length b) then True
         else if l \<ge> length b then False
         else (case nxt (b ! l) of
                 None \<Rightarrow> False
               | Some nextN \<Rightarrow>
                   match nextN (if l = length b then [] else drop (l + 1) b) pfx))"
  by pat_completeness auto
termination
  by (relation "measure (\<lambda>(n, b, pre). length b)") (auto simp: Let_def split: if_splits)

declare match.simps [simp del]

section \<open>splitPrefix returns the longest common prefix\<close>

lemma column_rest:
  "0 < j \<Longrightarrow> splitPrefix_column i j cur bs = (eq, cur') \<Longrightarrow>
     (eq \<longleftrightarrow> (\<forall>b \<in> set bs. i < length b \<and> b ! i = cur)) \<and> cur' = cur"
  by (induction i j cur bs arbitrary: eq cur' rule: splitPrefix_column.induct)
    (fastforce split: if_splits)+

lemma column_iff:
  "splitPrefix_column i 0 0 (b0 # bs) = (eq, cur) \<Longrightarrow>
     (eq \<longleftrightarrow> (\<forall>b \<in> set (b0 # bs). i < length b \<and> b ! i = b0 ! i)) \<and> (eq \<longrightarrow> cur = b0 ! i)"
  by (auto split: if_splits dest: column_rest [rotated])

lemma prefix_take_Suc:
  assumes "i < length b0" and "prefix (take i b0) b"
  shows "prefix (take (Suc i) b0) b \<longleftrightarrow> i < length b \<and> b ! i = b0 ! i"
  using assms by (auto simp: prefix_def take_Suc_conv_app_nth nth_append neq_Nil_conv)

lemma splitPrefix_loop_step:
  assumes "splitPrefix_column i 0 0 (b0 # bs) = (eq, cur)"
  shows "splitPrefix_loop i pfx b0 bs =
    (if eq then splitPrefix_loop (Suc i) (pfx @ [cur]) b0 bs else pfx)"
  by (subst splitPrefix_loop.simps, subst assms) simp

lemma splitPrefix_loop_lcp:
  assumes "i \<le> length b0" and "pfx = take i b0" and "\<forall>b \<in> set bs. prefix (take i b0) b"
  shows "splitPrefix_loop i pfx b0 bs = Longest_common_prefix (set (b0 # bs))"
  using assms
proof (induction i pfx b0 bs rule: splitPrefix_loop.induct)
  case (1 i pfx b0 bs)
  obtain eq cur where col: "splitPrefix_column i 0 0 (b0 # bs) = (eq, cur)"
    by (cases "splitPrefix_column i 0 0 (b0 # bs)")
  show ?case
  proof (cases eq)
    case True
    with column_iff [OF col] have all: "\<forall>b \<in> set (b0 # bs). i < length b \<and> b ! i = b0 ! i"
      and cur: "cur = b0 ! i" by auto
    with "1.prems" have "\<forall>b \<in> set bs. prefix (take (Suc i) b0) b"
      by (simp add: prefix_take_Suc)
    moreover have "pfx @ [cur] = take (Suc i) b0"
      using all cur "1.prems"(2) by (simp add: take_Suc_conv_app_nth)
    ultimately show ?thesis
      using "1.IH" [OF col [symmetric]] True all
      by (simp add: splitPrefix_loop_step [OF col])
  next
    case False
    have "\<not> (\<forall>b \<in> set (b0 # bs). prefix q b) \<or> length q \<le> i" for q
    proof (rule ccontr)
      assume "\<not> ?thesis"
      then have q: "\<forall>b \<in> set (b0 # bs). prefix q b" and long: "i < length q" by auto
      then have "i < length b \<and> b ! i = q ! i" if "b \<in> set (b0 # bs)" for b
        using that by (force simp: prefix_def nth_append)
      then have "\<forall>b \<in> set (b0 # bs). i < length b \<and> b ! i = b0 ! i" by simp
      with column_iff [OF col] False show False by blast
    qed
    then have "Longest_common_prefix (set (b0 # bs)) = take i b0"
      using "1.prems" by (intro Longest_common_prefix_eq) (auto simp: take_is_prefix)
    with False "1.prems" show ?thesis
      by (simp add: splitPrefix_loop_step [OF col])
  qed
qed

lemma splitPrefix_eq_lcp:
  assumes "bss \<noteq> []"
  shows "splitPrefix bss =
    (Longest_common_prefix (set bss), map (drop (length (Longest_common_prefix (set bss)))) bss)"
proof (cases bss)
  case Nil
  with assms show ?thesis by simp
next
  case (Cons b0 bs)
  show ?thesis
  proof (cases "b0 = [] \<or> bs = []")
    case True
    moreover have "Longest_common_prefix {b0} = b0"
      by (rule Longest_common_prefix_eq) (auto dest: prefix_length_le)
    ultimately show ?thesis
      using Cons by (auto simp: splitPrefix_def Longest_common_prefix_Nil)
  next
    case False
    with Cons splitPrefix_loop_lcp [of 0 b0 "[]" bs] show ?thesis
      by (auto simp: splitPrefix_def Let_def)
  qed
qed

lemma lcp_drop:
  "b \<in> set bss \<Longrightarrow>
     Longest_common_prefix (set bss) @ drop (length (Longest_common_prefix (set bss))) b = b"
  by (metis Longest_common_prefix_prefix append_eq_conv_conj prefix_def)

text \<open>
  On a non-empty list of byte strings, \<open>splitPrefix\<close> returns the longest common
  prefix of all of them and what is left of each after it: putting the prefix back in
  front of the remainders gives the list again, and no longer string is a prefix of all.
\<close>

theorem splitPrefix_longest:
  assumes "bss \<noteq> []" and "splitPrefix bss = (p, rest)"
  shows "map ((@) p) rest = bss \<and> p = Longest_common_prefix (set bss)"
  using assms by (auto simp: splitPrefix_eq_lcp lcp_drop intro!: map_idI)

theorem splitPrefix_longest_witness:
  "splitPrefix [[1, 2, 3], [1, 2], [1, 2, 5]] = ([1, 2], [[3], [], [5]])
   \<and> Longest_common_prefix {[1, 2, 3], [1, 2], [1, 2, 5 :: byte]} = [1, 2]"
proof -
  have ev: "splitPrefix [[1, 2, 3], [1, 2], [1, 2, 5]] = ([1, 2], [[3], [], [5]])"
    by (simp add: splitPrefix_def splitPrefix_loop.simps)
  show ?thesis
    using ev splitPrefix_longest [OF _ ev] by simp
qed

section \<open>What the tree recognises\<close>

lemma match_eq:
  "match (PtNode pre nxt terminal) b pfx \<longleftrightarrow>
     prefix pre b \<and>
     (terminal \<and> (pfx \<or> length pre = length b)
      \<or> (case drop (length pre) b of
           [] \<Rightarrow> False
         | c # b' \<Rightarrow> (case nxt c of None \<Rightarrow> False | Some n \<Rightarrow> match n b' pfx)))"
proof (cases "prefix pre b")
  case True
  then obtain r where b: "b = pre @ r" by (auto simp: prefix_def)
  show ?thesis
    by (subst match.simps) (cases r; auto simp: b Let_def split: option.splits)
next
  case False
  then have "pre \<noteq> []" by auto
  moreover from False have "take (length pre) b \<noteq> pre" and "b \<noteq> pre \<or> True"
    by (auto simp: take_length_eq_iff_prefix)
  moreover have "length pre > length b \<Longrightarrow> b \<noteq> pre" by auto
  ultimately show ?thesis
    using False by (subst match.simps) (auto simp: Let_def)
qed

text \<open>The specification: one of the strings is a prefix of the input, or equal to it.\<close>

definition recognises :: "bytes list \<Rightarrow> bool \<Rightarrow> bytes \<Rightarrow> bool" where
  "recognises strs pfx b \<longleftrightarrow>
     (if strs = [] then pfx \<or> b = []
      else if pfx then \<exists>s \<in> set strs. prefix s b else b \<in> set strs)"

lemma recognises_single: "recognises [s] pfx b \<longleftrightarrow> prefix s b \<and> (pfx \<or> length s = length b)"
  by (auto simp: recognises_def prefix_def)

text \<open>Factoring a common prefix out of the strings, and splitting on the first byte.\<close>

lemma recognises_common:
  assumes "strs \<noteq> []"
  shows "recognises (map ((@) p) strs) pfx b \<longleftrightarrow>
    prefix p b \<and> recognises strs pfx (drop (length p) b)"
  using assms by (auto simp: recognises_def prefix_append_split) (auto simp: prefix_def)

lemma recognises_split:
  assumes "strs \<noteq> []"
  shows "recognises strs pfx b \<longleftrightarrow>
    ([] \<in> set strs \<and> (pfx \<or> b = []))
    \<or> (case b of [] \<Rightarrow> False
       | c # b' \<Rightarrow> rests_under c strs \<noteq> [] \<and> recognises (rests_under c strs) pfx b')"
proof (cases b)
  case Nil
  then show ?thesis
    using assms by (auto simp: recognises_def)
next
  case (Cons c b')
  have ne: "rests_under c strs \<noteq> []" if "c # r \<in> set strs" for r
    using that set_rests_under [of r c strs] by auto
  have "(\<exists>s \<in> set strs. prefix s b) \<longleftrightarrow>
    [] \<in> set strs \<or> (\<exists>r \<in> set (rests_under c strs). prefix r b')"
    by (auto simp: Cons set_rests_under prefix_Cons)
  with assms Cons ne show ?thesis
    by (auto simp: recognises_def set_rests_under)
qed

text \<open>
  The equations of \<open>newNode\<close> and its induction rule, in terms of the remainders under
  each byte.
\<close>

lemma newNode_nexts_empty:
  "newNode_nexts strs False (\<lambda>_. None) =
     ([] \<in> set strs,
      \<lambda>c. if rests_under c strs = [] then None else Some (rests_under c strs))"
  by (auto simp: newNode_nexts_eq fun_eq_iff)

lemma newNode_few [simp]:
  "newNode [] = PtNode [] (\<lambda>_. None) True"
  "newNode [s] = PtNode s (\<lambda>_. None) True"
  by (simp_all add: newNode.simps)

lemma newNode_many:
  assumes "1 < length strs" and "splitPrefix strs = (p, rest)"
  shows "newNode strs =
    PtNode p (\<lambda>c. if rests_under c rest = [] then None else Some (newNode (rests_under c rest)))
      ([] \<in> set rest)"
  using assms by (auto simp: newNode.simps [of strs] newNode_nexts_empty fun_eq_iff)

lemma newNode_induct [case_names none one many]:
  assumes "P []" and "\<And>s. P [s]"
    and "\<And>strs p rest. 1 < length strs \<Longrightarrow> splitPrefix strs = (p, rest) \<Longrightarrow>
      (\<And>c. rests_under c rest \<noteq> [] \<Longrightarrow> P (rests_under c rest)) \<Longrightarrow> P strs"
  shows "P strs"
proof (induction strs rule: measure_induct_rule [where f = total_length])
  case (less strs)
  obtain p rest where sp: "splitPrefix strs = (p, rest)"
    by (cases "splitPrefix strs")
  have smaller: "total_length (rests_under c rest) < total_length strs"
    if "rests_under c rest \<noteq> []" for c
    by (rule newNode_decreases [OF sp [symmetric] newNode_nexts_empty [symmetric], of c])
      (use that in simp)
  consider "strs = []" | s where "strs = [s]" | "1 < length strs"
    by (cases strs rule: remdups_adj.cases) auto
  then show ?case
    using assms(1,2) assms(3) [OF _ sp] less smaller by cases auto
qed

lemma splitPrefix_parts:
  assumes "1 < length strs" and "splitPrefix strs = (p, rest)"
  shows "map ((@) p) rest = strs" and "rest \<noteq> []" and "length rest = length strs"
proof -
  from assms(1) have "strs \<noteq> []" by auto
  with assms show "map ((@) p) rest = strs" and "rest \<noteq> []" and "length rest = length strs"
    by (auto simp: splitPrefix_eq_lcp lcp_drop intro!: map_idI)
qed

lemma match_newNode: "match (newNode strs) b pfx \<longleftrightarrow> recognises strs pfx b"
proof (induction strs arbitrary: b rule: newNode_induct)
  case none
  then show ?case by (simp add: match_eq recognises_def split: list.splits)
next
  case (one s)
  then show ?case by (simp add: match_eq recognises_single split: list.splits)
next
  case (many strs p rest)
  note parts = splitPrefix_parts [OF many.hyps]
  have "match (newNode strs) b pfx \<longleftrightarrow> prefix p b \<and> recognises rest pfx (drop (length p) b)"
  proof (cases "prefix p b")
    case True
    then obtain r where b: "b = p @ r" by (auto simp: prefix_def)
    show ?thesis
      unfolding newNode_many [OF many.hyps] match_eq b
        recognises_split [OF parts(2), of pfx "drop (length p) (p @ r)"]
      using many.IH by (cases r) (auto split: if_splits)
  qed (simp add: newNode_many [OF many.hyps] match_eq)
  with recognises_common [OF parts(2), of p pfx b] show ?case
    by (simp add: parts(1))
qed

section \<open>The depth bound and the shape of the tree\<close>

lemma maxDepth_newTree: "maxDepth (newTree strs) = fold max (map length strs) 0 + 1"
  unfolding newTree_def by (simp add: fold_map comp_def max_def not_less)
    (intro fold_cong; force)

lemma length_less_maxDepth: "s \<in> set strs \<Longrightarrow> length s < maxDepth (newTree strs)"
  unfolding maxDepth_newTree
  by (metis Max.coboundedI Max.set_eq_fold image_eqI list.set_map list.set_intros(2)
      List.finite_set less_Suc_eq_le Suc_eq_plus1)

lemma recognises_take:
  assumes "0 < n" and "\<forall>s \<in> set strs. length s < n"
  shows "recognises strs pfx (take n b) \<longleftrightarrow> recognises strs pfx b"
proof -
  have "prefix s (take n b) \<longleftrightarrow> prefix s b" if "s \<in> set strs" for s
    using that assms(2) by (simp add: prefix_take_iff less_imp_le)
  moreover have "take n b \<in> set strs \<longleftrightarrow> b \<in> set strs"
  proof (cases "length b < n")
    case False
    with assms(2) show ?thesis by force
  qed simp
  ultimately show ?thesis
    using assms(1) by (auto simp: recognises_def)
qed

lemma match_newTree:
  "match (root (newTree strs)) (take (maxDepth (newTree strs)) b) pfx \<longleftrightarrow> recognises strs pfx b"
proof -
  have "0 < maxDepth (newTree strs)" by (simp add: newTree_def)
  then show ?thesis
    using match_newNode [of strs _ pfx] recognises_take [of "maxDepth (newTree strs)" strs pfx b]
      length_less_maxDepth [of _ strs]
    by (simp add: newTree_def)
qed

text \<open>
  C13. The tree built from a list of byte strings, searched with the first \<open>maxDepth\<close>
  bytes of an input, answers in prefix mode whether one of the strings is a prefix of the
  whole input, and in exact mode whether the input is one of the strings. With no string at
  all the tree is one terminal empty node: it accepts every input in prefix mode and only
  the empty one in exact mode.
\<close>

theorem newTree_match_spec:
  "match (root (newTree strs)) (take (maxDepth (newTree strs)) b) pfx \<longleftrightarrow>
     (if strs = [] then pfx \<or> b = []
      else if pfx then (\<exists>s \<in> set strs. prefix s b) else b \<in> set strs)"
  unfolding match_newTree recognises_def ..

text \<open>
  A node earns its place: it ends a string or it branches. This is what makes the search
  proportional to the input and not to the number of strings.
\<close>

inductive compressed :: "ptNode \<Rightarrow> bool" where
  node: "terminal \<or> (\<exists>c d. c \<noteq> d \<and> nxt c \<noteq> None \<and> nxt d \<noteq> None) \<Longrightarrow>
    (\<And>c n. nxt c = Some n \<Longrightarrow> compressed n) \<Longrightarrow> compressed (PtNode pre nxt terminal)"

inductive_simps compressed_PtNode: "compressed (PtNode pre nxt terminal)"

lemma splitPrefix_branches:
  assumes "1 < length strs" and "splitPrefix strs = (p, rest)" and "[] \<notin> set rest"
  shows "\<exists>c d. c \<noteq> d \<and> rests_under c rest \<noteq> [] \<and> rests_under d rest \<noteq> []"
proof (rule ccontr)
  assume same: "\<not> ?thesis"
  note parts = splitPrefix_parts [OF assms(1,2)]
  obtain c r where "c # r \<in> set rest"
    using assms(3) parts(2) by (cases rest; cases "hd rest") auto
  have under: "rests_under d rest \<noteq> []" if "d # q \<in> set rest" for d q
    using that set_rests_under [of q d rest] by auto
  have "prefix [c] q" if "q \<in> set rest" for q
  proof (cases q)
    case Nil
    with that assms(3) show ?thesis by simp
  next
    case (Cons d q')
    with that under \<open>c # r \<in> set rest\<close> same have "d = c" by blast
    with Cons show ?thesis by simp
  qed
  then have "\<forall>b \<in> set strs. prefix (p @ [c]) b"
    unfolding parts(1) [symmetric] by auto
  moreover have "p = Longest_common_prefix (set strs)" and "set strs \<noteq> {}"
    using assms(1,2) by (cases strs; force simp: splitPrefix_eq_lcp)+
  ultimately show False
    using Longest_common_prefix_longest [of "set strs" "p @ [c]"] by simp
qed

text \<open>
  C35. The tree has no useless node: every node that \<open>newNode\<close> builds, at any depth,
  is terminal or has at least two children.
\<close>

theorem newNode_compressed: "compressed (newNode strs)"
proof (induction strs rule: newNode_induct)
  case (many strs p rest)
  with splitPrefix_branches [OF many.hyps] show ?case
    by (auto simp: newNode_many [OF many.hyps] compressed_PtNode split: if_splits)
qed (simp_all add: compressed_PtNode)

end
