(* ===== verification/IoReader.thy ===== *)
theory IoReader
  imports Prelude
begin

text \<open>
  The interface \<open>io.Reader\<close> as the matchers of \<open>rpc/mux.go\<close> use it: a read
  function on a reader state, the contract its implementations meet (as two locales), the
  part of a network connection the multiplexer touches, and the two standard-library
  readers built on the interface (\<open>io.ReadFull\<close> and \<open>io.LimitedReader\<close>).
\<close>

section \<open>The interface\<close>

text \<open>
  \<open>Read(p []byte) (n int, err error)\<close> with \<open>len(p)\<close> as argument; the bytes put into
  \<open>p\<close> are returned, \<open>n\<close> is their number.
\<close>

type_synonym 's reader = "'s \<Rightarrow> nat \<Rightarrow> (bytes \<times> ioerr option) \<times> 's"

text \<open>Everything a client can do to a reader is a sequence of reads.\<close>

definition read_step :: "'s reader \<Rightarrow> 's \<Rightarrow> 's \<Rightarrow> bool" where
  "read_step rd s t \<longleftrightarrow> (\<exists>n r. rd s n = (r, t))"

abbreviation reads :: "'s reader \<Rightarrow> 's \<Rightarrow> 's \<Rightarrow> bool" where
  "reads rd \<equiv> (read_step rd)\<^sup>*\<^sup>*"

lemma reads_one: "rd s n = (r, t) \<Longrightarrow> reads rd s t"
  unfolding read_step_def by blast

lemma reads_more: "rd s n = (r, u) \<Longrightarrow> reads rd u t \<Longrightarrow> reads rd s t"
  by (meson converse_rtranclp_into_rtranclp read_step_def)

text \<open>
  The contract: \<open>pend s\<close> are the bytes still to come, a read returns at most what was
  asked for and takes it from the front of them, and a reader does not return
  \<open>(0, nil)\<close> for ever (\<open>budget\<close>).
\<close>

locale io_reader =
  fixes rd :: "'s reader"
    and inv :: "'s \<Rightarrow> bool"
    and pend :: "'s \<Rightarrow> bytes"
    and budget :: "'s \<Rightarrow> nat"
  assumes read_inv: "inv s \<Longrightarrow> rd s n = ((bs, e), t) \<Longrightarrow> inv t"
    and read_length: "inv s \<Longrightarrow> rd s n = ((bs, e), t) \<Longrightarrow> length bs \<le> n"
    and read_pend: "inv s \<Longrightarrow> rd s n = ((bs, e), t) \<Longrightarrow> pend s = bs @ pend t"
    and read_budget: "inv s \<Longrightarrow> rd s n = ((bs, None), t) \<Longrightarrow> 0 < n \<Longrightarrow> budget t < budget s"
begin

lemma reads_inv: "reads rd s t \<Longrightarrow> inv s \<Longrightarrow> inv t"
  by (induction rule: rtranclp_induct) (auto simp: read_step_def intro: read_inv)

lemma reads_pend:
  assumes "reads rd s t" and "inv s"
  shows "suffix (pend t) (pend s)"
  using assms
proof (induction rule: rtranclp_induct)
  case base
  then show ?case by simp
next
  case (step u t)
  then have "inv u" by (blast intro: reads_inv)
  with step(2) have "suffix (pend t) (pend u)"
    by (auto simp: read_step_def suffix_def dest: read_pend)
  with step show ?case by (blast intro: suffix_order.trans)
qed

end

text \<open>
  The contract of a connection without faults: the only error is the \<open>EOF\<close> after the
  last byte, it comes alone, and a read into a non-empty buffer returns at least one byte.
\<close>

locale clean_reader = io_reader +
  assumes read_error: "inv s \<Longrightarrow> rd s n = ((bs, Some e), t) \<Longrightarrow> e = EOF \<and> bs = [] \<and> pend s = []"
    and read_progress: "inv s \<Longrightarrow> rd s n = ((bs, None), t) \<Longrightarrow> 0 < n \<Longrightarrow> bs \<noteq> []"

section \<open>Network connections\<close>

text \<open>
  What the multiplexer uses of a \<open>net.Conn\<close>. The peer and the network are a list of
  deliveries: the bytes and the error the next \<open>Read\<close> returns if its buffer is large
  enough for them; a smaller buffer takes the front and leaves the rest. After the last
  delivery the peer has ended its stream, and every read is an \<open>EOF\<close>, or it is
  \<open>c_silent\<close>: it keeps the connection open and sends nothing. \<open>c_out\<close> are the bytes
  written to the connection, \<open>c_deadline\<close> the read deadline that is set (\<open>None\<close> for
  \<open>time.Time{}\<close>), \<open>c_closed\<close> counts the calls of \<open>Close\<close> and \<open>c_addr\<close>
  is \<open>RemoteAddr().String()\<close>.

  A read from a silent peer returns when the deadline passes. Without a deadline it does not
  return: \<open>c_waits\<close> says that this has happened, and that nothing computed from what
  \<open>conn_read\<close> gives then counts (\<open>run_matcher\<close> in \<open>MuxServe\<close> looks at it).
\<close>

record net_conn =
  c_id :: nat
  c_addr :: string
  c_src :: "(bytes \<times> ioerr option) list"
  c_out :: bytes
  c_deadline :: "int option"
  c_closed :: nat
  c_silent :: bool
  c_waits :: bool

fun deliver :: "(bytes \<times> ioerr option) list \<Rightarrow> nat \<Rightarrow>
    (bytes \<times> ioerr option) \<times> (bytes \<times> ioerr option) list" where
  "deliver [] n = (([], Some EOF), [])"
| "deliver ((bs, e) # rest) n =
     (if length bs \<le> n then ((bs, e), rest) else ((take n bs, None), (drop n bs, e) # rest))"

definition conn_read :: "net_conn reader" where
  "conn_read c n =
     (if c_src c = [] \<and> c_silent c then
        (if n = 0 then (([], None), c)
         else (([], Some (ConnErr ''i/o timeout'')), c\<lparr>c_waits := (c_waits c \<or> c_deadline c = None)\<rparr>))
      else (case deliver (c_src c) n of (r, src) \<Rightarrow> (r, c\<lparr>c_src := src\<rparr>)))"

definition conn_write :: "bytes \<Rightarrow> net_conn \<Rightarrow> net_conn" where
  "conn_write bs c = c\<lparr>c_out := c_out c @ bs\<rparr>"

definition conn_close :: "net_conn \<Rightarrow> net_conn" where
  "conn_close c = c\<lparr>c_closed := Suc (c_closed c)\<rparr>"

definition conn_pend :: "net_conn \<Rightarrow> bytes" where
  "conn_pend c = concat (map fst (c_src c))"

definition conn_budget :: "net_conn \<Rightarrow> nat" where
  "conn_budget c = (\<Sum>(bs, e) \<leftarrow> c_src c. Suc (length bs))"

text \<open>
  A connection on which every read returns: its peer ends the stream or a deadline is set. A
  connection without faults: what the peer sends arrives without errors, and then it ends its
  stream.
\<close>

definition reads_return :: "net_conn \<Rightarrow> bool" where
  "reads_return c \<longleftrightarrow> \<not> c_waits c \<and> (\<not> c_silent c \<or> c_deadline c \<noteq> None)"

definition conn_clean :: "net_conn \<Rightarrow> bool" where
  "conn_clean c \<longleftrightarrow> \<not> c_silent c \<and> \<not> c_waits c \<and> (\<forall>d \<in> set (c_src c). snd d = None \<and> fst d \<noteq> [])"

lemma deliver_length: "deliver src n = ((bs, e), src') \<Longrightarrow> length bs \<le> n"
  by (induction src n rule: deliver.induct) (auto split: if_splits)

lemma deliver_pend:
  "deliver src n = ((bs, e), src') \<Longrightarrow> concat (map fst src) = bs @ concat (map fst src')"
  by (induction src n rule: deliver.induct) (auto split: if_splits)

lemma deliver_budget:
  "deliver src n = ((bs, None), src') \<Longrightarrow> 0 < n \<Longrightarrow>
     (\<Sum>(bs, e) \<leftarrow> src'. Suc (length bs)) < (\<Sum>(bs, e) \<leftarrow> src. Suc (length bs))"
  by (induction src n rule: deliver.induct) (auto split: if_splits)

lemma deliver_clean:
  "deliver src n = (r, src') \<Longrightarrow> \<forall>d \<in> set src. snd d = None \<and> fst d \<noteq> [] \<Longrightarrow>
     \<forall>d \<in> set src'. snd d = None \<and> fst d \<noteq> []"
  by (induction src n rule: deliver.induct) (auto split: if_splits)

lemma deliver_clean_result:
  "deliver src n = ((bs, e), src') \<Longrightarrow> \<forall>d \<in> set src. snd d = None \<and> fst d \<noteq> [] \<Longrightarrow>
     (case e of Some e \<Rightarrow> e = EOF \<and> bs = [] \<and> src = [] | None \<Rightarrow> 0 < n \<longrightarrow> bs \<noteq> [])"
  by (induction src n rule: deliver.induct) (auto split: if_splits)

lemma conn_read_cases:
  assumes "conn_read c n = ((bs, e), c')"
  obtains (silent) "c_src c = []" and "c_silent c" and "bs = []" and "e = None \<longleftrightarrow> n = 0"
      and "c' = (if n = 0 then c else c\<lparr>c_waits := (c_waits c \<or> c_deadline c = None)\<rparr>)"
    | (delivers) src where "deliver (c_src c) n = ((bs, e), src)" and "c' = c\<lparr>c_src := src\<rparr>"
proof (cases "c_src c = [] \<and> c_silent c")
  case True
  with assms show ?thesis by (intro silent) (auto simp: conn_read_def split: if_splits)
next
  case False
  with assms delivers show ?thesis by (auto simp: conn_read_def split: prod.splits)
qed

lemma conn_read_frame:
  "conn_read c n = (r, c') \<Longrightarrow> c_id c' = c_id c \<and> c_addr c' = c_addr c \<and> c_deadline c' = c_deadline c
     \<and> c_closed c' = c_closed c \<and> c_silent c' = c_silent c \<and> c_out c' = c_out c"
  by (auto simp: conn_read_def split: if_splits prod.splits)

lemma conn_read_returns: "conn_read c n = (r, c') \<Longrightarrow> reads_return c \<Longrightarrow> reads_return c'"
  by (auto simp: conn_read_def reads_return_def split: if_splits prod.splits)

lemma conn_read_waits: "conn_read c n = (r, c') \<Longrightarrow> c_waits c \<Longrightarrow> c_waits c'"
  by (auto simp: conn_read_def split: if_splits prod.splits)

lemma clean_reads_return: "conn_clean c \<Longrightarrow> reads_return c"
  by (simp add: conn_clean_def reads_return_def)

lemmas conn_defs = conn_pend_def conn_budget_def conn_clean_def

interpretation conn: io_reader conn_read "\<lambda>_. True" conn_pend conn_budget
proof (unfold_locales, goal_cases)
  case (2 s n bs e t)
  from 2(2) show ?case by (cases rule: conn_read_cases) (auto dest: deliver_length)
next
  case (3 s n bs e t)
  from 3(2) show ?case by (cases rule: conn_read_cases) (auto simp: conn_defs dest: deliver_pend)
next
  case (4 s n bs t)
  from 4(2) show ?case
    using 4(3) by (cases rule: conn_read_cases) (auto simp: conn_defs dest: deliver_budget)
qed simp

lemmas conn_laws =
  conn.read_length [OF TrueI] conn.read_pend [OF TrueI] conn.read_budget [OF TrueI]

lemma conn_read_clean:
  assumes "conn_read c n = (r, c')" and "conn_clean c"
  shows "conn_clean c'"
proof -
  obtain bs e where "conn_read c n = ((bs, e), c')" using assms(1) by (cases r) simp
  then show ?thesis
  proof (cases rule: conn_read_cases)
    case (delivers src)
    with assms(2) deliver_clean [OF delivers(1)] show ?thesis by (simp add: conn_clean_def)
  qed (use assms(2) in \<open>simp add: conn_clean_def\<close>)
qed

lemma conn_read_clean_result:
  assumes "conn_read c n = ((bs, e), c')" and "conn_clean c"
  shows "case e of Some e \<Rightarrow> e = EOF \<and> bs = [] \<and> conn_pend c = [] | None \<Rightarrow> 0 < n \<longrightarrow> bs \<noteq> []"
  using assms(1)
proof (cases rule: conn_read_cases)
  case (delivers src)
  with deliver_clean_result [OF delivers(1)] assms(2) show ?thesis
    by (cases e) (simp_all add: conn_clean_def conn_pend_def)
qed (use assms(2) in \<open>simp add: conn_clean_def\<close>)

interpretation clean_conn: clean_reader conn_read conn_clean conn_pend conn_budget
proof (unfold_locales, goal_cases)
  case (5 s n bs e t)
  from conn_read_clean_result [OF 5(2,1)] show ?case by simp
next
  case (6 s n bs t)
  from conn_read_clean_result [OF 6(2,1)] 6(3) show ?case by simp
qed (blast dest: conn_read_clean conn_laws)+

section \<open>io.ReadFull\<close>

text \<open>
  The loop of \<open>io.ReadFull(r, buf)\<close>: it reads until the buffer is full or a read
  fails. \<open>None\<close> is "does not return", which \<open>(0, nil)\<close> for ever would cause.
\<close>

partial_function (option) readFull_loop ::
  "'s reader \<Rightarrow> nat \<Rightarrow> bytes \<Rightarrow> 's \<Rightarrow> ((bytes \<times> ioerr option) \<times> 's) option" where
  "readFull_loop rd len buf s =
     (if length buf < len then
        (case rd s (len - length buf) of
           ((bs, None), t) \<Rightarrow> readFull_loop rd len (buf @ bs) t
         | ((bs, Some e), t) \<Rightarrow> Some ((buf @ bs, Some e), t))
      else Some ((buf, None), s))"

definition readFull :: "'s reader \<Rightarrow> nat \<Rightarrow> 's \<Rightarrow> ((bytes \<times> ioerr option) \<times> 's) option" where
  "readFull rd len s =
     (case readFull_loop rd len [] s of
        None \<Rightarrow> None
      | Some ((buf, e), t) \<Rightarrow>
          Some ((buf, if length buf \<ge> len then None
                      else if 0 < length buf \<and> e = Some EOF then Some ErrUnexpectedEOF else e), t))"

context io_reader
begin

lemma readFull_loop_returns:
  "inv s \<Longrightarrow> length buf \<le> len \<Longrightarrow>
     \<exists>bs e t. readFull_loop rd len buf s = Some ((buf @ bs, e), t)
       \<and> reads rd s t \<and> pend s = bs @ pend t \<and> length (buf @ bs) \<le> len
       \<and> (e = None \<longrightarrow> length (buf @ bs) = len)"
proof (induction "budget s" arbitrary: s buf rule: less_induct)
  case less
  show ?case
  proof (cases "length buf < len")
    case True
    obtain bs e t where rd: "rd s (len - length buf) = ((bs, e), t)"
      by (metis surj_pair)
    note laws = read_inv [OF less.prems(1) rd] read_pend [OF less.prems(1) rd]
    have len: "length (buf @ bs) \<le> len"
      using read_length [OF less.prems(1) rd] True by simp
    show ?thesis
    proof (cases e)
      case None
      then have "budget t < budget s"
        using read_budget [OF less.prems(1)] rd True by simp
      from less.hyps [OF this laws(1) len] obtain bs' e' u where
        "readFull_loop rd len (buf @ bs) t = Some ((buf @ bs @ bs', e'), u)"
        "reads rd t u" "pend t = bs' @ pend u" "length (buf @ bs @ bs') \<le> len"
        "e' = None \<longrightarrow> length (buf @ bs @ bs') = len"
        by auto
      with True None rd laws(2) show ?thesis
        by (intro exI [of _ "bs @ bs'"] exI [of _ e'] exI [of _ u])
          (auto simp: readFull_loop.simps [of rd len buf s] intro: reads_more)
    next
      case (Some err)
      with True rd laws(2) len show ?thesis
        by (auto simp: readFull_loop.simps [of rd len buf s] intro: reads_one)
    qed
  next
    case False
    with less.prems show ?thesis
      by (auto simp: readFull_loop.simps [of rd len buf s])
  qed
qed

lemma readFull_returns:
  assumes "inv s"
  obtains bs e t where "readFull rd len s = Some ((bs, e), t)" and "reads rd s t"
    and "pend s = bs @ pend t" and "length bs \<le> len"
  using readFull_loop_returns [OF assms, of "[]" len] that
  by (fastforce simp: readFull_def)

end

context clean_reader
begin

lemma readFull_loop_clean:
  "inv s \<Longrightarrow> length buf \<le> len \<Longrightarrow>
     \<exists>e t. readFull_loop rd len buf s = Some ((buf @ take (len - length buf) (pend s), e), t)
       \<and> reads rd s t"
proof (induction "budget s" arbitrary: s buf rule: less_induct)
  case less
  obtain bs e t where rd: "rd s (len - length buf) = ((bs, e), t)"
    by (metis surj_pair)
  note laws = read_inv [OF less.prems(1) rd] read_pend [OF less.prems(1) rd]
    read_length [OF less.prems(1) rd]
  show ?case
  proof (cases "length buf < len \<and> e = None")
    case True
    then have "budget t < budget s" and "length (buf @ bs) \<le> len"
      using read_budget [OF less.prems(1)] rd laws(3) by auto
    from less.hyps [OF this(1) laws(1) this(2)] True rd laws show ?thesis
      by (auto simp: readFull_loop.simps [of rd len buf s] intro: reads_more)
  next
    case False
    with less.prems rd show ?thesis
      by (cases e) (auto simp: readFull_loop.simps [of rd len buf s]
          dest: read_error intro: reads_one)
  qed
qed

text \<open>On a connection without faults a full read is the front of the stream.\<close>

lemma readFull_clean:
  assumes "inv s"
  shows "\<exists>e t. readFull rd len s = Some ((take len (pend s), e), t) \<and> reads rd s t"
  using readFull_loop_clean [OF assms, of "[]" len] by (auto simp: readFull_def)

end

section \<open>io.LimitedReader\<close>

text \<open>\<open>LimitedReader\<close> as a transformer of readers: its state is the inner one and \<open>N\<close>.\<close>

definition limited_read :: "'s reader \<Rightarrow> ('s \<times> nat) reader" where
  "limited_read rd = (\<lambda>(s, N) n.
     if N = 0 then (([], Some EOF), (s, N))
     else (case rd s (min n N) of ((bs, e), t) \<Rightarrow> ((bs, e), (t, N - length bs))))"


definition limited_pend :: "('s \<Rightarrow> bytes) \<Rightarrow> 's \<times> nat \<Rightarrow> bytes" where
  "limited_pend pend = (\<lambda>(s, N). take N (pend s))"

lemma limited_read_eq:
  "limited_read rd (s, N) n = ((bs, e), u) \<longleftrightarrow>
     (if N = 0 then bs = [] \<and> e = Some EOF \<and> u = (s, N)
      else (\<exists>t. rd s (min n N) = ((bs, e), t) \<and> u = (t, N - length bs)))"
  by (auto simp: limited_read_def split: prod.splits)

lemma limited_reads: "reads (limited_read rd) u v \<Longrightarrow> reads rd (fst u) (fst v)"
proof (induction rule: rtranclp_induct)
  case base
  then show ?case by simp
next
  case (step v w)
  obtain s N n r where v: "v = (s, N)" and w: "limited_read rd (s, N) n = (r, w)"
    using step(2) by (cases v) (auto simp: read_step_def)
  have "reads rd s (fst w)"
  proof (cases "N = 0")
    case False
    obtain bs e t where "rd s (min n N) = ((bs, e), t)" by (metis surj_pair)
    with w False show ?thesis by (auto simp: limited_read_def intro: reads_one)
  qed (use w in \<open>auto simp: limited_read_def\<close>)
  with step.IH v show ?case by simp
qed

context io_reader
begin

lemma limited_reader:
  "io_reader (limited_read rd) (inv \<circ> fst) (limited_pend pend) (budget \<circ> fst)"
proof (unfold_locales, goal_cases)
  case (1 s n bs e t)
  then show ?case by (cases s) (auto simp: limited_read_eq split: if_splits dest: read_inv)
next
  case (2 s n bs e t)
  then show ?case by (cases s) (auto simp: limited_read_eq split: if_splits dest: read_length)
next
  case (3 s n bs e t)
  obtain r N where s: "s = (r, N)" by (cases s)
  show ?case
  proof (cases "N = 0")
    case False
    with 3 s obtain r' where rd: "rd r (min n N) = ((bs, e), r')" and t: "t = (r', N - length bs)"
      by (auto simp: limited_read_eq)
    with 3 s have "pend r = bs @ pend r'" "length bs \<le> N"
      using read_pend [of r, OF _ rd] read_length [of r, OF _ rd] by auto
    with s t show ?thesis by (simp add: limited_pend_def)
  qed (use 3 s in \<open>auto simp: limited_read_eq limited_pend_def\<close>)
next
  case (4 s n bs t)
  then show ?case by (cases s) (auto simp: limited_read_eq split: if_splits dest: read_budget)
qed

end

context clean_reader
begin

lemma limited_clean_reader:
  "clean_reader (limited_read rd) (inv \<circ> fst) (limited_pend pend) (budget \<circ> fst)"
proof (intro clean_reader.intro limited_reader clean_reader_axioms.intro, goal_cases)
  case (1 s n bs e t)
  then show ?case
    by (cases s) (auto simp: limited_read_eq limited_pend_def split: if_splits dest: read_error)
next
  case (2 s n bs t)
  then show ?case
    by (cases s) (auto simp: limited_read_eq split: if_splits dest: read_progress)
qed

end

interpretation limited_conn: clean_reader "limited_read conn_read" "conn_clean \<circ> fst"
    "limited_pend conn_pend" "conn_budget \<circ> fst"
  by (rule clean_conn.limited_clean_reader)

end
