(* ===== verification/BufferedReader.thy ===== *)
theory BufferedReader
  imports IoReader
begin

text \<open>
  The sniffing reader of \<open>rpc/mux.go\<close> (\<open>bufferedReader\<close>, \<open>MuxConn\<close>): a reader
  that records what the matchers read and plays it back. The theory shows that it meets the
  \<open>io.Reader\<close> contract over any source that does, and that sniffing is invisible to
  whoever reads the connection afterwards.
\<close>

section \<open>The type and its operations\<close>

text \<open>
  \<open>buffer\<close> is the content of the \<open>bytes.Buffer\<close>. The code only writes to it
  (non-empty slices), looks at its bytes and its length, and replaces it by a fresh one, so
  its capacity is not zero exactly when it holds bytes.
\<close>

record 's bufferedReader =
  source :: "'s"
  buffer :: bytes
  bufferRead :: nat
  bufferSize :: nat
  sniffing :: bool
  lastErr :: "ioerr option"

definition bufferedReader_Read :: "'s reader \<Rightarrow> 's bufferedReader reader" where
  "bufferedReader_Read rd s n =
     (if bufferSize s > bufferRead s then
        (let bn = take n (drop (bufferRead s) (take (bufferSize s) (buffer s)))
         in ((bn, lastErr s), s\<lparr>bufferRead := bufferRead s + length bn\<rparr>))
      else
        (let s1 = (if \<not> sniffing s \<and> buffer s \<noteq> [] then s\<lparr>buffer := []\<rparr> else s)
         in (case rd (source s1) n of
               ((sn, sErr), src) \<Rightarrow>
                 (let s2 = s1\<lparr>source := src\<rparr>
                  in if 0 < length sn \<and> sniffing s2 then
                       ((sn, sErr), s2\<lparr>lastErr := sErr, buffer := buffer s2 @ sn\<rparr>)
                     else ((sn, sErr), s2)))))"

definition bufferedReader_reset :: "bool \<Rightarrow> 's bufferedReader \<Rightarrow> 's bufferedReader" where
  "bufferedReader_reset snif s =
     s\<lparr>sniffing := snif, bufferRead := 0, bufferSize := length (buffer s)\<rparr>"

text \<open>
  \<open>type MuxConn struct { net.Conn; buf bufferedReader }\<close>: the embedded connection and
  \<open>buf.source\<close> are the same object, so a \<open>MuxConn\<close> is its \<open>buf\<close> and its
  connection is \<open>source\<close>.
\<close>

type_synonym MuxConn = "net_conn bufferedReader"

definition newMuxConn :: "net_conn \<Rightarrow> MuxConn" where
  "newMuxConn c = \<lparr>source = c, buffer = [], bufferRead = 0, bufferSize = 0,
     sniffing = False, lastErr = None\<rparr>"

definition MuxConn_Read :: "MuxConn reader" where
  "MuxConn_Read m n = bufferedReader_Read conn_read m n"

definition startSniffing :: "'s bufferedReader \<Rightarrow> 's bufferedReader" where
  "startSniffing m = bufferedReader_reset True m"

definition doneSniffing :: "'s bufferedReader \<Rightarrow> 's bufferedReader" where
  "doneSniffing m = bufferedReader_reset False m"

section \<open>The reader contract\<close>

text \<open>
  What is still to come: the part of the recording that is being played back, then the
  source. \<open>br_total\<close> is the stream since the recording began.
\<close>

definition br_replay :: "'s bufferedReader \<Rightarrow> bytes" where
  "br_replay s = drop (bufferRead s) (take (bufferSize s) (buffer s))"

definition br_pend :: "('s \<Rightarrow> bytes) \<Rightarrow> 's bufferedReader \<Rightarrow> bytes" where
  "br_pend pend s = br_replay s @ pend (source s)"

definition br_total :: "('s \<Rightarrow> bytes) \<Rightarrow> 's bufferedReader \<Rightarrow> bytes" where
  "br_total pend s = buffer s @ pend (source s)"

definition br_budget :: "('s \<Rightarrow> nat) \<Rightarrow> 's bufferedReader \<Rightarrow> nat" where
  "br_budget budget s = (bufferSize s - bufferRead s) + budget (source s)"

definition br_inv :: "('s \<Rightarrow> bool) \<Rightarrow> 's bufferedReader \<Rightarrow> bool" where
  "br_inv I s \<longleftrightarrow> I (source s) \<and> bufferRead s \<le> bufferSize s
     \<and> (bufferRead s < bufferSize s \<longrightarrow> bufferSize s \<le> length (buffer s))"

definition br_clean :: "('s \<Rightarrow> bool) \<Rightarrow> 's bufferedReader \<Rightarrow> bool" where
  "br_clean I s \<longleftrightarrow> br_inv I s \<and> lastErr s = None"

text \<open>The two shapes of a read: from the recording, or from the source.\<close>

lemma Read_replay:
  assumes "bufferRead s < bufferSize s"
  shows "bufferedReader_Read rd s n =
    ((take n (br_replay s), lastErr s),
     s\<lparr>bufferRead := bufferRead s + length (take n (br_replay s))\<rparr>)"
  using assms by (simp add: bufferedReader_Read_def br_replay_def Let_def)

lemma Read_source:
  assumes "\<not> bufferRead s < bufferSize s" and "rd (source s) n = ((bs, e), src)"
  shows "bufferedReader_Read rd s n =
    ((bs, e), s\<lparr>source := src,
       buffer := (if sniffing s then buffer s @ bs else []),
       lastErr := (if bs \<noteq> [] \<and> sniffing s then e else lastErr s)\<rparr>)"
  using assms by (auto simp: bufferedReader_Read_def Let_def)

lemma length_br_replay:
  "br_inv I s \<Longrightarrow> bufferRead s < bufferSize s \<Longrightarrow>
     length (br_replay s) = bufferSize s - bufferRead s"
  by (simp add: br_replay_def br_inv_def)

lemma br_replay_empty: "\<not> bufferRead s < bufferSize s \<Longrightarrow> br_replay s = []"
  by (simp add: br_replay_def)

lemma br_inv_reset: "I (source s) \<Longrightarrow> br_inv I (bufferedReader_reset snif s)"
  by (simp add: br_inv_def bufferedReader_reset_def)

lemma br_pend_reset: "br_pend pend (bufferedReader_reset snif s) = br_total pend s"
  by (simp add: br_pend_def br_total_def br_replay_def bufferedReader_reset_def)

context io_reader
begin

lemma buffered_cases:
  assumes "br_inv inv s" and "bufferedReader_Read rd s n = ((bs, e), t)"
  obtains (replay) "bufferRead s < bufferSize s" and "bs = take n (br_replay s)"
      and "e = lastErr s" and "t = s\<lparr>bufferRead := bufferRead s + length bs\<rparr>"
    | (source) src where "\<not> bufferRead s < bufferSize s" and "rd (source s) n = ((bs, e), src)"
      and "t = s\<lparr>source := src, buffer := (if sniffing s then buffer s @ bs else []),
        lastErr := (if bs \<noteq> [] \<and> sniffing s then e else lastErr s)\<rparr>"
proof (cases "bufferRead s < bufferSize s")
  case True
  with assms(2) show ?thesis by (intro replay) (auto simp: Read_replay)
next
  case False
  obtain bs' e' src where "rd (source s) n = ((bs', e'), src)" by (metis surj_pair)
  with False assms(2) show ?thesis by (intro source) (auto simp: Read_source)
qed

lemma buffered_reader:
  "io_reader (bufferedReader_Read rd) (br_inv inv) (br_pend pend) (br_budget budget)"
proof (unfold_locales, goal_cases)
  case (1 s n bs e t)
  then show ?case
  proof (cases rule: buffered_cases)
    case replay
    with 1(1) show ?thesis by (auto simp: br_inv_def br_replay_def)
  next
    case (source src)
    with 1(1) show ?thesis by (auto simp: br_inv_def dest: read_inv)
  qed
next
  case (2 s n bs e t)
  then show ?case
  proof (cases rule: buffered_cases)
    case (source src)
    with 2(1) show ?thesis by (auto simp: br_inv_def dest: read_length)
  qed simp
next
  case (3 s n bs e t)
  then show ?case
  proof (cases rule: buffered_cases)
    case replay
    then have "br_replay s = bs @ br_replay t"
      by (simp add: br_replay_def min_def) (metis append_take_drop_id drop_drop add.commute)
    with replay show ?thesis by (simp add: br_pend_def)
  next
    case (source src)
    with 3(1) have "pend (bufferedReader.source s) = bs @ pend src"
      by (auto simp: br_inv_def intro: read_pend)
    with source show ?thesis by (simp add: br_pend_def br_replay_empty)
  qed
next
  case (4 s n bs t)
  then show ?case
  proof (cases rule: buffered_cases)
    case replay
    with 4(1,3) length_br_replay [OF 4(1)] show ?thesis
      by (auto simp: br_budget_def min_def)
  next
    case (source src)
    with 4(1,3) have "budget src < budget (bufferedReader.source s)"
      by (auto simp: br_inv_def intro: read_budget)
    with source show ?thesis by (simp add: br_budget_def)
  qed
qed

text \<open>While sniffing, nothing of the stream is lost: what is read is recorded.\<close>

lemma sniffing_read_total:
  assumes "br_inv inv s" and "sniffing s" and "bufferedReader_Read rd s n = ((bs, e), t)"
  shows "sniffing t \<and> br_total pend t = br_total pend s"
  using assms(1,3)
proof (cases rule: buffered_cases)
  case replay
  with assms(2) show ?thesis by (simp add: br_total_def)
next
  case (source src)
  with assms(1,2) show ?thesis by (auto simp: br_total_def br_inv_def dest: read_pend)
qed

end

context clean_reader
begin

lemma buffered_clean_reader:
  "clean_reader (bufferedReader_Read rd) (br_clean inv) (br_pend pend) (br_budget budget)"
proof -
  note buf = buffered_reader
  show ?thesis
  proof (unfold_locales, goal_cases)
    case (1 s n bs e t)
    then have "br_inv inv s" by (simp add: br_clean_def)
    from this 1(2) show ?case
    proof (cases rule: buffered_cases)
      case (source src)
      with 1 have "lastErr t = None"
        by (cases e) (auto simp: br_clean_def br_inv_def dest: read_error)
      with 1 show ?thesis by (auto simp: br_clean_def intro: io_reader.read_inv [OF buf])
    qed (use 1 in \<open>auto simp: br_clean_def intro: io_reader.read_inv [OF buf]\<close>)
  next
    case (2 s n bs e t)
    then show ?case by (auto simp: br_clean_def intro: io_reader.read_length [OF buf])
  next
    case (3 s n bs e t)
    then show ?case by (auto simp: br_clean_def intro: io_reader.read_pend [OF buf])
  next
    case (4 s n bs t)
    then show ?case by (auto simp: br_clean_def intro: io_reader.read_budget [OF buf])
  next
    case (5 s n bs e t)
    then have "br_inv inv s" by (simp add: br_clean_def)
    from this 5(2) show ?case
    proof (cases rule: buffered_cases)
      case (source src)
      with 5(1) show ?thesis
        by (auto simp: br_clean_def br_inv_def br_pend_def br_replay_empty dest: read_error)
    qed (use 5(1) in \<open>simp add: br_clean_def\<close>)
  next
    case (6 s n bs t)
    then have "br_inv inv s" by (simp add: br_clean_def)
    from this 6(2) show ?case
    proof (cases rule: buffered_cases)
      case replay
      with 6(3) length_br_replay [OF \<open>br_inv inv s\<close>] show ?thesis by auto
    next
      case (source src)
      with 6(1,3) show ?thesis by (auto simp: br_clean_def br_inv_def dest: read_progress)
    qed
  qed
qed

end

interpretation mux_conn: io_reader "bufferedReader_Read conn_read" "br_inv (\<lambda>_. True)"
    "br_pend conn_pend" "br_budget conn_budget"
  by (rule conn.buffered_reader)

interpretation clean_mux_conn: clean_reader "bufferedReader_Read conn_read" "br_clean conn_clean"
    "br_pend conn_pend" "br_budget conn_budget"
  by (rule clean_conn.buffered_clean_reader)

section \<open>Sniffing is invisible\<close>

text \<open>
  What a matcher may do to a connection it is given: read through the sniffing reader and,
  as a \<open>MatchWriter\<close>, write to the connection. A session is one matcher's run after
  \<open>startSniffing\<close>; the multiplexer runs any number of them.
\<close>

definition mux_access :: "MuxConn \<Rightarrow> MuxConn \<Rightarrow> bool" where
  "mux_access s t \<longleftrightarrow>
     read_step (bufferedReader_Read conn_read) s t \<or>
     (\<exists>bs. t = s\<lparr>source := conn_write bs (source s)\<rparr>)"

definition sniff_session :: "MuxConn \<Rightarrow> MuxConn \<Rightarrow> bool" where
  "sniff_session s t \<longleftrightarrow> mux_access\<^sup>*\<^sup>* (startSniffing s) t"

lemma conn_write_pend [simp]: "conn_pend (conn_write bs c) = conn_pend c"
  by (simp add: conn_write_def conn_pend_def)

lemma conn_write_clean [simp]: "conn_clean (conn_write bs c) = conn_clean c"
  by (simp add: conn_write_def conn_clean_def)

lemma reads_mux_access:
  "reads (bufferedReader_Read conn_read) s t \<Longrightarrow> mux_access\<^sup>*\<^sup>* s t"
  by (erule rtranclp_mono [THEN predicate2D, rotated]) (auto simp: mux_access_def)

text \<open>What every access keeps: the recording plus the source is the stream from the start.\<close>

definition sniff_inv :: "bytes \<Rightarrow> MuxConn \<Rightarrow> bool" where
  "sniff_inv stream s \<longleftrightarrow>
     sniffing s \<and> br_inv (\<lambda>_. True) s \<and> br_total conn_pend s = stream"

lemma mux_access_inv:
  assumes "mux_access s t" and "sniff_inv stream s"
  shows "sniff_inv stream t"
proof -
  have read: ?thesis if "bufferedReader_Read conn_read s n = ((bs, e), t)" for n bs e
    using assms(2) mux_conn.read_inv [OF _ that] conn.sniffing_read_total [OF _ _ that]
    by (auto simp: sniff_inv_def)
  from assms(1) show ?thesis
    unfolding mux_access_def read_step_def
    using read assms(2) by (auto simp: sniff_inv_def br_inv_def br_total_def)
qed

interpretation sniff: transition_system "\<lambda>s. sniff_inv stream s" mux_access "sniff_inv stream"
  for stream by unfold_locales (auto intro: mux_access_inv)

lemma br_total_reset [simp]:
  "br_total pend (startSniffing s) = br_total pend s"
  "br_total pend (doneSniffing s) = br_total pend s"
  by (simp_all add: startSniffing_def doneSniffing_def bufferedReader_reset_def br_total_def)

lemma br_pend_sniffing [simp]:
  "br_pend pend (startSniffing s) = br_total pend s"
  "br_pend pend (doneSniffing s) = br_total pend s"
  by (simp_all add: startSniffing_def doneSniffing_def br_pend_reset)

lemma sniff_session_total:
  assumes "sniff_session s t"
  shows "br_total conn_pend t = br_total conn_pend s"
proof -
  have "sniff_inv (br_total conn_pend s) (startSniffing s)"
    unfolding sniff_inv_def br_total_reset
    by (simp add: startSniffing_def br_inv_reset) (simp add: bufferedReader_reset_def)
  with assms have "sniff_inv (br_total conn_pend s) t"
    by (auto simp: sniff_session_def intro: sniff.steps_inv)
  then show ?thesis by (simp add: sniff_inv_def)
qed

lemma sniff_sessions_total:
  "sniff_session\<^sup>*\<^sup>* s t \<Longrightarrow> br_total conn_pend t = br_total conn_pend s"
  by (induction rule: rtranclp_induct) (auto dest: sniff_session_total)

lemma br_total_newMuxConn [simp]: "br_total pend (newMuxConn c) = pend c"
  by (simp add: br_total_def newMuxConn_def)

text \<open>
  C14. Sniffing is transparent: whatever the matchers read from and wrote to a connection,
  in any number of sessions, the next matcher and the final handler both see the stream
  from its first byte.
\<close>

theorem sniffing_transparent:
  assumes "sniff_session\<^sup>*\<^sup>* (newMuxConn c) m"
  shows "br_pend conn_pend (startSniffing m) = conn_pend c
    \<and> br_pend conn_pend (doneSniffing m) = conn_pend c"
  using sniff_sessions_total [OF assms] by simp

definition sample_conn :: net_conn where
  "sample_conn = \<lparr>c_id = 1, c_addr = ''192.0.2.7:4711'',
     c_src = [(bytes_of ''GET '', None), (bytes_of ''/ HTTP'', Some EOF)],
     c_out = [], c_deadline = None, c_closed = 0, c_silent = False, c_waits = False\<rparr>"

lemma sample_conn_sel [simp]: "\<not> c_silent sample_conn" "\<not> c_waits sample_conn" "c_deadline sample_conn = None"
  by (simp_all add: sample_conn_def)

theorem sniffing_transparent_witness:
  "br_pend conn_pend
     (doneSniffing (snd (bufferedReader_Read conn_read (startSniffing (newMuxConn sample_conn)) 6)))
   = bytes_of ''GET / HTTP''"
proof -
  let ?m = "snd (bufferedReader_Read conn_read (startSniffing (newMuxConn sample_conn)) 6)"
  have "mux_access (startSniffing (newMuxConn sample_conn)) ?m"
    unfolding mux_access_def read_step_def by (metis surjective_pairing)
  then have "sniff_session\<^sup>*\<^sup>* (newMuxConn sample_conn) ?m"
    by (intro r_into_rtranclp) (simp add: sniff_session_def)
  then have "br_pend conn_pend (doneSniffing ?m) = conn_pend sample_conn"
    by (rule sniffing_transparent [THEN conjunct2])
  then show ?thesis
    by (simp add: sample_conn_def conn_pend_def bytes_of_def)
qed

text \<open>
  After the last matcher, once the recording has been played back, a \<open>MuxConn\<close>
  is its connection: each read is the connection's own read, result and error unchanged,
  and the recording is released.
\<close>

theorem serving_passthrough:
  assumes "\<not> sniffing m" and "bufferRead m = bufferSize m"
    and "conn_read (source m) n = (r, c')"
  shows "MuxConn_Read m n = (r, m\<lparr>source := c', buffer := []\<rparr>)"
  using assms by (cases r) (simp add: MuxConn_Read_def Read_source)

theorem serving_passthrough_witness:
  "MuxConn_Read (doneSniffing (newMuxConn sample_conn)) 3 =
     ((bytes_of ''GET'', None),
      (newMuxConn sample_conn)\<lparr>source := sample_conn\<lparr>c_src :=
         [(bytes_of '' '', None), (bytes_of ''/ HTTP'', Some EOF)]\<rparr>\<rparr>)"
  by (subst serving_passthrough [where c' = "sample_conn\<lparr>c_src :=
        [(bytes_of '' '', None), (bytes_of ''/ HTTP'', Some EOF)]\<rparr>" and r = "(bytes_of ''GET'', None)"])
    (simp_all add: doneSniffing_def bufferedReader_reset_def newMuxConn_def sample_conn_def
      conn_read_def bytes_of_def)

lemma Read_doneSniffing:
  assumes "buffer t \<noteq> []"
  shows "\<exists>u. bufferedReader_Read rd (doneSniffing t) n = ((take n (buffer t), lastErr t), u)
    \<and> br_replay u = drop n (buffer t)"
  using assms
  by (simp add: Read_replay doneSniffing_def bufferedReader_reset_def br_replay_def min_def)

text \<open>
  C34. The recorded error is returned too early. When the connection returned its last bytes
  together with an error while a matcher was sniffing, the handler's first read that is
  shorter than the recording already returns that error, with bytes still to come.
\<close>

theorem replayed_error_is_early:
  assumes "sniffing s" and "\<not> bufferRead s < bufferSize s"
    and "rd (source s) k = ((bs, Some e), src)" and "bs \<noteq> []"
    and "n < length (buffer s @ bs)"
  shows "\<exists>t u. bufferedReader_Read rd s k = ((bs, Some e), t)
    \<and> bufferedReader_Read rd (doneSniffing t) n = ((take n (buffer s @ bs), Some e), u)
    \<and> br_replay u = drop n (buffer s @ bs) \<and> br_replay u \<noteq> []"
proof -
  let ?t = "s\<lparr>source := src, buffer := buffer s @ bs, lastErr := Some e\<rparr>"
  have "bufferedReader_Read rd s k = ((bs, Some e), ?t)"
    using assms by (simp add: Read_source)
  moreover have "buffer ?t \<noteq> []" and "drop n (buffer ?t) \<noteq> []"
    using assms(4,5) by auto
  ultimately show ?thesis
    using Read_doneSniffing [of ?t rd n] by auto
qed

theorem replayed_error_is_early_witness:
  "\<exists>t u. bufferedReader_Read conn_read
       (startSniffing (newMuxConn (sample_conn\<lparr>c_src := [([1, 2, 3], Some EOF)]\<rparr>))) 8
       = (([1, 2, 3], Some EOF), t)
     \<and> bufferedReader_Read conn_read (doneSniffing t) 2 = (([1, 2], Some EOF), u)
     \<and> br_replay u = [3]"
proof -
  let ?s = "startSniffing (newMuxConn (sample_conn\<lparr>c_src := [([1, 2, 3], Some EOF)]\<rparr>))"
  have s: "sniffing ?s" "\<not> bufferRead ?s < bufferSize ?s" "buffer ?s = []"
    "conn_read (source ?s) 8 = (([1, 2, 3], Some EOF), sample_conn\<lparr>c_src := []\<rparr>)"
    by (simp_all add: startSniffing_def newMuxConn_def bufferedReader_reset_def conn_read_def)
  show ?thesis
    using replayed_error_is_early [of ?s conn_read 8 "[1, 2, 3]" EOF _ 2, OF s(1,2,4)] s(3)
    by auto
qed

end
