(* ===== verification/Matchers.thy ===== *)
theory Matchers
  imports Patricia BufferedReader
begin

unbundle bit_operations_syntax

text \<open>
  The contract of a matcher of \<open>rpc/mux.go\<close> over an arbitrary \<open>io.Reader\<close>, and the
  matchers that compare prefixes: \<open>Any\<close>, \<open>PrefixMatcher\<close>, \<open>HTTP1Fast\<close>,
  \<open>TLS\<close> and those on the tree itself. Each is interpreted as a
  \<open>decider\<close>: on a connection without faults it returns, having done nothing but read,
  and its answer is a predicate of the bytes of the stream.
\<close>

section \<open>The contract of a matcher\<close>

text \<open>
  \<open>type Matcher func(io.Reader) bool\<close>, with the state of the reader made explicit;
  \<open>None\<close> is a matcher that never returns.
\<close>

type_synonym 's Matcher = "'s \<Rightarrow> (bool \<times> 's) option"

locale decider = clean_reader +
  fixes m :: "'s Matcher" and P :: "bytes \<Rightarrow> bool"
  assumes decides: "inv s \<Longrightarrow> \<exists>t. m s = Some (P (pend s), t) \<and> reads rd s t"
begin

lemma answer: "inv s \<Longrightarrow> m s = Some (b, t) \<Longrightarrow> b = P (pend s)"
  using decides by force

lemma only_reads: "inv s \<Longrightarrow> m s = Some (b, t) \<Longrightarrow> reads rd s t"
  using decides by force

lemma keeps_inv: "inv s \<Longrightarrow> m s = Some (b, t) \<Longrightarrow> inv t"
  by (blast intro: reads_inv only_reads)

end

section \<open>Any and the prefix matchers\<close>

definition Any :: "'s Matcher" where
  "Any r = Some (True, r)"

definition Tree_matchPrefix :: "'s reader \<Rightarrow> Tree \<Rightarrow> 's Matcher" where
  "Tree_matchPrefix rd t r =
     (case readFull rd (maxDepth t) r of
        None \<Rightarrow> None
      | Some ((buf, _), r') \<Rightarrow> Some (match (root t) buf True, r'))"

definition Tree_match :: "'s reader \<Rightarrow> Tree \<Rightarrow> 's Matcher" where
  "Tree_match rd t r =
     (case readFull rd (maxDepth t) r of
        None \<Rightarrow> None
      | Some ((buf, _), r') \<Rightarrow> Some (match (root t) buf False, r'))"

definition PrefixMatcher :: "'s reader \<Rightarrow> string list \<Rightarrow> 's Matcher" where
  "PrefixMatcher rd strs = Tree_matchPrefix rd (newTreeString strs)"

definition prefixByteMatcher :: "'s reader \<Rightarrow> bytes list \<Rightarrow> 's Matcher" where
  "prefixByteMatcher rd list = Tree_matchPrefix rd (newTree list)"

definition defaultHTTPMethods :: "string list" where
  "defaultHTTPMethods =
     [''OPTIONS'', ''GET'', ''HEAD'', ''POST'', ''PUT'', ''DELETE'', ''TRACE'', ''CONNECT'']"

definition HTTP1Fast :: "'s reader \<Rightarrow> string list \<Rightarrow> 's Matcher" where
  "HTTP1Fast rd extMethods = PrefixMatcher rd (defaultHTTPMethods @ extMethods)"

text \<open>
  \<open>TLS(versions ...int)\<close>: a version is a 64-bit \<open>int\<close>, of which the shifts and masks
  take two bytes. The constants are those of \<open>crypto/tls\<close>.
\<close>

definition VersionSSL30 :: "64 word" where "VersionSSL30 = 0x0300"
definition VersionTLS10 :: "64 word" where "VersionTLS10 = 0x0301"
definition VersionTLS11 :: "64 word" where "VersionTLS11 = 0x0302"
definition VersionTLS12 :: "64 word" where "VersionTLS12 = 0x0303"

definition tls_prefix :: "64 word \<Rightarrow> bytes" where
  "tls_prefix v = [22, ucast (signed_drop_bit 8 v AND 0xff), ucast (v AND 0xff)]"

definition TLS :: "'s reader \<Rightarrow> 64 word list \<Rightarrow> 's Matcher" where
  "TLS rd versions =
     (let versions' =
        (if length versions = 0 then [VersionSSL30, VersionTLS10, VersionTLS11, VersionTLS12]
         else versions)
      in prefixByteMatcher rd (map tls_prefix versions'))"

text \<open>The two version bytes of a TLS record header, big-endian after the type 22.\<close>

lemma tls_prefix_bytes: "tls_prefix v = [22, ucast (drop_bit 8 v), ucast v]"
proof -
  have m: "(255 :: 64 word) = mask 8" by (simp add: mask_eq_exp_minus_1)
  have "ucast (signed_drop_bit 8 v AND 255 :: 64 word) = (ucast (drop_bit 8 v) :: byte)"
    unfolding m by (rule bit_word_eqI) (auto simp: bit_simps)
  moreover have "ucast (v AND 255 :: 64 word) = (ucast v :: byte)"
    unfolding m by (rule bit_word_eqI) (auto simp: bit_simps)
  ultimately show ?thesis by (simp add: tls_prefix_def)
qed

lemma tls_bytes:
  "unat (ucast (drop_bit 8 (v::64 word)) :: byte) = unat v div 256 mod 256"
  "unat (ucast (v::64 word) :: byte) = unat v mod 256"
  by (simp_all add: unsigned_ucast_eq take_bit_eq_mod unsigned_drop_bit_eq drop_bit_eq_div unat_div)

lemma base_256_eq:
  assumes "b < 256" and "l < 256"
  shows "a = h \<and> b = l \<longleftrightarrow> 256 * a + b = 256 * h + (l :: nat)"
proof
  assume eq: "256 * a + b = 256 * h + l"
  from assms have "(256 * a + b) div 256 = a" "(256 * h + l) div 256 = h"
    "(256 * a + b) mod 256 = b" "(256 * h + l) mod 256 = l" by simp_all
  with eq show "a = h \<and> b = l" by simp
qed simp

lemma tls_prefix_iff:
  "prefix (tls_prefix v) st \<longleftrightarrow>
     (\<exists>hi lo rest. st = 22 # hi # lo # rest \<and> unat v mod 65536 = 256 * unat hi + unat lo)"
proof -
  have eq: "ucast (drop_bit 8 v) = hi \<and> ucast v = lo \<longleftrightarrow> unat v mod 65536 = 256 * unat hi + unat lo"
    for hi lo :: byte
  proof -
    have "unat lo < 2 ^ LENGTH(8)" by (rule unsigned_less)
    moreover have "unat v mod 65536 = 256 * (unat v div 256 mod 256) + unat v mod 256"
      using mod_mult2_eq [of "unat v" 256 256] by simp
    ultimately show ?thesis
      using base_256_eq [of "unat v mod 256" "unat lo" "unat v div 256 mod 256" "unat hi"]
      by (simp only: word_unat_eq_iff tls_bytes(1)) (simp add: tls_bytes(2))
  qed
  show ?thesis
    unfolding tls_prefix_bytes eq [symmetric] by (auto simp: prefix_def)
qed

context clean_reader
begin

lemma tree_decider:
  "decider rd inv pend budget (Tree_matchPrefix rd (newTree strs)) (recognises strs True)"
  "decider rd inv pend budget (Tree_match rd (newTree strs)) (recognises strs False)"
proof (unfold_locales, goal_cases)
  case (1 s)
  from readFull_clean [OF 1, of "maxDepth (newTree strs)"] show ?case
    by (auto simp: Tree_matchPrefix_def match_newTree)
next
  case (2 s)
  from readFull_clean [OF 2, of "maxDepth (newTree strs)"] show ?case
    by (auto simp: Tree_match_def match_newTree)
qed

lemma any_decider: "decider rd inv pend budget Any (\<lambda>_. True)"
  by unfold_locales (auto simp: Any_def)

end

text \<open>What the matchers of a multiplexed connection decide.\<close>

interpretation any: decider "bufferedReader_Read conn_read" "br_clean conn_clean"
    "br_pend conn_pend" "br_budget conn_budget" Any "\<lambda>_. True"
  by (rule clean_mux_conn.any_decider)

interpretation prefix_bytes: decider "bufferedReader_Read conn_read" "br_clean conn_clean"
    "br_pend conn_pend" "br_budget conn_budget"
    "prefixByteMatcher (bufferedReader_Read conn_read) list" "recognises list True" for list
  unfolding prefixByteMatcher_def by (rule clean_mux_conn.tree_decider)

interpretation tree_exact: decider "bufferedReader_Read conn_read" "br_clean conn_clean"
    "br_pend conn_pend" "br_budget conn_budget"
    "Tree_match (bufferedReader_Read conn_read) (newTree list)" "recognises list False" for list
  by (rule clean_mux_conn.tree_decider)

interpretation prefix_matcher: decider "bufferedReader_Read conn_read" "br_clean conn_clean"
    "br_pend conn_pend" "br_budget conn_budget"
    "PrefixMatcher (bufferedReader_Read conn_read) strs" "recognises (map bytes_of strs) True"
    for strs
  unfolding PrefixMatcher_def newTreeString_def by (rule clean_mux_conn.tree_decider)

definition tls_versions :: "64 word list \<Rightarrow> 64 word list" where
  "tls_versions versions =
     (if versions = [] then [VersionSSL30, VersionTLS10, VersionTLS11, VersionTLS12] else versions)"

interpretation tls: decider "bufferedReader_Read conn_read" "br_clean conn_clean"
    "br_pend conn_pend" "br_budget conn_budget"
    "TLS (bufferedReader_Read conn_read) versions"
    "recognises (map tls_prefix (tls_versions versions)) True" for versions
  unfolding TLS_def by (simp add: tls_versions_def Let_def prefix_bytes.decider_axioms)

section \<open>What the matchers decide\<close>

text \<open>A connection without faults, for the witnesses.\<close>

definition clean_sample :: "string \<Rightarrow> MuxConn" where
  "clean_sample s = startSniffing (newMuxConn (sample_conn\<lparr>c_src := [(bytes_of s, None)]\<rparr>))"

lemma clean_sample [simp]:
  "s \<noteq> [] \<Longrightarrow> br_clean conn_clean (clean_sample s)"
  "br_pend conn_pend (clean_sample s) = bytes_of s"
  by (simp_all add: clean_sample_def br_clean_def br_inv_def startSniffing_def newMuxConn_def
      bufferedReader_reset_def conn_clean_def conn_pend_def br_pend_def br_replay_def bytes_of_def)

text \<open>
  \<open>PrefixMatcher\<close> on a connection without faults returns, and matches exactly when
  one of its strings is a prefix of the stream; with no string it matches everything.
\<close>

theorem PrefixMatcher_answers:
  assumes "br_clean conn_clean m"
  shows "\<exists>t. PrefixMatcher (bufferedReader_Read conn_read) strs m =
    Some (strs = [] \<or> (\<exists>s \<in> set strs. prefix (bytes_of s) (br_pend conn_pend m)), t)"
  using prefix_matcher.decides [OF assms, of strs] by (auto simp: recognises_def)

theorem PrefixMatcher_answers_witness:
  "\<exists>t. PrefixMatcher (bufferedReader_Read conn_read) [''SSH-'', ''GET''] (clean_sample ''GET /'')
     = Some (True, t)"
  using PrefixMatcher_answers [of "clean_sample ''GET /''" "[''SSH-'', ''GET'']"]
  by (simp add: bytes_of_def)

text \<open>
  \<open>HTTP1Fast\<close> matches exactly the streams that begin with one of the eight default
  methods or one of the extra ones, and it tells them apart from the HTTP/2 preface, whose
  method is not among the defaults.
\<close>

theorem HTTP1Fast_answers:
  assumes "br_clean conn_clean m"
  shows "\<exists>b t. HTTP1Fast (bufferedReader_Read conn_read) extMethods m = Some (b, t)
    \<and> (b \<longleftrightarrow> (\<exists>s \<in> set defaultHTTPMethods \<union> set extMethods.
            prefix (bytes_of s) (br_pend conn_pend m)))
    \<and> (extMethods = [] \<and> prefix (bytes_of ''PRI'') (br_pend conn_pend m) \<longrightarrow> \<not> b)"
proof -
  obtain t where "HTTP1Fast (bufferedReader_Read conn_read) extMethods m =
    Some (recognises (map bytes_of (defaultHTTPMethods @ extMethods)) True (br_pend conn_pend m), t)"
    using prefix_matcher.decides [OF assms] unfolding HTTP1Fast_def by blast
  moreover have "recognises (map bytes_of (defaultHTTPMethods @ extMethods)) True st \<longleftrightarrow>
      (\<exists>s \<in> set defaultHTTPMethods \<union> set extMethods. prefix (bytes_of s) st)" for st
    by (auto simp: recognises_def defaultHTTPMethods_def)
  moreover have "\<not> prefix (bytes_of s) st"
    if "s \<in> set defaultHTTPMethods" and "prefix (bytes_of ''PRI'') st" for s st
    using that by (auto simp: defaultHTTPMethods_def bytes_of_def prefix_def byte_of_def)
  ultimately show ?thesis by auto
qed

theorem HTTP1Fast_answers_witness:
  "\<exists>t. HTTP1Fast (bufferedReader_Read conn_read) [] (clean_sample ''PRI * HTTP/2.0'')
     = Some (False, t)"
  using HTTP1Fast_answers [of "clean_sample ''PRI * HTTP/2.0''" "[]"]
  by (auto simp: bytes_of_def)

lemma recognises_tls:
  "vs \<noteq> [] \<Longrightarrow> recognises (map tls_prefix vs) True st \<longleftrightarrow>
     (\<exists>hi lo rest. st = 22 # hi # lo # rest
        \<and> 256 * unat hi + unat lo \<in> (\<lambda>v. unat v mod 65536) ` set vs)"
  by (auto simp: recognises_def tls_prefix_iff) (metis (no_types, lifting) image_eqI)

text \<open>
  \<open>TLS\<close> matches exactly the streams that begin with a handshake record (type 22)
  whose two version bytes are the low sixteen bits of one of the versions; with no argument
  these are SSL 3.0 to TLS 1.2.
\<close>

theorem TLS_answers:
  assumes "br_clean conn_clean m"
  shows "\<exists>t. TLS (bufferedReader_Read conn_read) versions m =
    Some (\<exists>hi lo rest. br_pend conn_pend m = 22 # hi # lo # rest
      \<and> 256 * unat hi + unat lo \<in> (\<lambda>v. unat v mod 65536) `
          set (if versions = [] then [0x0300, 0x0301, 0x0302, 0x0303] else versions), t)"
proof -
  have "tls_versions versions \<noteq> []" by (simp add: tls_versions_def)
  from tls.decides [OF assms, of versions] recognises_tls [OF this] show ?thesis
    by (auto simp: tls_versions_def VersionSSL30_def VersionTLS10_def VersionTLS11_def
        VersionTLS12_def)
qed

theorem TLS_answers_witness:
  "\<exists>t. TLS (bufferedReader_Read conn_read) [] (startSniffing (newMuxConn
      (sample_conn\<lparr>c_src := [([22, 3], None), ([1, 2], None)]\<rparr>))) = Some (True, t)"
proof -
  let ?m = "startSniffing (newMuxConn (sample_conn\<lparr>c_src := [([22, 3], None), ([1, 2], None)]\<rparr>))"
  have "br_clean conn_clean ?m" and "br_pend conn_pend ?m = [22, 3, 1, 2]"
    by (simp_all add: br_clean_def br_inv_def startSniffing_def newMuxConn_def
        bufferedReader_reset_def conn_clean_def conn_pend_def br_pend_def br_replay_def)
  with TLS_answers [of ?m "[]"] show ?thesis by simp
qed

end
