(* ===== verification/Http1.thy ===== *)
theory Http1
  imports Matchers
begin

text \<open>
  The HTTP/1 matchers of \<open>rpc/mux.go\<close>: \<open>parseRequestLine\<close>, \<open>HTTP1\<close> (which
  reads one line through a \<open>bufio.Reader\<close> over an \<open>io.LimitedReader\<close>) and
  \<open>HTTP1HeaderField\<close>, with the loop of \<open>bufio.Reader.ReadLine\<close> they rely on.
  \<open>http.ParseHTTPVersion\<close> and \<open>http.ReadRequest\<close> are parameters: what they accept
  is net/http's business and differs between its releases.
\<close>

section \<open>parseRequestLine\<close>

text \<open>\<open>strings.Index(s, " ")\<close> for a one-byte substring: \<open>-1\<close> when it does not occur.\<close>

fun strings_Index :: "string \<Rightarrow> char \<Rightarrow> int" where
  "strings_Index [] c = -1"
| "strings_Index (d # s) c =
     (if d = c then 0 else (let i = strings_Index s c in if i < 0 then -1 else i + 1))"

text \<open>A slice \<open>s[a:b]\<close> with the bounds the code has checked.\<close>

definition slice :: "'a list \<Rightarrow> int \<Rightarrow> int \<Rightarrow> 'a list" where
  "slice s a b = take (nat (b - a)) (drop (nat a) s)"

definition parseRequestLine :: "string \<Rightarrow> string \<times> string \<times> string \<times> bool" where
  "parseRequestLine line =
     (let s1 = strings_Index line CHR '' '';
          s2 = strings_Index (slice line (s1 + 1) (int (length line))) CHR '' ''
      in if s1 < 0 \<or> s2 < 0 then ([], [], [], False)
         else (let s2' = s2 + s1 + 1
               in (slice line 0 s1, slice line (s1 + 1) s2',
                   slice line (s2' + 1) (int (length line)), True)))"

lemma strings_Index_neg: "strings_Index s c < 0 \<longleftrightarrow> c \<notin> set s"
  by (induction s) (auto simp: Let_def)

lemma strings_Index_append: "c \<notin> set s \<Longrightarrow> strings_Index (s @ c # t) c = int (length s)"
  by (induction s) (auto simp: Let_def)

lemma strings_Index_split:
  assumes "0 \<le> strings_Index s c"
  obtains a b where "s = a @ c # b" and "c \<notin> set a"
  using assms strings_Index_neg [of s c] split_list_first [of c s] by fastforce

lemma parseRequestLine_good:
  assumes "CHR '' '' \<notin> set m" and "CHR '' '' \<notin> set u"
  shows "parseRequestLine (m @ '' '' @ u @ '' '' @ p) = (m, u, p, True)"
  using assms
  by (simp add: parseRequestLine_def Let_def slice_def strings_Index_append nat_add_distrib)

lemma parseRequestLine_cases:
  obtains (bad) "parseRequestLine line = ([], [], [], False)"
  | (good) m u p where "line = m @ '' '' @ u @ '' '' @ p"
      and "CHR '' '' \<notin> set m" and "CHR '' '' \<notin> set u"
proof (cases "0 \<le> strings_Index line CHR '' ''")
  case True
  then obtain m r where line: "line = m @ CHR '' '' # r" and m: "CHR '' '' \<notin> set m"
    by (rule strings_Index_split)
  then have s1: "strings_Index line CHR '' '' = int (length m)"
    by (simp add: strings_Index_append)
  show ?thesis
  proof (cases "0 \<le> strings_Index r CHR '' ''")
    case True
    then obtain u p where "r = u @ CHR '' '' # p" and "CHR '' '' \<notin> set u"
      by (rule strings_Index_split)
    with line m show ?thesis by (intro good [of m u p]) auto
  next
    case False
    then show ?thesis
      by (intro bad, simp add: parseRequestLine_def s1 Let_def slice_def nat_add_distrib)
        (simp add: line)
  qed
next
  case False
  then show ?thesis by (intro bad) (simp add: parseRequestLine_def Let_def)
qed

lemma parseRequestLine_True:
  "parseRequestLine line = (m, u, p, True) \<longleftrightarrow>
     line = m @ '' '' @ u @ '' '' @ p \<and> CHR '' '' \<notin> set m \<and> CHR '' '' \<notin> set u"
proof
  assume parse: "parseRequestLine line = (m, u, p, True)"
  then show "line = m @ '' '' @ u @ '' '' @ p \<and> CHR '' '' \<notin> set m \<and> CHR '' '' \<notin> set u"
  proof (cases line rule: parseRequestLine_cases)
    case (good m' u' p')
    with parse parseRequestLine_good [OF good(2,3), of p'] show ?thesis by auto
  qed simp
next
  assume "line = m @ '' '' @ u @ '' '' @ p \<and> CHR '' '' \<notin> set m \<and> CHR '' '' \<notin> set u"
  then show "parseRequestLine line = (m, u, p, True)"
    using parseRequestLine_good [of m u p] by blast
qed

text \<open>
  \<open>parseRequestLine\<close> succeeds exactly on the lines that are a method, a space, a URI,
  a space and the rest, where method and URI have no space, and returns these three parts;
  on every other line all its results are empty and \<open>ok\<close> is false.
\<close>

theorem parseRequestLine_spec:
  "(parseRequestLine line = (method, uri, proto, True) \<longleftrightarrow>
      line = method @ '' '' @ uri @ '' '' @ proto
      \<and> CHR '' '' \<notin> set method \<and> CHR '' '' \<notin> set uri)
   \<and> (snd (snd (snd (parseRequestLine line))) \<or> parseRequestLine line = ([], [], [], False))"
proof (rule conjI [OF parseRequestLine_True])
  show "snd (snd (snd (parseRequestLine line))) \<or> parseRequestLine line = ([], [], [], False)"
  proof (cases line rule: parseRequestLine_cases)
    case (good m u p)
    with parseRequestLine_good [OF good(2,3), of p] show ?thesis by simp
  qed simp
qed

section \<open>bufio.Reader.ReadLine\<close>

text \<open>
  A fresh \<open>bufio.Reader\<close> with a buffer of \<open>bcap\<close> bytes. \<open>fill\<close> reads into the free
  part, giving up after a hundred empty reads; \<open>ReadSlice\<close> looks for the delimiter, then
  for a pending error, then for a full buffer, and fills otherwise.
\<close>

fun bufio_fill :: "'s reader \<Rightarrow> nat \<Rightarrow> nat \<Rightarrow> bytes \<Rightarrow> 's \<Rightarrow> (bytes \<times> ioerr option) \<times> 's" where
  "bufio_fill rd bcap 0 buf r = ((buf, Some ErrNoProgress), r)"
| "bufio_fill rd bcap (Suc i) buf r =
     (case rd r (bcap - length buf) of
        ((bs, e), r') \<Rightarrow>
          if e \<noteq> None then ((buf @ bs, e), r')
          else if 0 < length bs then ((buf @ bs, None), r')
          else bufio_fill rd bcap i buf r')"

lemma bufio_fill_grows:
  "bufio_fill rd bcap i buf r = ((buf', None), r') \<Longrightarrow> length buf < length buf'"
  by (induction rd bcap i buf r arbitrary: buf' r' rule: bufio_fill.induct)
    (auto split: prod.splits if_splits)

fun bytes_IndexByte :: "bytes \<Rightarrow> byte \<Rightarrow> nat option" where
  "bytes_IndexByte [] c = None"
| "bytes_IndexByte (b # bs) c = (if b = c then Some 0 else map_option Suc (bytes_IndexByte bs c))"

function bufio_ReadSlice :: "'s reader \<Rightarrow> nat \<Rightarrow> byte \<Rightarrow> bytes \<Rightarrow> ioerr option \<Rightarrow> 's \<Rightarrow>
    (bytes \<times> ioerr option) \<times> 's" where
  "bufio_ReadSlice rd bcap delim buf err r =
     (case bytes_IndexByte buf delim of
        Some i \<Rightarrow> ((take (i + 1) buf, None), r)
      | None \<Rightarrow>
          if err \<noteq> None then ((buf, err), r)
          else if length buf \<ge> bcap then ((buf, Some ErrBufferFull), r)
          else (case bufio_fill rd bcap 100 buf r of
                  ((buf', err'), r') \<Rightarrow> bufio_ReadSlice rd bcap delim buf' err' r'))"
  by pat_completeness auto
termination
proof (relation "measure (\<lambda>(rd, bcap, delim, buf, err, r).
    if err = None then Suc (bcap - length buf) else 0)", goal_cases)
  case 1
  show ?case by simp
next
  case 2
  then show ?case
    by (auto dest: sym [THEN bufio_fill_grows])
qed

declare bufio_ReadSlice.simps [simp del]

definition bufio_ReadLine :: "'s reader \<Rightarrow> nat \<Rightarrow> 's \<Rightarrow> (bytes \<times> bool \<times> ioerr option) \<times> 's" where
  "bufio_ReadLine rd bcap r =
     (case bufio_ReadSlice rd bcap 10 [] None r of
        ((line, err), r') \<Rightarrow>
          if err = Some ErrBufferFull then
            ((if 0 < length line \<and> last line = 13 then butlast line else line, True, None), r')
          else if length line = 0 then ((line, False, err), r')
          else if last line = 10 then
            (let drop' = (if 1 < length line \<and> line ! (length line - 2) = 13 then 2 else 1)
             in ((take (length line - drop') line, False, None), r'))
          else ((line, False, None), r'))"

section \<open>HTTP1\<close>

definition maxHTTPRead :: nat where
  "maxHTTPRead = 4096"

definition HTTP1 :: "(string \<Rightarrow> int \<times> int \<times> bool) \<Rightarrow> 's reader \<Rightarrow> 's Matcher" where
  "HTTP1 parseHTTPVersion rd r =
     (case bufio_ReadLine (limited_read rd) 4096 (r, maxHTTPRead) of
        ((l, part, err), (r', _)) \<Rightarrow>
          if err \<noteq> None \<or> part then Some (False, r')
          else (case parseRequestLine (string_of l) of
                  (_, _, proto, ok) \<Rightarrow>
                    if \<not> ok then Some (False, r')
                    else (case parseHTTPVersion proto of
                            (v, _, ok) \<Rightarrow> Some (ok \<and> v = 1, r'))))"

text \<open>
  What \<open>ReadSlice\<close> and \<open>ReadLine\<close> return on a stream without faults, and the first
  line of a stream as \<open>HTTP1\<close> sees it: no line when the limit is reached without a
  newline, or when there is no byte at all.
\<close>

definition slice_spec :: "nat \<Rightarrow> byte \<Rightarrow> bytes \<Rightarrow> bytes \<times> ioerr option" where
  "slice_spec bcap delim st =
     (let w = take bcap st
      in if delim \<in> set w then (takeWhile (\<lambda>b. b \<noteq> delim) w @ [delim], None)
         else (w, Some (if length st \<ge> bcap then ErrBufferFull else EOF)))"

definition strip_cr :: "bytes \<Rightarrow> bytes" where
  "strip_cr l = (if l \<noteq> [] \<and> last l = 13 then butlast l else l)"

definition first_line :: "bytes \<Rightarrow> bytes option" where
  "first_line st =
     (let w = take maxHTTPRead st
      in if 10 \<in> set w then Some (strip_cr (takeWhile (\<lambda>b. b \<noteq> 10) w))
         else if length st \<ge> maxHTTPRead \<or> st = [] then None
         else Some st)"

definition http1_spec :: "(string \<Rightarrow> int \<times> int \<times> bool) \<Rightarrow> bytes \<Rightarrow> bool" where
  "http1_spec parseHTTPVersion st \<longleftrightarrow>
     (case first_line st of
        None \<Rightarrow> False
      | Some l \<Rightarrow>
          (case parseRequestLine (string_of l) of
             (_, _, proto, ok) \<Rightarrow>
               ok \<and> (case parseHTTPVersion proto of (v, _, ok') \<Rightarrow> ok' \<and> v = 1)))"

lemma IndexByte_None: "bytes_IndexByte bs c = None \<longleftrightarrow> c \<notin> set bs"
  by (induction bs) auto

lemma IndexByte_Some:
  "bytes_IndexByte bs c = Some i \<Longrightarrow>
     take (i + 1) bs = takeWhile (\<lambda>b. b \<noteq> c) bs @ [c] \<and> c \<in> set bs"
  by (induction bs arbitrary: i) (auto split: if_splits)

lemma ReadSlice_found:
  assumes "delim \<in> set buf"
  shows "bufio_ReadSlice rd bcap delim buf err r =
    ((takeWhile (\<lambda>b. b \<noteq> delim) buf @ [delim], None), r)"
proof -
  obtain i where "bytes_IndexByte buf delim = Some i"
    using assms IndexByte_None [of buf delim] by blast
  with IndexByte_Some [OF this] show ?thesis
    by (simp add: bufio_ReadSlice.simps [of rd bcap delim buf err r])
qed

lemma ReadSlice_more:
  assumes "delim \<notin> set buf"
  shows "bufio_ReadSlice rd bcap delim buf err r =
    (if err \<noteq> None then ((buf, err), r)
     else if length buf \<ge> bcap then ((buf, Some ErrBufferFull), r)
     else (case bufio_fill rd bcap 100 buf r of
             ((buf', err'), r') \<Rightarrow> bufio_ReadSlice rd bcap delim buf' err' r'))"
  using assms
  by (subst bufio_ReadSlice.simps) (simp add: IndexByte_None [THEN iffD2])

context clean_reader
begin

lemma fill_clean:
  assumes "inv r" and "length buf < bcap"
  shows "(pend r = [] \<and> (\<exists>t. bufio_fill rd bcap 100 buf r = ((buf, Some EOF), t) \<and> reads rd r t))
    \<or> (\<exists>bs t. bufio_fill rd bcap 100 buf r = ((buf @ bs, None), t) \<and> reads rd r t \<and> inv t
        \<and> bs \<noteq> [] \<and> pend r = bs @ pend t \<and> length (buf @ bs) \<le> bcap)"
proof -
  have fill: "bufio_fill rd bcap 100 buf r = bufio_fill rd bcap (Suc 99) buf r" by simp
  obtain bs e t where rd: "rd r (bcap - length buf) = ((bs, e), t)"
    by (metis surj_pair)
  note laws = read_inv [OF assms(1) rd] read_pend [OF assms(1) rd] read_length [OF assms(1) rd]
  show ?thesis
  proof (cases e)
    case None
    then have "bs \<noteq> []"
      using read_progress [of r _ bs t, OF assms(1)] rd assms(2) by simp
    then have "bufio_fill rd bcap 100 buf r = ((buf @ bs, None), t)"
      unfolding fill bufio_fill.simps(2) using rd None by simp
    with laws assms(2) \<open>bs \<noteq> []\<close> show ?thesis by (auto intro: reads_one [of rd, OF rd])
  next
    case (Some err)
    then have "err = EOF" "bs = []" "pend r = []"
      using read_error [of r _ bs err t, OF assms(1)] rd by auto
    then have "bufio_fill rd bcap 100 buf r = ((buf, Some EOF), t)"
      unfolding fill bufio_fill.simps(2) using rd Some by simp
    with \<open>pend r = []\<close> show ?thesis by (auto intro: reads_one [of rd, OF rd])
  qed
qed

lemma ReadSlice_clean:
  "inv r \<Longrightarrow> length buf \<le> bcap \<Longrightarrow> delim \<notin> set buf \<Longrightarrow>
     \<exists>t. bufio_ReadSlice rd bcap delim buf None r = (slice_spec bcap delim (buf @ pend r), t)
       \<and> reads rd r t"
proof (induction "bcap - length buf" arbitrary: buf r rule: less_induct)
  case less
  show ?case
  proof (cases "length buf < bcap")
    case False
    with less.prems show ?thesis
      by (auto simp: ReadSlice_more slice_spec_def)
  next
    case True
    note more = ReadSlice_more [OF less.prems(3), of rd bcap None r]
    from fill_clean [OF less.prems(1) True] show ?thesis
    proof (elim disjE exE conjE)
      fix t
      assume "bufio_fill rd bcap 100 buf r = ((buf, Some EOF), t)" "pend r = []" "reads rd r t"
      with True less.prems show ?thesis
        by (auto simp: more ReadSlice_more slice_spec_def)
    next
      fix bs t
      assume fill: "bufio_fill rd bcap 100 buf r = ((buf @ bs, None), t)" "reads rd r t" "inv t"
        "bs \<noteq> []" "pend r = bs @ pend t" "length (buf @ bs) \<le> bcap"
      show ?thesis
      proof (cases "delim \<in> set bs")
        case True
        have w: "take bcap (buf @ bs @ pend t)
            = (buf @ bs) @ take (bcap - length (buf @ bs)) (pend t)"
          using fill(6) by simp
        have "takeWhile (\<lambda>b. b \<noteq> delim) (take bcap (buf @ bs @ pend t))
            = takeWhile (\<lambda>b. b \<noteq> delim) (buf @ bs)"
          unfolding w by (rule takeWhile_append1 [of delim]) (use True in auto)
        moreover have "delim \<in> set (take bcap (buf @ bs @ pend t))"
          unfolding w using True by simp
        ultimately show ?thesis
          using True fill \<open>length buf < bcap\<close>
          by (auto simp: more ReadSlice_found slice_spec_def Let_def)
      next
        case False
        then have "delim \<notin> set (buf @ bs)" using less.prems(3) by simp
        moreover have "bcap - length (buf @ bs) < bcap - length buf"
          using \<open>length buf < bcap\<close> fill(4) by (cases bs) auto
        ultimately obtain u where
          "bufio_ReadSlice rd bcap delim (buf @ bs) None t = (slice_spec bcap delim (buf @ pend r), u)"
          "reads rd t u"
          using less.hyps [OF _ fill(3,6)] fill(5) by auto
        with fill \<open>length buf < bcap\<close> show ?thesis
          by (auto simp: more intro: rtranclp_trans)
      qed
    qed
  qed
qed

text \<open>A line read through the limit: the first line of the stream, or none.\<close>

lemma ReadLine_clean:
  assumes "inv r" and "length st \<le> maxHTTPRead" and "st = pend r"
  shows "\<exists>line part err t. bufio_ReadLine rd maxHTTPRead r = ((line, part, err), t) \<and> reads rd r t
    \<and> (if err \<noteq> None \<or> part then None else Some line) = first_line st"
proof -
  obtain t where t: "bufio_ReadSlice rd maxHTTPRead 10 [] None r = (slice_spec maxHTTPRead 10 st, t)"
    and r: "reads rd r t"
    using ReadSlice_clean [OF assms(1), of "[]" maxHTTPRead 10] assms(3) by auto
  let ?l = "takeWhile (\<lambda>b. b \<noteq> 10) st"
  show ?thesis
  proof (cases "10 \<in> set st")
    case True
    then have "slice_spec maxHTTPRead 10 st = (?l @ [10], None)" and "first_line st = Some (strip_cr ?l)"
      using assms(2) by (simp_all add: slice_spec_def first_line_def)
    moreover have "bufio_ReadLine rd maxHTTPRead r = ((strip_cr ?l, False, None), t)"
      using t calculation(1)
      by (cases ?l rule: rev_cases) (auto simp: bufio_ReadLine_def strip_cr_def Let_def nth_append)
    ultimately show ?thesis using r by auto
  next
    case False
    then have spec: "slice_spec maxHTTPRead 10 st =
        (st, Some (if length st \<ge> maxHTTPRead then ErrBufferFull else EOF))"
      and first: "first_line st = (if length st \<ge> maxHTTPRead \<or> st = [] then None else Some st)"
      using assms(2) by (simp_all add: slice_spec_def first_line_def)
    from False have "st = [] \<or> last st \<noteq> 10" using last_in_set [of st] by metis
    then consider "length st \<ge> maxHTTPRead" | "st = []" "\<not> length st \<ge> maxHTTPRead"
      | "\<not> length st \<ge> maxHTTPRead" "st \<noteq> []" "last st \<noteq> 10" by blast
    then show ?thesis
      using t [unfolded spec] r first by cases (auto simp: bufio_ReadLine_def)
  qed
qed

end

lemma first_line_take: "first_line (take maxHTTPRead st) = first_line st"
  by (auto simp: first_line_def Let_def maxHTTPRead_def)

context clean_reader
begin

lemma http1_decider:
  "decider rd inv pend budget (HTTP1 pv rd) (http1_spec pv)"
proof (unfold_locales, goal_cases)
  case (1 s)
  let ?st = "take maxHTTPRead (pend s)"
  have lim: "?st = limited_pend pend (s, maxHTTPRead)" by (simp add: limited_pend_def)
  have "(inv \<circ> fst) (s, maxHTTPRead)" and "length ?st \<le> maxHTTPRead" using 1 by simp_all
  from clean_reader.ReadLine_clean [OF limited_clean_reader this lim]
  obtain line part err u where
    rl: "bufio_ReadLine (limited_read rd) maxHTTPRead (s, maxHTTPRead) = ((line, part, err), u)"
    and reads: "reads (limited_read rd) (s, maxHTTPRead) u"
    and fl: "(if err \<noteq> None \<or> part then None else Some line) = first_line ?st"
    by blast
  from limited_reads [OF reads] have "reads rd s (fst u)" by simp
  moreover have "HTTP1 pv rd s = Some (http1_spec pv (pend s), fst u)"
  proof (cases "err \<noteq> None \<or> part")
    case True
    with rl fl show ?thesis
      by (cases u) (auto simp: HTTP1_def [folded maxHTTPRead_def] http1_spec_def first_line_take)
  next
    case False
    with fl have "first_line (pend s) = Some line" by (simp add: first_line_take)
    with False rl show ?thesis
      by (cases u) (simp add: HTTP1_def [folded maxHTTPRead_def] http1_spec_def split: prod.split)
  qed
  ultimately show ?case by blast
qed

end

interpretation http1: decider "bufferedReader_Read conn_read" "br_clean conn_clean"
    "br_pend conn_pend" "br_budget conn_budget"
    "HTTP1 pv (bufferedReader_Read conn_read)" "http1_spec pv" for pv
  by (rule clean_mux_conn.http1_decider)

lemma http1_spec_iff:
  "http1_spec pv st \<longleftrightarrow>
     (\<exists>l method uri proto minor. first_line st = Some l
        \<and> string_of l = method @ '' '' @ uri @ '' '' @ proto
        \<and> CHR '' '' \<notin> set method \<and> CHR '' '' \<notin> set uri \<and> pv proto = (1, minor, True))"
  (is "_ \<longleftrightarrow> ?rhs")
proof
  assume "http1_spec pv st"
  then obtain l m u p minor where "first_line st = Some l"
    "parseRequestLine (string_of l) = (m, u, p, True)" "pv p = (1, minor, True)"
    by (auto simp: http1_spec_def split: option.splits prod.splits)
  then show ?rhs by (auto simp: parseRequestLine_True)
next
  assume ?rhs
  then obtain l m u p minor where "first_line st = Some l"
    "parseRequestLine (string_of l) = (m, u, p, True)" "pv p = (1, minor, True)"
    by (metis parseRequestLine_True)
  then show "http1_spec pv st" by (simp add: http1_spec_def)
qed

text \<open>
  C21. \<open>HTTP1\<close> on a connection without faults returns, and matches exactly when the first
  line of the stream (cut at the newline, a carriage return before it dropped, and looked
  for in the first 4096 bytes only) is a method, a URI and a protocol separated by single
  spaces, and the protocol parses as HTTP version 1. A stream that ends without a newline
  counts as one line; 4096 bytes without a newline match nothing.
\<close>

theorem HTTP1_answers:
  assumes "br_clean conn_clean m"
  shows "\<exists>t. HTTP1 parseHTTPVersion (bufferedReader_Read conn_read) m =
    Some (\<exists>l method uri proto minor. first_line (br_pend conn_pend m) = Some l
      \<and> string_of l = method @ '' '' @ uri @ '' '' @ proto
      \<and> CHR '' '' \<notin> set method \<and> CHR '' '' \<notin> set uri
      \<and> parseHTTPVersion proto = (1, minor, True), t)"
  using http1.decides [OF assms, of parseHTTPVersion] unfolding http1_spec_iff by blast

definition http11_only :: "string \<Rightarrow> int \<times> int \<times> bool" where
  "http11_only s = (if s = ''HTTP/1.1'' then (1, 1, True) else (0, 0, False))"

theorem HTTP1_answers_witness:
  "\<exists>t. HTTP1 http11_only (bufferedReader_Read conn_read) (clean_sample ''GET /x HTTP/1.1'')
     = Some (True, t)"
proof -
  have "first_line (bytes_of ''GET /x HTTP/1.1'') = Some (bytes_of ''GET /x HTTP/1.1'')"
    by (simp add: first_line_def maxHTTPRead_def bytes_of_def byte_of_def)
  moreover have "parseRequestLine ''GET /x HTTP/1.1'' = (''GET'', ''/x'', ''HTTP/1.1'', True)"
    by code_simp
  ultimately have "http1_spec http11_only (bytes_of ''GET /x HTTP/1.1'')"
    by (simp add: http1_spec_def http11_only_def)
  then show ?thesis
    using HTTP1_answers [of "clean_sample ''GET /x HTTP/1.1''" http11_only]
    by (simp only: http1_spec_iff [symmetric] clean_sample) simp
qed

section \<open>The HTTP/1 header matchers\<close>

text \<open>
  \<open>matchHTTP1Field\<close> over \<open>http.ReadRequest\<close> (\<open>readRequest\<close>: an error, or a
  request) and \<open>Header.Get\<close> (\<open>get\<close>).
\<close>

definition matchHTTP1Field ::
  "('s \<Rightarrow> ((ioerr + 'req) \<times> 's) option) \<Rightarrow> ('req \<Rightarrow> string \<Rightarrow> string) \<Rightarrow>
    string \<Rightarrow> (string \<Rightarrow> bool) \<Rightarrow> 's Matcher" where
  "matchHTTP1Field readRequest get name matches r =
     (case readRequest r of
        None \<Rightarrow> None
      | Some (Inl err, r') \<Rightarrow> Some (False, r')
      | Some (Inr req, r') \<Rightarrow> Some (matches (get req name), r'))"

definition strings_HasPrefix :: "string \<Rightarrow> string \<Rightarrow> bool" where
  "strings_HasPrefix s p \<longleftrightarrow> length s \<ge> length p \<and> take (length p) s = p"

definition HTTP1HeaderField ::
  "('s \<Rightarrow> ((ioerr + 'req) \<times> 's) option) \<Rightarrow> ('req \<Rightarrow> string \<Rightarrow> string) \<Rightarrow>
    string \<Rightarrow> string \<Rightarrow> 's Matcher" where
  "HTTP1HeaderField readRequest get name value =
     matchHTTP1Field readRequest get name (\<lambda>gotValue. gotValue = value)"

definition HTTP1HeaderFieldPrefix ::
  "('s \<Rightarrow> ((ioerr + 'req) \<times> 's) option) \<Rightarrow> ('req \<Rightarrow> string \<Rightarrow> string) \<Rightarrow>
    string \<Rightarrow> string \<Rightarrow> 's Matcher" where
  "HTTP1HeaderFieldPrefix readRequest get name valuePrefix =
     matchHTTP1Field readRequest get name (\<lambda>gotValue. strings_HasPrefix gotValue valuePrefix)"

lemma strings_HasPrefix_iff [simp]: "strings_HasPrefix s p \<longleftrightarrow> prefix p s"
  unfolding strings_HasPrefix_def take_length_eq_iff_prefix by (auto dest: prefix_length_le)

text \<open>
  The exact matcher refines the prefix matcher: they read the same bytes, and where the
  first matches so does the second for every prefix of the value.
\<close>

lemma HTTP1HeaderField_refines:
  assumes "HTTP1HeaderField readRequest get name value r = Some (b, t)" and "prefix p value"
  shows "\<exists>b'. HTTP1HeaderFieldPrefix readRequest get name p r = Some (b', t) \<and> (b \<longrightarrow> b')"
  using assms
  unfolding HTTP1HeaderField_def HTTP1HeaderFieldPrefix_def matchHTTP1Field_def
  by (cases "readRequest r"; cases "fst (the (readRequest r))"; cases "the (readRequest r)") auto

end
