(* ===== verification/Http2.thy ===== *)
theory Http2
  imports Http1
begin

unbundle bit_operations_syntax

text \<open>
  The HTTP/2 matchers of \<open>rpc/mux.go\<close>: \<open>hasHTTP2Preface\<close> and \<open>matchHTTP2Field\<close>
  with its public variants. The framer and the HPACK decoder are golang.org/x/net code and
  a parameter: a record of the constants and functions the matcher uses.
\<close>

section \<open>The library interface\<close>

text \<open>
  What \<open>Framer.ReadFrame\<close> returns, as far as the type switch of the code looks:
  SETTINGS with its ACK flag, CONTINUATION and HEADERS with their flags and header block
  fragment, and any other frame.
\<close>

datatype http2_frame =
    SettingsFrame (IsAck: bool)
  | ContinuationFrame byte bytes
  | HeadersFrame byte bytes
  | OtherFrame

record HeaderField =
  hf_Name :: string
  hf_Value :: string

text \<open>
  \<open>'f\<close> is the framer's own state, \<open>'d\<close> the decoder's, \<open>'s\<close> the reader's.
  \<open>decoderWrite\<close> returns the header fields the decoder emits during the write, in
  order, and the write's error.
\<close>

record ('f, 'd, 's) http2_lib =
  ClientPreface :: bytes
  FlagHeadersEndHeaders :: byte
  newFramer :: 'f
  readFrame :: "'f \<Rightarrow> 's \<Rightarrow> (ioerr + http2_frame) \<times> 'f \<times> 's"
  newDecoder :: 'd
  decoderWrite :: "'d \<Rightarrow> bytes \<Rightarrow> (HeaderField list \<times> ioerr option) \<times> 'd"

section \<open>The preface\<close>

text \<open>
  The loop of \<open>hasHTTP2Preface\<close>: \<open>b\<close> are the \<open>last\<close> bytes read so far.
\<close>

partial_function (option) hasHTTP2Preface_loop :: "'s reader \<Rightarrow> bytes \<Rightarrow> bytes \<Rightarrow> 's Matcher" where
  "hasHTTP2Preface_loop rd preface b r =
     (case rd r (length preface - length b) of
        ((bs, e), r') \<Rightarrow>
          if e \<noteq> None then Some (False, r')
          else (let b' = b @ bs; eq = (b' = take (length b') preface)
                in if length b' = length preface then Some (eq, r')
                   else if \<not> eq then Some (False, r')
                   else hasHTTP2Preface_loop rd preface b' r'))"

definition hasHTTP2Preface :: "'s reader \<Rightarrow> bytes \<Rightarrow> 's Matcher" where
  "hasHTTP2Preface rd preface r = hasHTTP2Preface_loop rd preface [] r"

definition HTTP2 :: "('f, 'd, 's) http2_lib \<Rightarrow> 's reader \<Rightarrow> 's Matcher" where
  "HTTP2 lib rd = hasHTTP2Preface rd (ClientPreface lib)"

lemma hasHTTP2Preface_step:
  assumes "rd r (length preface - length b) = ((bs, e), r')"
  shows "hasHTTP2Preface_loop rd preface b r =
    (if e \<noteq> None then Some (False, r')
     else if length (b @ bs) = length preface then Some (b @ bs = preface, r')
     else if prefix (b @ bs) preface then hasHTTP2Preface_loop rd preface (b @ bs) r'
     else Some (False, r'))"
proof -
  have "(b @ bs = take (length (b @ bs)) preface) = prefix (b @ bs) preface"
    using take_length_eq_iff_prefix [of "b @ bs" preface] by metis
  then show ?thesis
    using assms by (auto simp: hasHTTP2Preface_loop.simps [of rd preface b r] Let_def
        simp del: append_eq_append_conv length_append)
qed

context clean_reader
begin

lemma preface_loop:
  "inv r \<Longrightarrow> prefix b preface \<Longrightarrow> length b < length preface \<Longrightarrow>
     \<exists>t. hasHTTP2Preface_loop rd preface b r = Some (prefix preface (b @ pend r), t) \<and> reads rd r t
       \<and> length (b @ pend r) \<le> length preface + length (pend t)
       \<and> (prefix preface (b @ pend r) \<longrightarrow> b @ pend r = preface @ pend t)"
proof (induction "length preface - length b" arbitrary: b r rule: less_induct)
  case less
  obtain bs e t where read: "rd r (length preface - length b) = ((bs, e), t)"
    by (metis surj_pair)
  note step = hasHTTP2Preface_step [of rd r preface b, OF read]
  note one = reads_one [of rd, OF read]
  show ?case
  proof (cases e)
    case (Some err)
    then have "pend r = []" using read less.prems(1) by (auto dest: read_error)
    moreover have "\<not> prefix preface b" using less.prems(3) by (auto dest: prefix_length_le)
    ultimately show ?thesis using Some one less.prems(3) by (simp add: step)
  next
    case None
    have pend: "b @ pend r = (b @ bs) @ pend t" and inv: "inv t" and ne: "bs \<noteq> []"
      and len: "length (b @ bs) \<le> length preface"
      using read_pend [OF less.prems(1) read] read_inv [OF less.prems(1) read]
        read_length [OF less.prems(1) read] read_progress [of r _ bs t] less.prems read None by auto
    consider "length (b @ bs) = length preface"
      | "length (b @ bs) \<noteq> length preface" "prefix (b @ bs) preface"
      | "length (b @ bs) \<noteq> length preface" "\<not> prefix (b @ bs) preface" by blast
    then show ?thesis
    proof cases
      case 1
      then have eq: "prefix preface (b @ pend r) \<longleftrightarrow> b @ bs = preface"
        unfolding pend by (metis append_eq_append_conv prefix_def)
      moreover have "b @ bs = preface \<longrightarrow> b @ pend r = preface @ pend t"
        unfolding pend by blast
      ultimately show ?thesis using 1 None one pend by (intro exI [of _ t]) (simp add: step)
    next
      case 2
      with len ne have "length preface - length (b @ bs) < length preface - length b"
        and "length (b @ bs) < length preface" by (cases bs; simp)+
      from less.hyps [OF this(1) inv 2(2) this(2)] obtain u where
        rest: "hasHTTP2Preface_loop rd preface (b @ bs) t = Some (prefix preface (b @ pend r), u)"
        and reads: "reads rd t u" and short: "length (b @ pend r) \<le> length preface + length (pend u)"
        and used: "prefix preface (b @ pend r) \<longrightarrow> b @ pend r = preface @ pend u"
        unfolding pend by blast
      from rest 2 None have "hasHTTP2Preface_loop rd preface b r = Some (prefix preface (b @ pend r), u)"
        by (simp add: step)
      with rtranclp_trans [OF one reads] short used show ?thesis by blast
    next
      case 3
      then have "\<not> prefix preface (b @ pend r)"
        unfolding pend using len by (metis prefix_append prefix_def prefix_length_prefix)
      with 3 None one len show ?thesis unfolding pend by (simp add: step)
    qed
  qed
qed

lemma preface_decider:
  assumes "preface \<noteq> []"
  shows "decider rd inv pend budget (hasHTTP2Preface rd preface) (prefix preface)"
proof (unfold_locales, goal_cases)
  case (1 s)
  with preface_loop [of s "[]" preface] assms show ?case by (auto simp: hasHTTP2Preface_def)
qed

end

text \<open>
  \<open>HTTP2\<close> on a connection without faults returns, and matches exactly when the
  stream begins with the whole client preface. It reads no byte beyond the preface.
\<close>

theorem HTTP2_answers:
  assumes "br_clean conn_clean m" and "ClientPreface lib \<noteq> []"
  shows "\<exists>t. HTTP2 lib (bufferedReader_Read conn_read) m =
      Some (prefix (ClientPreface lib) (br_pend conn_pend m), t)
    \<and> length (br_pend conn_pend m) \<le> length (ClientPreface lib) + length (br_pend conn_pend t)"
  using clean_mux_conn.preface_loop [OF assms(1), of "[]" "ClientPreface lib"] assms(2)
  by (auto simp: HTTP2_def hasHTTP2Preface_def)

text \<open>
  An instance of the library interface for the witnesses: the framer plays back a list of
  frames, the decoder takes a fragment for the value of one \<open>content-type\<close> field.
\<close>

definition rfc7540_preface :: bytes where
  "rfc7540_preface = bytes_of ''PRI * HTTP/2.0'' @ [13, 10, 13, 10] @ bytes_of ''SM'' @ [13, 10, 13, 10]"

definition scripted_lib :: "http2_frame list \<Rightarrow> (http2_frame list, unit, 's) http2_lib" where
  "scripted_lib frames = \<lparr>ClientPreface = rfc7540_preface, FlagHeadersEndHeaders = 4,
     newFramer = frames,
     readFrame = (\<lambda>fr r. case fr of [] \<Rightarrow> (Inl EOF, [], r) | f # fr' \<Rightarrow> (Inr f, fr', r)),
     newDecoder = (),
     decoderWrite = (\<lambda>d frag. (([\<lparr>hf_Name = ''content-type'', hf_Value = string_of frag\<rparr>], None), d))\<rparr>"

definition preface_conn :: MuxConn where
  "preface_conn = startSniffing (newMuxConn (sample_conn\<lparr>c_src := [(rfc7540_preface, None)]\<rparr>))"

lemma rfc7540_preface_ne [simp]: "rfc7540_preface \<noteq> []"
  by (simp add: rfc7540_preface_def)

lemma scripted_preface: "ClientPreface (scripted_lib frames) = rfc7540_preface"
  by (simp add: scripted_lib_def)

lemma preface_conn [simp]:
  "br_clean conn_clean preface_conn" "br_pend conn_pend preface_conn = rfc7540_preface"
  by (simp_all add: preface_conn_def br_clean_def br_inv_def startSniffing_def newMuxConn_def
      bufferedReader_reset_def conn_clean_def conn_pend_def br_pend_def br_replay_def)

theorem HTTP2_answers_witness:
  "\<exists>t. HTTP2 (scripted_lib []) (bufferedReader_Read conn_read) preface_conn = Some (True, t)"
  using HTTP2_answers [of preface_conn "scripted_lib []"] by (auto simp: scripted_lib_def)

section \<open>matchHTTP2Field\<close>

text \<open>
  The callback of the HPACK decoder: \<open>done\<close> and \<open>matched\<close> are the variables it
  closes over.
\<close>

fun emit_headers :: "string \<Rightarrow> (string \<Rightarrow> bool) \<Rightarrow> HeaderField list \<Rightarrow> bool \<times> bool \<Rightarrow> bool \<times> bool" where
  "emit_headers name matches [] (dn, matched) = (dn, matched)"
| "emit_headers name matches (hf # hfs) (dn, matched) =
     (if hf_Name hf = name
      then emit_headers name matches hfs (True, if matches (hf_Value hf) then True else matched)
      else emit_headers name matches hfs (dn, matched))"

record ('f, 'd, 's) h2_state =
  h2_done :: bool
  h2_matched :: bool
  h2_framer :: 'f
  h2_hdec :: 'd
  h2_reader :: 's

text \<open>
  One iteration of the \<open>for\<close> loop: the matcher's answer, or the state of the next
  iteration. \<open>writeSettings\<close> is \<open>framer.WriteSettings()\<close> on the writer \<open>w\<close>.
\<close>

definition h2_fragment :: "('f, 'd, 's) http2_lib \<Rightarrow> string \<Rightarrow> (string \<Rightarrow> bool) \<Rightarrow>
    byte \<Rightarrow> bytes \<Rightarrow> ('f, 'd, 's) h2_state \<Rightarrow> (bool \<times> 's) + ('f, 'd, 's) h2_state" where
  "h2_fragment lib name matches flags frag st =
     (case decoderWrite lib (h2_hdec st) frag of
        ((hfs, err), hdec) \<Rightarrow>
          (case emit_headers name matches hfs (h2_done st, h2_matched st) of
             (dn, matched) \<Rightarrow>
               if err \<noteq> None then Inl (False, h2_reader st)
               else Inr (st\<lparr>h2_hdec := hdec, h2_matched := matched,
                      h2_done := (dn \<or> flags AND FlagHeadersEndHeaders lib \<noteq> 0)\<rparr>)))"

definition matchHTTP2Field_step :: "('f, 'd, 's) http2_lib \<Rightarrow> ('s \<Rightarrow> ioerr option \<times> 's) \<Rightarrow>
    string \<Rightarrow> (string \<Rightarrow> bool) \<Rightarrow> ('f, 'd, 's) h2_state \<Rightarrow> (bool \<times> 's) + ('f, 'd, 's) h2_state" where
  "matchHTTP2Field_step lib writeSettings name matches st =
     (case readFrame lib (h2_framer st) (h2_reader st) of
        (Inl err, fr, r) \<Rightarrow> Inl (False, r)
      | (Inr f, fr, r) \<Rightarrow>
          (let st1 = st\<lparr>h2_framer := fr, h2_reader := r\<rparr>
           in case (case f of
                      SettingsFrame ack \<Rightarrow>
                        if ack then Inr st1
                        else (case writeSettings r of
                                (Some err, r') \<Rightarrow> Inl (False, r')
                              | (None, r') \<Rightarrow> Inr (st1\<lparr>h2_reader := r'\<rparr>))
                    | ContinuationFrame flags frag \<Rightarrow> h2_fragment lib name matches flags frag st1
                    | HeadersFrame flags frag \<Rightarrow> h2_fragment lib name matches flags frag st1
                    | OtherFrame \<Rightarrow> Inr st1) of
                Inl answer \<Rightarrow> Inl answer
              | Inr st2 \<Rightarrow>
                  if h2_done st2 then Inl (h2_matched st2, h2_reader st2) else Inr st2))"

partial_function (option) matchHTTP2Field_loop :: "('f, 'd, 's) http2_lib \<Rightarrow>
    ('s \<Rightarrow> ioerr option \<times> 's) \<Rightarrow> string \<Rightarrow> (string \<Rightarrow> bool) \<Rightarrow>
    ('f, 'd, 's) h2_state \<Rightarrow> (bool \<times> 's) option" where
  "matchHTTP2Field_loop lib writeSettings name matches st =
     (case matchHTTP2Field_step lib writeSettings name matches st of
        Inl answer \<Rightarrow> Some answer
      | Inr st' \<Rightarrow> matchHTTP2Field_loop lib writeSettings name matches st')"

definition h2_init :: "('f, 'd, 's) http2_lib \<Rightarrow> 's \<Rightarrow> ('f, 'd, 's) h2_state" where
  "h2_init lib r = \<lparr>h2_done = False, h2_matched = False, h2_framer = newFramer lib,
     h2_hdec = newDecoder lib, h2_reader = r\<rparr>"

definition matchHTTP2Field :: "('f, 'd, 's) http2_lib \<Rightarrow> 's reader \<Rightarrow>
    ('s \<Rightarrow> ioerr option \<times> 's) \<Rightarrow> string \<Rightarrow> (string \<Rightarrow> bool) \<Rightarrow> 's Matcher" where
  "matchHTTP2Field lib rd writeSettings name matches r =
     (case hasHTTP2Preface rd (ClientPreface lib) r of
        None \<Rightarrow> None
      | Some (False, r') \<Rightarrow> Some (False, r')
      | Some (True, r') \<Rightarrow>
          matchHTTP2Field_loop lib writeSettings name matches (h2_init lib r'))"

text \<open>\<open>ioutil.Discard\<close> as the writer: the settings frame goes nowhere.\<close>

definition discardSettings :: "'s \<Rightarrow> ioerr option \<times> 's" where
  "discardSettings r = (None, r)"

definition HTTP2HeaderField ::
  "('f, 'd, 's) http2_lib \<Rightarrow> 's reader \<Rightarrow> string \<Rightarrow> string \<Rightarrow> 's Matcher" where
  "HTTP2HeaderField lib rd name value =
     matchHTTP2Field lib rd discardSettings name (\<lambda>gotValue. gotValue = value)"

definition HTTP2HeaderFieldPrefix ::
  "('f, 'd, 's) http2_lib \<Rightarrow> 's reader \<Rightarrow> string \<Rightarrow> string \<Rightarrow> 's Matcher" where
  "HTTP2HeaderFieldPrefix lib rd name valuePrefix =
     matchHTTP2Field lib rd discardSettings name
       (\<lambda>gotValue. strings_HasPrefix gotValue valuePrefix)"

definition HTTP2MatchHeaderFieldSendSettings ::
  "('f, 'd, 's) http2_lib \<Rightarrow> 's reader \<Rightarrow> ('s \<Rightarrow> ioerr option \<times> 's) \<Rightarrow>
    string \<Rightarrow> string \<Rightarrow> 's Matcher" where
  "HTTP2MatchHeaderFieldSendSettings lib rd writeSettings name value =
     matchHTTP2Field lib rd writeSettings name (\<lambda>gotValue. gotValue = value)"

definition HTTP2MatchHeaderFieldPrefixSendSettings ::
  "('f, 'd, 's) http2_lib \<Rightarrow> 's reader \<Rightarrow> ('s \<Rightarrow> ioerr option \<times> 's) \<Rightarrow>
    string \<Rightarrow> string \<Rightarrow> 's Matcher" where
  "HTTP2MatchHeaderFieldPrefixSendSettings lib rd writeSettings name valuePrefix =
     matchHTTP2Field lib rd writeSettings name
       (\<lambda>gotValue. strings_HasPrefix gotValue valuePrefix)"

section \<open>What an answer of matchHTTP2Field means\<close>

lemma emit_headers_eq:
  "emit_headers name matches hfs (dn, matched) =
     (dn \<or> (\<exists>hf \<in> set hfs. hf_Name hf = name),
      matched \<or> (\<exists>hf \<in> set hfs. hf_Name hf = name \<and> matches (hf_Value hf)))"
  by (induction hfs arbitrary: dn matched) auto

text \<open>The header fields one iteration decodes, and all those of a run with its answer.\<close>

definition step_headers :: "('f, 'd, 's) http2_lib \<Rightarrow> ('f, 'd, 's) h2_state \<Rightarrow> HeaderField list" where
  "step_headers lib st =
     (case fst (readFrame lib (h2_framer st) (h2_reader st)) of
        Inr (HeadersFrame flags frag) \<Rightarrow> fst (fst (decoderWrite lib (h2_hdec st) frag))
      | Inr (ContinuationFrame flags frag) \<Rightarrow> fst (fst (decoderWrite lib (h2_hdec st) frag))
      | _ \<Rightarrow> [])"

inductive h2_runs :: "('f, 'd, 's) http2_lib \<Rightarrow> ('s \<Rightarrow> ioerr option \<times> 's) \<Rightarrow> string \<Rightarrow>
    (string \<Rightarrow> bool) \<Rightarrow> ('f, 'd, 's) h2_state \<Rightarrow> HeaderField list \<Rightarrow> bool \<times> 's \<Rightarrow> bool"
  for lib ws name matches where
  stop: "matchHTTP2Field_step lib ws name matches st = Inl answer \<Longrightarrow>
    h2_runs lib ws name matches st (step_headers lib st) answer"
| more: "matchHTTP2Field_step lib ws name matches st = Inr st' \<Longrightarrow>
    h2_runs lib ws name matches st' hs answer \<Longrightarrow>
    h2_runs lib ws name matches st (step_headers lib st @ hs) answer"

lemma loop_runs:
  assumes "matchHTTP2Field_loop lib ws name matches st = Some answer"
  shows "\<exists>hs. h2_runs lib ws name matches st hs answer"
proof (rule matchHTTP2Field_loop.raw_induct
    [where P = "\<lambda>lib ws name matches st answer. \<exists>hs. h2_runs lib ws name matches st hs answer",
      OF _ assms])
  fix loop lib ws name matches st answer
  assume IH: "\<And>lib ws name matches st answer.
      loop lib ws name matches st = Some answer \<Longrightarrow> \<exists>hs. h2_runs lib ws name matches st hs answer"
    and eq: "(case matchHTTP2Field_step lib ws name matches st of
        Inl answer \<Rightarrow> Some answer | Inr st' \<Rightarrow> loop lib ws name matches st') = Some answer"
  show "\<exists>hs. h2_runs lib ws name matches st hs answer"
  proof (cases "matchHTTP2Field_step lib ws name matches st")
    case (Inl a)
    with eq show ?thesis by (auto intro: h2_runs.stop)
  next
    case (Inr st')
    with eq have "loop lib ws name matches st' = Some answer" by simp
    with IH obtain hs where "h2_runs lib ws name matches st' hs answer" by blast
    with Inr show ?thesis by (blast intro: h2_runs.more)
  qed
qed

lemma runs_loop:
  "h2_runs lib ws name matches st hs answer \<Longrightarrow>
     matchHTTP2Field_loop lib ws name matches st = Some answer"
  by (induction rule: h2_runs.induct) (simp_all add: matchHTTP2Field_loop.simps)

definition named :: "string \<Rightarrow> (string \<Rightarrow> bool) \<Rightarrow> HeaderField list \<Rightarrow> bool" where
  "named name matches hs \<longleftrightarrow> (\<exists>hf \<in> set hs. hf_Name hf = name \<and> matches (hf_Value hf))"

lemma named_append [simp]:
  "named name matches (hs @ hs') \<longleftrightarrow> named name matches hs \<or> named name matches hs'"
  by (auto simp: named_def)

lemma step_matched:
  assumes "matchHTTP2Field_step lib ws name matches st = Inr st'"
  shows "h2_matched st' \<longleftrightarrow> h2_matched st \<or> named name matches (step_headers lib st)"
  using assms
  by (auto simp: matchHTTP2Field_step_def h2_fragment_def step_headers_def emit_headers_eq
      named_def Let_def split: prod.splits sum.splits option.splits http2_frame.splits if_splits)

lemma step_answer:
  assumes "matchHTTP2Field_step lib ws name matches st = Inl (True, t)"
  shows "h2_matched st \<or> named name matches (step_headers lib st)"
  using assms
  by (auto simp: matchHTTP2Field_step_def h2_fragment_def step_headers_def emit_headers_eq
      named_def Let_def split: prod.splits sum.splits option.splits http2_frame.splits if_splits)

lemma runs_answer:
  "h2_runs lib ws name matches st hs answer \<Longrightarrow> fst answer \<Longrightarrow>
     h2_matched st \<or> named name matches hs"
proof (induction rule: h2_runs.induct)
  case (stop st answer)
  then show ?case by (cases answer) (auto dest: step_answer)
qed (auto dest: step_matched)

text \<open>
  C19. A positive answer of \<open>matchHTTP2Field\<close> is justified: the preface was read, and
  among the header fields decoded from the frames that followed there is one with the name
  asked for and a value the test accepts.
\<close>

theorem matchHTTP2Field_sound:
  assumes "matchHTTP2Field lib rd ws name matches r = Some (True, t)"
  shows "\<exists>r' hs. hasHTTP2Preface rd (ClientPreface lib) r = Some (True, r')
    \<and> h2_runs lib ws name matches (h2_init lib r') hs (True, t)
    \<and> (\<exists>hf \<in> set hs. hf_Name hf = name \<and> matches (hf_Value hf))"
proof -
  from assms obtain r' where "hasHTTP2Preface rd (ClientPreface lib) r = Some (True, r')"
    and "matchHTTP2Field_loop lib ws name matches (h2_init lib r') = Some (True, t)"
    by (auto simp: matchHTTP2Field_def split: option.splits prod.splits bool.splits)
  moreover from loop_runs [OF this(2)] obtain hs where
    run: "h2_runs lib ws name matches (h2_init lib r') hs (True, t)" by blast
  moreover from runs_answer [OF run] have "named name matches hs"
    by (simp add: h2_init_def)
  ultimately show ?thesis unfolding named_def by blast
qed

text \<open>
  The frames that keep the matcher waiting: those it ignores, and SETTINGS frames whose
  answer could be written.
\<close>

inductive h2_waiting :: "('f, 'd, 's) http2_lib \<Rightarrow> ('s \<Rightarrow> ioerr option \<times> 's) \<Rightarrow>
    ('f, 'd, 's) h2_state \<Rightarrow> ('f, 'd, 's) h2_state \<Rightarrow> bool" for lib ws where
  start: "h2_waiting lib ws st st"
| other: "h2_waiting lib ws st st1 \<Longrightarrow>
    readFrame lib (h2_framer st1) (h2_reader st1) = (Inr f, fr, r) \<Longrightarrow>
    f = OtherFrame \<or> f = SettingsFrame True \<Longrightarrow>
    h2_waiting lib ws st (st1\<lparr>h2_framer := fr, h2_reader := r\<rparr>)"
| settings: "h2_waiting lib ws st st1 \<Longrightarrow>
    readFrame lib (h2_framer st1) (h2_reader st1) = (Inr (SettingsFrame False), fr, r) \<Longrightarrow>
    ws r = (None, r') \<Longrightarrow>
    h2_waiting lib ws st (st1\<lparr>h2_framer := fr, h2_reader := r'\<rparr>)"

lemma waiting_loop:
  "h2_waiting lib ws st st1 \<Longrightarrow> \<not> h2_done st \<Longrightarrow> \<not> h2_matched st \<Longrightarrow>
     \<not> h2_done st1 \<and> \<not> h2_matched st1 \<and> h2_hdec st1 = h2_hdec st
     \<and> matchHTTP2Field_loop lib ws name matches st = matchHTTP2Field_loop lib ws name matches st1"
proof (induction rule: h2_waiting.induct)
  case (other st st1 f fr r)
  then have "matchHTTP2Field_step lib ws name matches st1 = Inr (st1\<lparr>h2_framer := fr, h2_reader := r\<rparr>)"
    by (auto simp: matchHTTP2Field_step_def)
  with other show ?case by (simp add: matchHTTP2Field_loop.simps [of lib ws name matches st1])
next
  case (settings st st1 fr r r')
  then have "matchHTTP2Field_step lib ws name matches st1 = Inr (st1\<lparr>h2_framer := fr, h2_reader := r'\<rparr>)"
    by (auto simp: matchHTTP2Field_step_def)
  with settings show ?case by (simp add: matchHTTP2Field_loop.simps [of lib ws name matches st1])
qed simp

lemma first_block:
  assumes "hasHTTP2Preface rd (ClientPreface lib) r = Some (True, r0)"
    and "h2_waiting lib ws (h2_init lib r0) st"
    and "readFrame lib (h2_framer st) (h2_reader st) = (Inr (HeadersFrame flags frag), fr, t)"
    and "decoderWrite lib (newDecoder lib) frag = ((hfs, None), d)"
    and "flags AND FlagHeadersEndHeaders lib \<noteq> 0 \<or> (\<exists>hf \<in> set hfs. hf_Name hf = name)"
  shows "matchHTTP2Field lib rd ws name matches r =
    Some (\<exists>hf \<in> set hfs. hf_Name hf = name \<and> matches (hf_Value hf), t)"
proof -
  have st: "\<not> h2_done st" "\<not> h2_matched st" "h2_hdec st = newDecoder lib"
    "matchHTTP2Field_loop lib ws name matches (h2_init lib r0) =
       matchHTTP2Field_loop lib ws name matches st"
    using waiting_loop [OF assms(2)] by (simp_all add: h2_init_def)
  have "matchHTTP2Field_step lib ws name matches st =
      Inl (\<exists>hf \<in> set hfs. hf_Name hf = name \<and> matches (hf_Value hf), t)"
    using assms(3-5) st
    by (auto simp: matchHTTP2Field_step_def h2_fragment_def emit_headers_eq Let_def)
  then show ?thesis
    using assms(1) st by (simp add: matchHTTP2Field_def matchHTTP2Field_loop.simps)
qed

text \<open>
  C20. The first header block decides. While no field of the name has been seen, frames that
  carry no header block (other frames, SETTINGS whose answer could be written) leave the
  matcher waiting, and a HEADERS frame that decodes without error and ends the block, or
  has a field of that name, makes it return: whether some field has the name and an
  accepted value.
\<close>

theorem matchHTTP2Field_first_block:
  assumes "hasHTTP2Preface rd (ClientPreface lib) r = Some (True, r0)"
    and "h2_waiting lib ws (h2_init lib r0) st"
    and "readFrame lib (h2_framer st) (h2_reader st) = (Inr (HeadersFrame flags frag), fr, t)"
    and "decoderWrite lib (newDecoder lib) frag = ((hfs, None), d)"
    and "flags AND FlagHeadersEndHeaders lib \<noteq> 0 \<or> (\<exists>hf \<in> set hfs. hf_Name hf = name)"
  shows "matchHTTP2Field lib rd ws name matches r =
    Some (\<exists>hf \<in> set hfs. hf_Name hf = name \<and> matches (hf_Value hf), t)"
  by (rule first_block [OF assms])

lemma preface_read:
  "\<exists>t. hasHTTP2Preface (bufferedReader_Read conn_read) rfc7540_preface preface_conn = Some (True, t)"
  using clean_mux_conn.preface_loop [OF preface_conn(1), of "[]" rfc7540_preface]
  by (auto simp: hasHTTP2Preface_def)

abbreviation grpc_frames :: "http2_frame list" where
  "grpc_frames \<equiv> [SettingsFrame False, OtherFrame, HeadersFrame 4 (bytes_of ''application/grpc'')]"

theorem matchHTTP2Field_first_block_witness:
  "\<exists>t. HTTP2HeaderFieldPrefix (scripted_lib grpc_frames) (bufferedReader_Read conn_read)
     ''content-type'' ''application/'' preface_conn = Some (True, t)"
proof -
  let ?lib = "scripted_lib grpc_frames :: (http2_frame list, unit, MuxConn) http2_lib"
  obtain r0 where pre: "hasHTTP2Preface (bufferedReader_Read conn_read) rfc7540_preface preface_conn
      = Some (True, r0)"
    using preface_read by blast
  have "h2_waiting ?lib discardSettings (h2_init ?lib r0)
      ((h2_init ?lib r0)\<lparr>h2_framer := tl grpc_frames, h2_reader := r0\<rparr>)"
    by (rule h2_waiting.settings [OF h2_waiting.start])
      (simp_all add: scripted_lib_def h2_init_def discardSettings_def)
  from h2_waiting.other [OF this, of OtherFrame "tl (tl grpc_frames)" r0]
  have wait: "h2_waiting ?lib discardSettings (h2_init ?lib r0)
      ((h2_init ?lib r0)\<lparr>h2_framer := tl (tl grpc_frames), h2_reader := r0\<rparr>)"
    by (simp add: scripted_lib_def h2_init_def)
  show ?thesis
    unfolding HTTP2HeaderFieldPrefix_def
    by (subst matchHTTP2Field_first_block [OF _ wait, where flags = 4 and frag = "bytes_of ''application/grpc''"
          and hfs = "[\<lparr>hf_Name = ''content-type'', hf_Value = ''application/grpc''\<rparr>]"])
      (simp_all add: scripted_lib_def pre)
qed

theorem matchHTTP2Field_sound_witness:
  "\<exists>r' hs. hasHTTP2Preface (bufferedReader_Read conn_read) rfc7540_preface preface_conn = Some (True, r')
    \<and> (\<exists>hf \<in> set (hs :: HeaderField list). hf_Name hf = ''content-type'')"
proof -
  let ?frames = "[HeadersFrame 4 (bytes_of ''x'')]"
  let ?lib = "scripted_lib ?frames :: (http2_frame list, unit, MuxConn) http2_lib"
  obtain r0 where pre: "hasHTTP2Preface (bufferedReader_Read conn_read) rfc7540_preface preface_conn
      = Some (True, r0)"
    using preface_read by blast
  have "matchHTTP2Field ?lib (bufferedReader_Read conn_read) discardSettings ''content-type''
      (\<lambda>v. v = ''x'') preface_conn = Some (True, r0)"
    by (simp add: matchHTTP2Field_def pre matchHTTP2Field_loop.simps matchHTTP2Field_step_def
        h2_fragment_def h2_init_def scripted_lib_def Let_def)
  from matchHTTP2Field_sound [OF this] show ?thesis
    by (simp only: scripted_preface) blast
qed

end
