(* ===== verification/MuxServe.thy ===== *)
theory MuxServe
  imports Channels Http2
begin

text \<open>
  The connection multiplexer of \<open>rpc/mux.go\<close>, first half: its errors, its
  configuration (\<open>New\<close>, \<open>Match\<close>, \<open>MatchWithWriters\<close>, \<open>HandleError\<close>,
  \<open>SetReadTimeout\<close>), the error policy \<open>handleErr\<close> and what \<open>serve\<close> decides about
  one connection. The goroutines and channels around it are in \<open>MuxConc\<close>.
\<close>

section \<open>Errors\<close>

text \<open>
  The errors that reach \<open>handleErr\<close>: the two of this file, and those of the root
  listener's \<open>Accept\<close>, which may implement \<open>net.Error\<close> (with its
  \<open>Temporary()\<close> and \<open>Timeout()\<close>) or not.
\<close>

datatype mux_error =
    ErrNotMatched net_conn
  | errListenerClosed string
  | NetError bool bool string
  | OtherError string

fun Error :: "mux_error \<Rightarrow> string" where
  "Error (ErrNotMatched c) = ''mux: connection '' @ c_addr c @ '' not matched by an matcher''"
| "Error (errListenerClosed s) = s"
| "Error (NetError _ _ s) = s"
| "Error (OtherError s) = s"

text \<open>The type assertion \<open>err.(net.Error)\<close> followed by the method call.\<close>

fun net_Temporary :: "mux_error \<Rightarrow> bool option" where
  "net_Temporary (ErrNotMatched _) = Some True"
| "net_Temporary (errListenerClosed _) = Some False"
| "net_Temporary (NetError temp _ _) = Some temp"
| "net_Temporary (OtherError _) = None"

fun net_Timeout :: "mux_error \<Rightarrow> bool option" where
  "net_Timeout (ErrNotMatched _) = Some False"
| "net_Timeout (errListenerClosed _) = Some False"
| "net_Timeout (NetError _ tmo _) = Some tmo"
| "net_Timeout (OtherError _) = None"

definition ErrListenerClosed :: mux_error where
  "ErrListenerClosed = errListenerClosed ''mux: listener closed''"

section \<open>The multiplexer and its configuration\<close>

text \<open>
  A \<open>MatchWriter\<close> is called with \<open>muc.Conn\<close> to write to and \<open>&muc.buf\<close> to
  read from: together that is the \<open>MuxConn\<close>.
\<close>

type_synonym MatchWriter = "MuxConn Matcher"
type_synonym ErrorHandler = "mux_error \<Rightarrow> bool"

text \<open>
  The embedded \<open>net.Listener\<close> of every \<open>muxListener\<close> is \<open>m.root\<close>, of which
  only "closed or not" matters here: it is \<open>root_closed\<close> of the multiplexer. A
  \<open>time.Duration\<close> is its number of nanoseconds. \<open>donec\<close> is only ever closed.
\<close>

record muxListener =
  connc :: "MuxConn channel"

record matchersListener =
  ss :: "MatchWriter list"
  ml_l :: muxListener

record rpcMux =
  root_closed :: bool
  bufLen :: nat
  errh :: ErrorHandler
  donec :: "unit channel"
  sls :: "matchersListener list"
  readTimeout :: int

definition noTimeout :: int where
  "noTimeout = 0"

definition New :: "bool \<Rightarrow> rpcMux" where
  "New l = \<lparr>root_closed = l, bufLen = 1024, errh = (\<lambda>_. True), donec = make_chan 0,
     sls = [], readTimeout = noTimeout\<rparr>"

text \<open>
  On the combined state a \<open>Matcher\<close> is the \<open>MatchWriter\<close> that ignores the writer,
  so the wrapper closure is the matcher itself.
\<close>

fun matchersToMatchWriters :: "MuxConn Matcher list \<Rightarrow> MatchWriter list" where
  "matchersToMatchWriters [] = []"
| "matchersToMatchWriters (cm # matchers) = (\<lambda>r. cm r) # matchersToMatchWriters matchers"

definition MatchWithWriters :: "MatchWriter list \<Rightarrow> rpcMux \<Rightarrow> muxListener \<times> rpcMux" where
  "MatchWithWriters matchers m =
     (let ml = \<lparr>connc = make_chan (bufLen m)\<rparr>
      in (ml, m\<lparr>sls := sls m @ [\<lparr>ss = matchers, ml_l = ml\<rparr>]\<rparr>))"

definition Match :: "MuxConn Matcher list \<Rightarrow> rpcMux \<Rightarrow> muxListener \<times> rpcMux" where
  "Match matchers m = MatchWithWriters (matchersToMatchWriters matchers) m"

definition SetReadTimeout :: "int \<Rightarrow> rpcMux \<Rightarrow> rpcMux" where
  "SetReadTimeout t m = m\<lparr>readTimeout := t\<rparr>"

definition HandleError :: "ErrorHandler \<Rightarrow> rpcMux \<Rightarrow> rpcMux" where
  "HandleError h m = m\<lparr>errh := h\<rparr>"

definition handleErr :: "rpcMux \<Rightarrow> mux_error \<Rightarrow> bool" where
  "handleErr m err =
     (if \<not> errh m err then False
      else case net_Temporary err of Some t \<Rightarrow> t | None \<Rightarrow> False)"

section \<open>What serve decides about one connection\<close>

definition SetReadDeadline :: "int option \<Rightarrow> net_conn \<Rightarrow> net_conn" where
  "SetReadDeadline t c = c\<lparr>c_deadline := t\<rparr>"

abbreviation on_conn :: "(net_conn \<Rightarrow> net_conn) \<Rightarrow> MuxConn \<Rightarrow> MuxConn" where
  "on_conn f muc \<equiv> muc\<lparr>source := f (source muc)\<rparr>"

text \<open>
  A matcher does not return (\<open>None\<close>) if it loops for ever, or if one of its reads does not
  return.
\<close>

definition run_matcher :: "MatchWriter \<Rightarrow> MuxConn \<Rightarrow> (bool \<times> MuxConn) option" where
  "run_matcher s muc =
     (case s muc of
        None \<Rightarrow> None
      | Some (matched, muc') \<Rightarrow> if c_waits (source muc') then None else Some (matched, muc'))"

text \<open>
  The inner loop over the matchers of one listener, and the outer loop over the listeners;
  the outer loop's result is the position of the listener that matched. \<open>None\<close> is a
  matcher that does not return.
\<close>

fun try_matchers :: "MatchWriter list \<Rightarrow> MuxConn \<Rightarrow> (bool \<times> MuxConn) option" where
  "try_matchers [] muc = Some (False, muc)"
| "try_matchers (s # mws) muc =
     (case run_matcher s (startSniffing muc) of
        None \<Rightarrow> None
      | Some (matched, muc') \<Rightarrow>
          if matched then Some (True, doneSniffing muc') else try_matchers mws muc')"

fun try_listeners :: "nat \<Rightarrow> matchersListener list \<Rightarrow> MuxConn \<Rightarrow> (nat option \<times> MuxConn) option" where
  "try_listeners i [] muc = Some (None, muc)"
| "try_listeners i (sl # lns) muc =
     (case try_matchers (ss sl) muc of
        None \<Rightarrow> None
      | Some (True, muc') \<Rightarrow> Some (Some i, muc')
      | Some (False, muc') \<Rightarrow> try_listeners (Suc i) lns muc')"

text \<open>
  \<open>serve\<close> up to its first communication: a matched connection is about to be sent to the
  listener at the position, an unmatched one has been closed and its error is about to be
  handled. \<open>now\<close> is \<open>time.Now()\<close>.
\<close>

datatype serve_result = Enqueue nat MuxConn | Unmatched MuxConn mux_error

definition serve :: "rpcMux \<Rightarrow> int \<Rightarrow> net_conn \<Rightarrow> serve_result option" where
  "serve m now c =
     (let muc = newMuxConn c;
          muc1 = (if readTimeout m > noTimeout
                  then on_conn (SetReadDeadline (Some (now + readTimeout m))) muc else muc)
      in case try_listeners 0 (sls m) muc1 of
           None \<Rightarrow> None
         | Some (Some i, muc2) \<Rightarrow>
             Some (Enqueue i
               (if readTimeout m > noTimeout then on_conn (SetReadDeadline None) muc2 else muc2))
         | Some (None, muc2) \<Rightarrow>
             Some (let muc3 = on_conn conn_close muc2
                   in Unmatched muc3 (ErrNotMatched (source muc3))))"

section \<open>The error policy\<close>

text \<open>
  The error policy: the multiplexer goes on after an error exactly when the registered
  handler says so and the error is a \<open>net.Error\<close> that calls itself temporary. An
  unmatched connection is such an error and the listener's end is not, so the handler alone
  decides about the former and nothing keeps a closed listener alive.
\<close>

theorem handleErr_policy:
  "(handleErr m err \<longleftrightarrow> errh m err \<and> net_Temporary err = Some True)
   \<and> (handleErr m (ErrNotMatched c) \<longleftrightarrow> errh m (ErrNotMatched c))
   \<and> \<not> handleErr m ErrListenerClosed"
  by (auto simp: handleErr_def ErrListenerClosed_def split: option.splits)

section \<open>Serving: the first registered matcher wins\<close>

text \<open>
  The contract of a matcher as the multiplexer uses it: on a connection without faults it
  returns, it has only read (and, as a writer, written), and its answer is a predicate of
  the stream. Every \<open>decider\<close> meets it.
\<close>

definition decides_stream :: "MatchWriter \<Rightarrow> (bytes \<Rightarrow> bool) \<Rightarrow> bool" where
  "decides_stream mw P \<longleftrightarrow> (\<forall>s. br_clean conn_clean s \<longrightarrow>
     (\<exists>t. mw s = Some (P (br_pend conn_pend s), t) \<and> mux_access\<^sup>*\<^sup>* s t))"

lemma decider_decides_stream:
  assumes "decider (bufferedReader_Read conn_read) (br_clean conn_clean)
    (br_pend conn_pend) (br_budget conn_budget) mw P"
  shows "decides_stream mw P"
  unfolding decides_stream_def
  by (meson assms decider.decides reads_mux_access)

text \<open>
  The same for one stream, on which the answer is \<open>b\<close>: a matcher that depends on code
  outside the repository may be known on a stream only.
\<close>

definition decides_at :: "bytes \<Rightarrow> MatchWriter \<Rightarrow> bool \<Rightarrow> bool" where
  "decides_at st mw b \<longleftrightarrow> (\<forall>s. br_clean conn_clean s \<longrightarrow> br_pend conn_pend s = st \<longrightarrow>
     (\<exists>t. mw s = Some (b, t) \<and> mux_access\<^sup>*\<^sup>* s t))"

lemma decides_stream_at: "decides_stream mw P \<Longrightarrow> decides_at st mw (P st)"
  unfolding decides_stream_def decides_at_def by blast

abbreviation answers :: "bytes \<Rightarrow> matchersListener list \<Rightarrow> bool list list \<Rightarrow> bool" where
  "answers st lns bss \<equiv> list_all2 (\<lambda>sl. list_all2 (decides_at st) (ss sl)) lns bss"

lemma decides_stream_answers:
  assumes "list_all2 (\<lambda>sl. list_all2 decides_stream (ss sl)) lns Pss"
  shows "answers st lns (map (map (\<lambda>P. P st)) Pss)"
  using assms
  by (auto simp: list_all2_map2 intro!: decides_stream_at elim!: list_all2_mono)

text \<open>What a matcher cannot change of a connection, and what it keeps of a clean one.\<close>

definition same_conn :: "net_conn \<Rightarrow> net_conn \<Rightarrow> bool" where
  "same_conn c c' \<longleftrightarrow> c_id c' = c_id c \<and> c_addr c' = c_addr c
     \<and> c_deadline c' = c_deadline c \<and> c_closed c' = c_closed c"

lemma same_conn_refl [simp]: "same_conn c c"
  by (simp add: same_conn_def)

lemma same_conn_trans: "same_conn a b \<Longrightarrow> same_conn b c \<Longrightarrow> same_conn a c"
  by (simp add: same_conn_def)

lemma conn_read_same: "conn_read c n = (r, c') \<Longrightarrow> same_conn c c'"
  by (auto simp: same_conn_def dest: conn_read_frame)

lemma buffered_read_same:
  assumes "bufferedReader_Read conn_read s n = (r, t)"
  shows "same_conn (source s) (source t)"
proof (cases "bufferRead s < bufferSize s")
  case True
  with assms show ?thesis by (auto simp: Read_replay)
next
  case False
  obtain bs e src where src: "conn_read (source s) n = ((bs, e), src)" by (metis surj_pair)
  from conn_read_same [OF this] Read_source [of s conn_read n, OF False src] assms show ?thesis by auto
qed

lemma mux_access_same: "mux_access s t \<Longrightarrow> same_conn (source s) (source t)"
  unfolding mux_access_def read_step_def
  by (auto dest: buffered_read_same simp: same_conn_def conn_write_def)

lemma mux_accesses_same: "mux_access\<^sup>*\<^sup>* s t \<Longrightarrow> same_conn (source s) (source t)"
  by (induction rule: rtranclp_induct) (auto intro: same_conn_trans mux_access_same)

lemma mux_access_clean:
  assumes "mux_access s t" and "br_clean conn_clean s"
  shows "br_clean conn_clean t"
proof -
  have "br_clean conn_clean t" if "bufferedReader_Read conn_read s n = ((bs, e), t)" for n bs e
    using clean_mux_conn.read_inv [OF assms(2) that] .
  with assms show ?thesis
    unfolding mux_access_def read_step_def by (auto simp: br_clean_def br_inv_def)
qed

lemma mux_accesses_clean:
  "mux_access\<^sup>*\<^sup>* s t \<Longrightarrow> br_clean conn_clean s \<Longrightarrow> br_clean conn_clean t"
  by (induction rule: rtranclp_induct) (auto intro: mux_access_clean)

lemma run_matcher_eq:
  "run_matcher mw s = Some (b, t) \<longleftrightarrow> mw s = Some (b, t) \<and> \<not> c_waits (source t)"
  by (auto simp: run_matcher_def split: option.split prod.split)

text \<open>
  The state of a connection between two matchers, relative to the connection \<open>c\<close> that was
  accepted.
\<close>

definition mux_ready :: "net_conn \<Rightarrow> MuxConn \<Rightarrow> bool" where
  "mux_ready c s \<longleftrightarrow> conn_clean (source s) \<and> lastErr s = None
     \<and> br_total conn_pend s = conn_pend c \<and> same_conn c (source s)"

lemma startSniffing_sel [simp]:
  "source (startSniffing s) = source s" "lastErr (startSniffing s) = lastErr s"
  "source (doneSniffing s) = source s" "lastErr (doneSniffing s) = lastErr s"
  by (simp_all add: startSniffing_def doneSniffing_def bufferedReader_reset_def)

lemma startSniffing_clean:
  "conn_clean (source s) \<Longrightarrow> lastErr s = None \<Longrightarrow> br_clean conn_clean (startSniffing s)"
  by (simp add: br_clean_def) (simp add: startSniffing_def br_inv_reset)

lemma mux_ready_session:
  assumes "mux_ready c s" and "mux_access\<^sup>*\<^sup>* (startSniffing s) t"
  shows "mux_ready c t"
proof -
  have "br_clean conn_clean t"
    using assms startSniffing_clean mux_accesses_clean by (auto simp: mux_ready_def)
  moreover have "br_total conn_pend t = br_total conn_pend s"
    using assms(2) by (intro sniff_session_total) (simp add: sniff_session_def)
  moreover have "same_conn (source s) (source t)"
    using mux_accesses_same [OF assms(2)] by simp
  ultimately show ?thesis
    using assms(1) by (auto simp: mux_ready_def br_clean_def br_inv_def intro: same_conn_trans)
qed

lemma mux_ready_done [simp]: "mux_ready c (doneSniffing s) = mux_ready c s"
  by (simp add: mux_ready_def)

lemma try_matchers_decides:
  assumes "list_all2 (decides_at (conn_pend c)) mws bs" and "mux_ready c s"
  shows "\<exists>t. try_matchers mws s = Some (True \<in> set bs, t) \<and> mux_ready c t
    \<and> (True \<in> set bs \<longrightarrow> br_pend conn_pend t = conn_pend c)"
  using assms
proof (induction arbitrary: s rule: list_all2_induct)
  case (Cons mw mws b bs)
  then have clean: "br_clean conn_clean (startSniffing s)"
    and pend: "br_pend conn_pend (startSniffing s) = conn_pend c"
    by (simp_all add: mux_ready_def startSniffing_clean)
  with Cons(1) obtain t where t: "mw (startSniffing s) = Some (b, t)"
    "mux_access\<^sup>*\<^sup>* (startSniffing s) t" by (metis decides_at_def)
  with Cons.prems have ready: "mux_ready c t" by (blast intro: mux_ready_session)
  with t(1) have "run_matcher mw (startSniffing s) = Some (b, t)"
    by (simp add: run_matcher_eq mux_ready_def conn_clean_def)
  with ready Cons.IH [OF ready] show ?case
    by (cases b) (auto simp: mux_ready_def)
qed simp

lemma try_listeners_decides:
  assumes "answers (conn_pend c) lns bss" and "mux_ready c s"
  shows "(\<forall>i < length bss. True \<in> set (bss ! i) \<longrightarrow> (\<forall>j < i. True \<notin> set (bss ! j)) \<longrightarrow>
       (\<exists>t. try_listeners k lns s = Some (Some (k + i), t) \<and> mux_ready c t
          \<and> br_pend conn_pend t = conn_pend c))
    \<and> ((\<forall>bs \<in> set bss. True \<notin> set bs) \<longrightarrow>
       (\<exists>t. try_listeners k lns s = Some (None, t) \<and> mux_ready c t))"
  using assms
proof (induction arbitrary: s k rule: list_all2_induct)
  case (Cons sl lns bs bss)
  obtain t where t: "try_matchers (ss sl) s = Some (True \<in> set bs, t)"
    "mux_ready c t" "True \<in> set bs \<longrightarrow> br_pend conn_pend t = conn_pend c"
    using try_matchers_decides [OF Cons(1) Cons.prems] by blast
  show ?case
  proof (cases "True \<in> set bs")
    case True
    then have "try_listeners k (sl # lns) s = Some (Some k, t)" using t(1) by simp
    with t(2,3) True show ?thesis
      by (auto simp: nth_Cons' elim!: allE [where x = "0 :: nat"])
  next
    case False
    with t(1) have "try_listeners k (sl # lns) s = try_listeners (Suc k) lns t" by simp
    with False Cons.IH [OF t(2), of "Suc k"] show ?thesis
      by (auto simp: nth_Cons' gr0_conv_Suc All_less_Suc2)
  qed
qed simp

text \<open>What \<open>serve\<close> does to the connection around the loops.\<close>

lemma mux_ready_newMuxConn:
  "conn_clean c \<Longrightarrow> same_conn c' (f c) \<Longrightarrow> conn_clean (f c) = conn_clean c \<Longrightarrow>
     conn_pend (f c) = conn_pend c' \<Longrightarrow> mux_ready c' (on_conn f (newMuxConn c))"
  by (simp add: mux_ready_def newMuxConn_def br_total_def)

lemma SetReadDeadline_simps [simp]:
  "conn_clean (SetReadDeadline d c) = conn_clean c" "conn_pend (SetReadDeadline d c) = conn_pend c"
  "c_id (SetReadDeadline d c) = c_id c" "c_closed (SetReadDeadline d c) = c_closed c"
  "c_addr (SetReadDeadline d c) = c_addr c" "c_deadline (SetReadDeadline d c) = d"
  by (simp_all add: SetReadDeadline_def conn_clean_def conn_pend_def)

lemma br_pend_on_conn:
  "conn_pend (f (source s)) = conn_pend (source s) \<Longrightarrow>
     br_pend conn_pend (on_conn f s) = br_pend conn_pend s"
  by (simp add: br_pend_def br_replay_def)

definition serve_conn :: "rpcMux \<Rightarrow> int \<Rightarrow> net_conn \<Rightarrow> net_conn" where
  "serve_conn m now c =
     (if readTimeout m > noTimeout then SetReadDeadline (Some (now + readTimeout m)) c else c)"

lemma serve_eq:
  "serve m now c =
     (case try_listeners 0 (sls m) (newMuxConn (serve_conn m now c)) of
        None \<Rightarrow> None
      | Some (Some i, t) \<Rightarrow>
          Some (Enqueue i (if readTimeout m > noTimeout then on_conn (SetReadDeadline None) t else t))
      | Some (None, t) \<Rightarrow>
          Some (Unmatched (on_conn conn_close t) (ErrNotMatched (conn_close (source t)))))"
  by (auto simp: serve_def serve_conn_def newMuxConn_def Let_def split: option.split prod.split)

lemma mux_ready_serve: "conn_clean c \<Longrightarrow> mux_ready (serve_conn m now c) (newMuxConn (serve_conn m now c))"
  by (simp add: mux_ready_def newMuxConn_def br_total_def serve_conn_def)

lemma serve_conn_simps [simp]:
  "conn_pend (serve_conn m now c) = conn_pend c" "c_id (serve_conn m now c) = c_id c"
  "c_closed (serve_conn m now c) = c_closed c"
  by (simp_all add: serve_conn_def)

lemma listeners_served:
  assumes "conn_clean c" and "answers (conn_pend c) (sls m) bss"
  shows "(\<forall>i < length bss. True \<in> set (bss ! i) \<longrightarrow> (\<forall>j < i. True \<notin> set (bss ! j)) \<longrightarrow>
       (\<exists>t. try_listeners 0 (sls m) (newMuxConn (serve_conn m now c)) = Some (Some i, t)
          \<and> mux_ready (serve_conn m now c) t \<and> br_pend conn_pend t = conn_pend c))
    \<and> ((\<forall>bs \<in> set bss. True \<notin> set bs) \<longrightarrow>
       (\<exists>t. try_listeners 0 (sls m) (newMuxConn (serve_conn m now c)) = Some (None, t)
          \<and> mux_ready (serve_conn m now c) t))"
  using try_listeners_decides [of "serve_conn m now c", OF _ mux_ready_serve [OF assms(1)], of "sls m" bss 0]
    assms(2) by simp

lemma serve_enqueues_at:
  assumes "conn_clean c" and "answers (conn_pend c) (sls m) bss"
    and "i < length bss" and "True \<in> set (bss ! i)" and "\<forall>j < i. True \<notin> set (bss ! j)"
  shows "\<exists>muc. serve m now c = Some (Enqueue i muc)
    \<and> br_pend conn_pend muc = conn_pend c
    \<and> c_id (source muc) = c_id c \<and> c_closed (source muc) = c_closed c
    \<and> c_deadline (source muc) = (if readTimeout m > 0 then None else c_deadline c)"
proof -
  from listeners_served [OF assms(1,2), of now] assms(3-5)
  obtain t where "try_listeners 0 (sls m) (newMuxConn (serve_conn m now c)) = Some (Some i, t)"
    and "mux_ready (serve_conn m now c) t" and "br_pend conn_pend t = conn_pend c" by auto
  then show ?thesis
    by (auto simp: serve_eq br_pend_on_conn mux_ready_def same_conn_def noTimeout_def serve_conn_def)
qed

lemma serve_refuses_at:
  assumes "conn_clean c" and "answers (conn_pend c) (sls m) bss"
    and "\<forall>bs \<in> set bss. True \<notin> set bs"
  shows "\<exists>muc err. serve m now c = Some (Unmatched muc err)
    \<and> c_id (source muc) = c_id c \<and> c_closed (source muc) = Suc (c_closed c)
    \<and> Error err = ''mux: connection '' @ c_addr c @ '' not matched by an matcher''
    \<and> net_Temporary err = Some True"
proof -
  from listeners_served [OF assms(1,2), of now] assms(3)
  obtain t where "try_listeners 0 (sls m) (newMuxConn (serve_conn m now c)) = Some (None, t)"
    and "mux_ready (serve_conn m now c) t" by auto
  then show ?thesis
    by (auto simp: serve_eq mux_ready_def same_conn_def conn_close_def serve_conn_def)
qed

lemma serve_enqueues:
  assumes "conn_clean c"
    and "list_all2 (\<lambda>sl. list_all2 decides_stream (ss sl)) (sls m) Pss"
    and "i < length Pss" and "\<exists>P \<in> set (Pss ! i). P (conn_pend c)"
    and "\<forall>j < i. \<forall>P \<in> set (Pss ! j). \<not> P (conn_pend c)"
  shows "\<exists>muc. serve m now c = Some (Enqueue i muc)
    \<and> br_pend conn_pend muc = conn_pend c
    \<and> c_id (source muc) = c_id c \<and> c_closed (source muc) = c_closed c
    \<and> c_deadline (source muc) = (if readTimeout m > 0 then None else c_deadline c)"
  using assms(3-5) by (intro serve_enqueues_at [OF assms(1) decides_stream_answers [OF assms(2)]]) auto

text \<open>
  C4. The first registered matcher wins. If the matchers decide by the predicates
  \<open>Pss\<close>, a connection without faults whose stream satisfies one of listener \<open>i\<close> and
  none of an earlier listener is queued for listener \<open>i\<close>: open, with the whole stream
  still to read and with no deadline left of the multiplexer's own.
\<close>

theorem serve_first_match:
  assumes "conn_clean c"
    and "list_all2 (\<lambda>sl. list_all2 decides_stream (ss sl)) (sls m) Pss"
    and "i < length Pss" and "\<exists>P \<in> set (Pss ! i). P (conn_pend c)"
    and "\<forall>j < i. \<forall>P \<in> set (Pss ! j). \<not> P (conn_pend c)"
  shows "\<exists>muc. serve m now c = Some (Enqueue i muc)
    \<and> br_pend conn_pend muc = conn_pend c
    \<and> c_id (source muc) = c_id c \<and> c_closed (source muc) = c_closed c
    \<and> c_deadline (source muc) = (if readTimeout m > 0 then None else c_deadline c)"
  by (rule serve_enqueues [OF assms])

text \<open>
  A connection without faults that no matcher wants is closed, once, and reported as
  \<open>ErrNotMatched\<close> with its remote address.
\<close>

theorem serve_no_match:
  assumes "conn_clean c"
    and "list_all2 (\<lambda>sl. list_all2 decides_stream (ss sl)) (sls m) Pss"
    and "\<forall>Ps \<in> set Pss. \<forall>P \<in> set Ps. \<not> P (conn_pend c)"
  shows "\<exists>muc err. serve m now c = Some (Unmatched muc err)
    \<and> c_id (source muc) = c_id c \<and> c_closed (source muc) = Suc (c_closed c)
    \<and> Error err = ''mux: connection '' @ c_addr c @ '' not matched by an matcher''
    \<and> net_Temporary err = Some True"
  using assms(3) by (intro serve_refuses_at [OF assms(1) decides_stream_answers [OF assms(2)]]) auto

text \<open>
  The configuration of the witnesses: SSH on the first listener, HTTP/1 methods or TLS on
  the second, a read timeout of five seconds.
\<close>

definition sample_mux :: rpcMux where
  "sample_mux = SetReadTimeout 5000000000
     (snd (Match [HTTP1Fast (bufferedReader_Read conn_read) [], TLS (bufferedReader_Read conn_read) []]
       (snd (Match [PrefixMatcher (bufferedReader_Read conn_read) [''SSH-'']] (New False)))))"

definition sample_preds :: "(bytes \<Rightarrow> bool) list list" where
  "sample_preds = [[recognises [bytes_of ''SSH-''] True],
     [recognises (map bytes_of defaultHTTPMethods) True,
      recognises (map tls_prefix (tls_versions [])) True]]"

lemma sample_mux_decides:
  "list_all2 (\<lambda>sl. list_all2 decides_stream (ss sl)) (sls sample_mux) sample_preds"
proof -
  have "decides_stream (PrefixMatcher (bufferedReader_Read conn_read) strs)
      (recognises (map bytes_of strs) True)" for strs
    by (rule decider_decides_stream) (rule prefix_matcher.decider_axioms)
  from this [of "[''SSH-'']"] this [of defaultHTTPMethods]
  show ?thesis
    by (simp add: sample_mux_def sample_preds_def SetReadTimeout_def Match_def MatchWithWriters_def
        New_def Let_def HTTP1Fast_def decider_decides_stream [OF tls.decider_axioms])
qed

lemma sample_preds_eval:
  "recognises [bytes_of ''SSH-''] True st \<longleftrightarrow> prefix (bytes_of ''SSH-'') st"
  "recognises (map bytes_of defaultHTTPMethods) True st \<longleftrightarrow>
     (\<exists>s \<in> set defaultHTTPMethods. prefix (bytes_of s) st)"
  "recognises (map tls_prefix (tls_versions [])) True st \<Longrightarrow> hd st = 22"
  by (auto simp: recognises_def defaultHTTPMethods_def tls_versions_def tls_prefix_def prefix_def)

theorem serve_first_match_witness:
  "\<exists>muc. serve sample_mux 7 (sample_conn\<lparr>c_src := [(bytes_of ''GET /'', None)]\<rparr>)
      = Some (Enqueue 1 muc)
    \<and> br_pend conn_pend muc = bytes_of ''GET /'' \<and> c_deadline (source muc) = None"
proof -
  let ?c = "sample_conn\<lparr>c_src := [(bytes_of ''GET /'', None)]\<rparr>"
  have c: "conn_clean ?c" "conn_pend ?c = bytes_of ''GET /''"
    by (simp_all add: conn_clean_def conn_pend_def bytes_of_def)
  have "1 < length sample_preds" by (simp add: sample_preds_def)
  moreover have "\<exists>P \<in> set (sample_preds ! 1). P (conn_pend ?c)"
    unfolding c(2) by (simp add: sample_preds_def sample_preds_eval(2)) (simp add: defaultHTTPMethods_def bytes_of_def)
  moreover have "\<forall>j < 1. \<forall>P \<in> set (sample_preds ! j). \<not> P (conn_pend ?c)"
    unfolding c(2) by (simp add: sample_preds_def sample_preds_eval(1)) (simp add: bytes_of_def byte_of_def)
  ultimately show ?thesis
    using serve_first_match [OF c(1) sample_mux_decides, of 1 7] c(2)
    by (auto simp: sample_mux_def SetReadTimeout_def sample_conn_def)
qed

theorem serve_no_match_witness:
  "\<exists>muc err. serve sample_mux 7 (sample_conn\<lparr>c_src := [(bytes_of ''QUIT'', None)]\<rparr>)
      = Some (Unmatched muc err)
    \<and> c_closed (source muc) = 1
    \<and> Error err = ''mux: connection 192.0.2.7:4711 not matched by an matcher''"
proof -
  let ?c = "sample_conn\<lparr>c_src := [(bytes_of ''QUIT'', None)]\<rparr>"
  have c: "conn_clean ?c" "conn_pend ?c = bytes_of ''QUIT''"
    by (simp_all add: conn_clean_def conn_pend_def bytes_of_def)
  have "\<forall>Ps \<in> set sample_preds. \<forall>P \<in> set Ps. \<not> P (conn_pend ?c)"
    unfolding c(2)
    by (simp add: sample_preds_def sample_preds_eval(1,2))
      (auto simp: defaultHTTPMethods_def bytes_of_def byte_of_def dest: sample_preds_eval(3))
  from serve_no_match [OF c(1) sample_mux_decides this, of 7] show ?thesis
    by (auto simp: sample_conn_def)
qed

end
