(* ===== verification/MuxConc.thy ===== *)
theory MuxConc
  imports MuxServe "HOL-Library.Multiset"
begin

text \<open>
  The connection multiplexer of \<open>rpc/mux.go\<close>, second half: \<open>Serve\<close> with its deferred
  shutdown, one goroutine per connection, the channel of each listener and
  \<open>muxListener.Accept\<close>, as a step relation that interleaves them all. The invariants
  show that no interleaving panics, that no connection is lost or handled twice, that every
  listener gets its connections in order, and that the shutdown ends.
\<close>

section \<open>The state\<close>

text \<open>
  Where \<open>Serve\<close> is: in its loop, about to \<open>close(m.donec)\<close>, in \<open>wg.Wait()\<close>, about
  to close the channel of listener \<open>i\<close>, draining it, or returned. Where a goroutine of
  \<open>m.serve\<close> is: sniffing its connection, in the \<open>select\<close>, or handling the error of an
  unmatched connection.
\<close>

datatype serve_pc =
    Accepting
  | Deferred mux_error
  | Waiting mux_error
  | Closing mux_error nat
  | Draining mux_error nat
  | Returned mux_error

datatype go_pc = Started net_conn | Selecting nat MuxConn | Handling mux_error

text \<open>
  Beside the program's state the record keeps its history: the connections \<open>Serve\<close>
  accepted, those sent to and taken from each channel, those the clients' \<open>Accept\<close>
  returned, and those the multiplexer closed.
\<close>

record mux_sys =
  mux :: rpcMux
  main :: serve_pc
  gos :: "go_pc list"
  wg :: nat
  panicked :: bool
  accepted :: "net_conn list"
  sent :: "nat \<Rightarrow> MuxConn list"
  taken :: "nat \<Rightarrow> MuxConn list"
  delivered :: "(nat \<times> MuxConn) list"
  dropped :: "net_conn list"

definition mux_start :: "rpcMux \<Rightarrow> mux_sys" where
  "mux_start m = \<lparr>mux = m, main = Accepting, gos = [], wg = 0, panicked = False, accepted = [],
     sent = (\<lambda>_. []), taken = (\<lambda>_. []), delivered = [], dropped = []\<rparr>"

abbreviation chan :: "rpcMux \<Rightarrow> nat \<Rightarrow> MuxConn channel" where
  "chan m i \<equiv> connc (ml_l (sls m ! i))"

definition set_chan :: "nat \<Rightarrow> MuxConn channel \<Rightarrow> rpcMux \<Rightarrow> rpcMux" where
  "set_chan i ch m = m\<lparr>sls := (sls m)[i := (sls m ! i)\<lparr>ml_l := \<lparr>connc = ch\<rparr>\<rparr>]\<rparr>"

text \<open>
  \<open>muxListener.Accept\<close>. The \<open>Close\<close> of a \<open>muxListener\<close> is that of the embedded
  root listener.
\<close>

definition muxListener_Accept :: "muxListener \<Rightarrow> ((mux_error + MuxConn) \<times> muxListener) attempt" where
  "muxListener_Accept l =
     (case chan_recv (connc l) of
        Proceeds (Some c, ch) \<Rightarrow> Proceeds (Inr c, l\<lparr>connc := ch\<rparr>)
      | Proceeds (None, ch) \<Rightarrow> Proceeds (Inl ErrListenerClosed, l\<lparr>connc := ch\<rparr>)
      | Blocks \<Rightarrow> Blocks
      | Panics \<Rightarrow> Panics)"

section \<open>The steps\<close>

text \<open>
  \<open>Serve\<close>. The network decides what the root listener's \<open>Accept\<close> returns, and when;
  once the listener is closed \<open>Accept\<close> returns at once, with the error that says so.
\<close>

definition ErrNetClosing :: mux_error where
  "ErrNetClosing = NetError False False ''use of closed network connection''"

definition accept_error :: "rpcMux \<Rightarrow> mux_error \<Rightarrow> bool" where
  "accept_error m err \<longleftrightarrow> (root_closed m \<longrightarrow> err = ErrNetClosing)"

inductive main_step :: "mux_sys \<Rightarrow> mux_sys \<Rightarrow> bool" where
  accept_conn: "main s = Accepting \<Longrightarrow> \<not> root_closed (mux s) \<Longrightarrow>
    main_step s (s\<lparr>gos := gos s @ [Started c], wg := Suc (wg s), accepted := accepted s @ [c]\<rparr>)"
| accept_continue: "main s = Accepting \<Longrightarrow> accept_error (mux s) err \<Longrightarrow> handleErr (mux s) err \<Longrightarrow>
    main_step s s"
| accept_fail: "main s = Accepting \<Longrightarrow> accept_error (mux s) err \<Longrightarrow> \<not> handleErr (mux s) err \<Longrightarrow>
    main_step s (s\<lparr>main := Deferred err\<rparr>)"
| close_donec: "main s = Deferred err \<Longrightarrow> chan_close (donec (mux s)) = Proceeds d \<Longrightarrow>
    main_step s (s\<lparr>main := Waiting err, mux := (mux s)\<lparr>donec := d\<rparr>\<rparr>)"
| close_donec_panics: "main s = Deferred err \<Longrightarrow> chan_close (donec (mux s)) = Panics \<Longrightarrow>
    main_step s (s\<lparr>panicked := True\<rparr>)"
| wait_done: "main s = Waiting err \<Longrightarrow> wg s = 0 \<Longrightarrow> main_step s (s\<lparr>main := Closing err 0\<rparr>)"
| close_connc: "main s = Closing err i \<Longrightarrow> i < length (sls (mux s)) \<Longrightarrow>
    chan_close (chan (mux s) i) = Proceeds ch \<Longrightarrow>
    main_step s (s\<lparr>main := Draining err i, mux := set_chan i ch (mux s)\<rparr>)"
| close_connc_panics: "main s = Closing err i \<Longrightarrow> i < length (sls (mux s)) \<Longrightarrow>
    chan_close (chan (mux s) i) = Panics \<Longrightarrow> main_step s (s\<lparr>panicked := True\<rparr>)"
| drain_one: "main s = Draining err i \<Longrightarrow>
    chan_recv (chan (mux s) i) = Proceeds (Some muc, ch) \<Longrightarrow>
    main_step s (s\<lparr>mux := set_chan i ch (mux s), taken := (taken s)(i := taken s i @ [muc]),
      dropped := dropped s @ [conn_close (source muc)]\<rparr>)"
| drain_end: "main s = Draining err i \<Longrightarrow> chan_recv (chan (mux s) i) = Proceeds (None, ch) \<Longrightarrow>
    main_step s (s\<lparr>main := Closing err (Suc i)\<rparr>)"
| serve_returns: "main s = Closing err i \<Longrightarrow> \<not> i < length (sls (mux s)) \<Longrightarrow>
    main_step s (s\<lparr>main := Returned err\<rparr>)"

text \<open>
  The goroutines. A goroutine that ends calls \<open>wg.Done()\<close>; the two communications of the
  \<open>select\<close> are two rules, and either may be taken when both are ready. The end of an
  unmatched connection may close the root listener.
\<close>

inductive go_step :: "mux_sys \<Rightarrow> mux_sys \<Rightarrow> bool" where
  go_matched: "gos s = xs @ Started c # ys \<Longrightarrow> serve (mux s) now c = Some (Enqueue i muc) \<Longrightarrow>
    go_step s (s\<lparr>gos := xs @ Selecting i muc # ys\<rparr>)"
| go_unmatched: "gos s = xs @ Started c # ys \<Longrightarrow> serve (mux s) now c = Some (Unmatched muc err) \<Longrightarrow>
    go_step s (s\<lparr>gos := xs @ Handling err # ys, dropped := dropped s @ [source muc]\<rparr>)"
| go_send: "gos s = xs @ Selecting i muc # ys \<Longrightarrow> chan_send muc (chan (mux s) i) = Proceeds ch \<Longrightarrow>
    go_step s (s\<lparr>gos := xs @ ys, wg := wg s - 1, mux := set_chan i ch (mux s),
      sent := (sent s)(i := sent s i @ [muc])\<rparr>)"
| go_send_panics: "gos s = xs @ Selecting i muc # ys \<Longrightarrow> chan_send muc (chan (mux s) i) = Panics \<Longrightarrow>
    go_step s (s\<lparr>panicked := True\<rparr>)"
| go_donec: "gos s = xs @ Selecting i muc # ys \<Longrightarrow> chan_recv (donec (mux s)) = Proceeds (x, d) \<Longrightarrow>
    go_step s (s\<lparr>gos := xs @ ys, wg := wg s - 1,
      dropped := dropped s @ [conn_close (source muc)]\<rparr>)"
| go_handled: "gos s = xs @ Handling err # ys \<Longrightarrow>
    go_step s (s\<lparr>gos := xs @ ys, wg := wg s - 1,
      mux := (if \<not> handleErr (mux s) err then (mux s)\<lparr>root_closed := True\<rparr> else mux s)\<rparr>)"

text \<open>The clients: \<open>Accept\<close> and \<open>Close\<close> on the listeners \<open>Match\<close> returned.\<close>

inductive client_step :: "mux_sys \<Rightarrow> mux_sys \<Rightarrow> bool" where
  client_accepts: "i < length (sls (mux s)) \<Longrightarrow>
    muxListener_Accept (ml_l (sls (mux s) ! i)) = Proceeds (Inr muc, l) \<Longrightarrow>
    client_step s (s\<lparr>mux := set_chan i (connc l) (mux s),
      taken := (taken s)(i := taken s i @ [muc]), delivered := delivered s @ [(i, muc)]\<rparr>)"
| client_refused: "i < length (sls (mux s)) \<Longrightarrow>
    muxListener_Accept (ml_l (sls (mux s) ! i)) = Proceeds (Inl err, l) \<Longrightarrow> client_step s s"
| client_closes: "client_step s (s\<lparr>mux := (mux s)\<lparr>root_closed := True\<rparr>\<rparr>)"

definition serve_step :: "mux_sys \<Rightarrow> mux_sys \<Rightarrow> bool" where
  "serve_step s t \<longleftrightarrow> main_step s t \<or> go_step s t"

text \<open>
  Whether the next step of \<open>Serve\<close> is up to the network: it waits for a connection or an
  error of the open root listener. The other steps are the program's own.
\<close>

definition awaits_listener :: "mux_sys \<Rightarrow> bool" where
  "awaits_listener s \<longleftrightarrow> main s = Accepting \<and> \<not> root_closed (mux s)"

definition own_step :: "mux_sys \<Rightarrow> mux_sys \<Rightarrow> bool" where
  "own_step s t \<longleftrightarrow> main_step s t \<and> \<not> awaits_listener s \<or> go_step s t"

definition mux_step :: "mux_sys \<Rightarrow> mux_sys \<Rightarrow> bool" where
  "mux_step s t \<longleftrightarrow> serve_step s t \<or> client_step s t"

text \<open>A multiplexer as the exported functions build it, before \<open>Serve\<close>.\<close>

inductive configured :: "rpcMux \<Rightarrow> bool" where
  "configured (New l)"
| "configured m \<Longrightarrow> configured (snd (Match ms m))"
| "configured m \<Longrightarrow> configured (snd (MatchWithWriters mws m))"
| "configured m \<Longrightarrow> configured (HandleError h m)"
| "configured m \<Longrightarrow> configured (SetReadTimeout t m)"

lemmas step_defs = mux_step_def serve_step_def

section \<open>Channels inside the multiplexer\<close>

lemma set_chan_simps [simp]:
  "length (sls (set_chan i ch m)) = length (sls m)"
  "root_closed (set_chan i ch m) = root_closed m" "bufLen (set_chan i ch m) = bufLen m"
  "errh (set_chan i ch m) = errh m" "donec (set_chan i ch m) = donec m"
  "readTimeout (set_chan i ch m) = readTimeout m"
  by (simp_all add: set_chan_def)

lemma chan_set_chan:
  "j < length (sls m) \<Longrightarrow> chan (set_chan i ch m) j = (if j = i then ch else chan m j)"
  by (simp add: set_chan_def nth_list_update)

lemma map_ss_set_chan [simp]: "map ss (sls (set_chan i ch m)) = map ss (sls m)"
  by (simp add: set_chan_def map_update list_update_id nth_list_update)
    (metis list_update_beyond list_update_id map_update not_le nth_map)

lemma muxListener_Accept_eq:
  "muxListener_Accept l = Proceeds (Inr muc, l') \<longleftrightarrow>
     (\<exists>ch. chan_recv (connc l) = Proceeds (Some muc, ch) \<and> l' = l\<lparr>connc := ch\<rparr>)"
  "muxListener_Accept l = Proceeds (Inl err, l') \<longleftrightarrow>
     chan_recv (connc l) = Proceeds (None, connc l) \<and> err = ErrListenerClosed \<and> l' = l"
  "muxListener_Accept l = Blocks \<longleftrightarrow> chan_recv (connc l) = Blocks"
  "muxListener_Accept l \<noteq> Panics"
  by (auto simp: muxListener_Accept_def chan_eqs split: attempt.splits option.splits)

text \<open>What \<open>serve\<close> decides depends on the registered matchers and the timeout only.\<close>

lemma try_listeners_cong:
  "map ss lns = map ss lns' \<Longrightarrow> try_listeners k lns s = try_listeners k lns' s"
proof (induction lns arbitrary: lns' k s)
  case (Cons sl lns)
  then obtain sl' lns2 where "lns' = sl' # lns2" "ss sl' = ss sl" "map ss lns = map ss lns2"
    by (cases lns') auto
  with Cons.IH [OF this(3)] show ?case by (simp split: option.split bool.split)
qed simp

lemma serve_cong:
  "map ss (sls m) = map ss (sls m') \<Longrightarrow> readTimeout m = readTimeout m' \<Longrightarrow>
     serve m now c = serve m' now c"
  using try_listeners_cong [of "sls m" "sls m'" 0] by (auto simp: serve_eq serve_conn_def split: option.split)

lemma try_listeners_bound:
  "try_listeners k lns s = Some (Some i, t) \<Longrightarrow> i < k + length lns"
  by (induction k lns s rule: try_listeners.induct) (auto split: option.splits bool.splits)

lemma serve_bound: "serve m now c = Some (Enqueue i muc) \<Longrightarrow> i < length (sls m)"
  by (auto simp: serve_eq split: option.splits dest!: try_listeners_bound)

section \<open>Control: waiting, closing and the select\<close>

text \<open>How far the shutdown has closed and emptied the channels.\<close>

fun n_closed :: "nat \<Rightarrow> serve_pc \<Rightarrow> nat" where
  "n_closed n (Closing _ i) = i"
| "n_closed n (Draining _ i) = Suc i"
| "n_closed n (Returned _) = n"
| "n_closed n _ = 0"

fun n_drained :: "nat \<Rightarrow> serve_pc \<Rightarrow> nat" where
  "n_drained n (Closing _ i) = i"
| "n_drained n (Draining _ i) = i"
| "n_drained n (Returned _) = n"
| "n_drained n _ = 0"

fun donec_open :: "serve_pc \<Rightarrow> bool" where
  "donec_open Accepting = True"
| "donec_open (Deferred _) = True"
| "donec_open _ = False"

fun after_wait :: "serve_pc \<Rightarrow> bool" where
  "after_wait (Closing _ _) = True"
| "after_wait (Draining _ _) = True"
| "after_wait (Returned _) = True"
| "after_wait _ = False"

lemma before_wait: "\<not> after_wait pc \<Longrightarrow> n_closed n pc = 0 \<and> n_drained n pc = 0"
  by (cases pc) auto

lemma n_drained_le: "n_drained n pc \<le> n_closed n pc"
  by (cases pc) auto

text \<open>
  \<open>mux_ctl m\<close>: the configuration is still that of \<open>m\<close>; \<open>wg\<close> counts the goroutines,
  and there are none once \<open>Wait\<close> has returned; \<open>donec\<close> and the channels are closed as
  far as \<open>Serve\<close> has come, and the drained ones are empty; a goroutine in the
  \<open>select\<close> has a channel to send to.
\<close>

definition mux_ctl :: "rpcMux \<Rightarrow> mux_sys \<Rightarrow> bool" where
  "mux_ctl m s \<longleftrightarrow>
     map ss (sls (mux s)) = map ss (sls m) \<and> readTimeout (mux s) = readTimeout m
     \<and> errh (mux s) = errh m
     \<and> wg s = length (gos s) \<and> (after_wait (main s) \<longrightarrow> gos s = [])
     \<and> \<not> panicked s
     \<and> ch_buf (donec (mux s)) = [] \<and> (ch_closed (donec (mux s)) \<longleftrightarrow> \<not> donec_open (main s))
     \<and> n_closed (length (sls m)) (main s) \<le> length (sls m)
     \<and> (\<forall>i < length (sls m). ch_closed (chan (mux s) i) \<longleftrightarrow> i < n_closed (length (sls m)) (main s))
     \<and> (\<forall>i < n_drained (length (sls m)) (main s). ch_buf (chan (mux s) i) = [])
     \<and> (\<forall>i muc. Selecting i muc \<in> set (gos s) \<longrightarrow> i < length (sls m))"

lemma mux_ctl_length: "mux_ctl m s \<Longrightarrow> length (sls (mux s)) = length (sls m)"
  unfolding mux_ctl_def by (metis length_map)

lemma configured_fresh:
  "configured m \<Longrightarrow> donec m = make_chan 0 \<and> (\<forall>sl \<in> set (sls m). \<exists>n. connc (ml_l sl) = make_chan n)"
  by (induction rule: configured.induct)
    (auto simp: New_def Match_def MatchWithWriters_def HandleError_def SetReadTimeout_def Let_def)

lemma configured_chan:
  "configured m \<Longrightarrow> i < length (sls m) \<Longrightarrow> ch_buf (chan m i) = [] \<and> \<not> ch_closed (chan m i)"
  using configured_fresh [of m] by (metis make_chan_sel(1,3) nth_mem)

lemma mux_ctl_start: "configured m \<Longrightarrow> mux_ctl m (mux_start m)"
  using configured_fresh [of m] configured_chan [of m] by (auto simp: mux_ctl_def mux_start_def)

lemma mux_ctl_main: "main_step s t \<Longrightarrow> mux_ctl m s \<Longrightarrow> mux_ctl m t"
proof (induction rule: main_step.induct)
  case (close_donec s err d)
  then show ?case by (auto simp: mux_ctl_def chan_eqs)
next
  case (close_donec_panics s err)
  then show ?case by (auto simp: mux_ctl_def chan_eqs)
next
  case (close_connc s err i ch)
  note len = mux_ctl_length [OF close_connc.prems]
  from close_connc len show ?case
    by (auto simp: mux_ctl_def chan_eqs chan_set_chan)
next
  case (close_connc_panics s err i)
  note len = mux_ctl_length [OF close_connc_panics.prems]
  from close_connc_panics len show ?case by (auto simp: mux_ctl_def chan_eqs)
next
  case (drain_one s err i muc ch)
  note len = mux_ctl_length [OF drain_one.prems]
  from drain_one len show ?case by (auto simp: mux_ctl_def chan_eqs chan_set_chan)
next
  case (drain_end s err i ch)
  note len = mux_ctl_length [OF drain_end.prems]
  from drain_end len show ?case by (auto simp: mux_ctl_def chan_eqs less_Suc_eq)
next
  case (serve_returns s err i)
  note len = mux_ctl_length [OF serve_returns.prems]
  from serve_returns len show ?case by (auto simp: mux_ctl_def)
qed (auto simp: mux_ctl_def)

lemma mux_ctl_go: "go_step s t \<Longrightarrow> mux_ctl m s \<Longrightarrow> mux_ctl m t"
proof (induction rule: go_step.induct)
  case (go_matched s xs c ys now i muc)
  note len = mux_ctl_length [OF go_matched.prems]
  from go_matched len show ?case
    by (auto simp: mux_ctl_def dest: serve_bound)
next
  case (go_send s xs i muc ys ch)
  note len = mux_ctl_length [OF go_send.prems]
  from go_send have "\<not> after_wait (main s)" by (auto simp: mux_ctl_def)
  from before_wait [OF this] go_send len show ?case
    by (auto simp: mux_ctl_def chan_eqs chan_set_chan)
next
  case (go_send_panics s xs i muc ys)
  then have "\<not> after_wait (main s)" and "i < length (sls m)" by (auto simp: mux_ctl_def)
  then have "\<not> ch_closed (chan (mux s) i)"
    using go_send_panics.prems before_wait by (auto simp: mux_ctl_def)
  with go_send_panics show ?case by (auto simp: chan_eqs)
qed (auto simp: mux_ctl_def)

lemma mux_ctl_client: "client_step s t \<Longrightarrow> mux_ctl m s \<Longrightarrow> mux_ctl m t"
proof (induction rule: client_step.induct)
  case (client_accepts i s muc l)
  note len = mux_ctl_length [OF client_accepts.prems]
  from client_accepts.prems n_drained_le [of "length (sls m)" "main s"]
  have "ia < length (sls m)" if "ia < n_drained (length (sls m)) (main s)" for ia
    using that by (auto simp: mux_ctl_def)
  with client_accepts len show ?case
    by (auto simp: mux_ctl_def muxListener_Accept_eq chan_eqs chan_set_chan)
qed (auto simp: mux_ctl_def)

interpretation ctl: transition_system "\<lambda>s. s = mux_start m \<and> configured m" mux_step "mux_ctl m" for m
  by unfold_locales
    (auto simp: step_defs intro: mux_ctl_start mux_ctl_main mux_ctl_go mux_ctl_client)

lemmas mux_ctl_reach = ctl.steps_inv [OF _ mux_ctl_start]

text \<open>
  C2. No interleaving of \<open>Serve\<close>, its goroutines and the clients panics: no send on a
  closed channel (the \<open>select\<close> of \<open>serve\<close> against the deferred \<open>close\<close>), no
  channel closed twice.
\<close>

theorem mux_never_panics:
  assumes "configured m" and "mux_step\<^sup>*\<^sup>* (mux_start m) s"
  shows "\<not> panicked s"
  using mux_ctl_reach [OF assms(2,1)] by (simp add: mux_ctl_def)

section \<open>Histories: order and provenance\<close>

definition delivered_of :: "nat \<Rightarrow> mux_sys \<Rightarrow> MuxConn list" where
  "delivered_of i s = map snd (filter (\<lambda>d. fst d = i) (delivered s))"

definition hist_fifo :: "rpcMux \<Rightarrow> mux_sys \<Rightarrow> bool" where
  "hist_fifo m s \<longleftrightarrow> (\<forall>i < length (sls m). taken s i @ ch_buf (chan (mux s) i) = sent s i)"

definition hist_deliv :: "rpcMux \<Rightarrow> mux_sys \<Rightarrow> bool" where
  "hist_deliv m s \<longleftrightarrow> (\<forall>i. subseq (delivered_of i s) (taken s i)
     \<and> (n_closed (length (sls m)) (main s) \<le> i \<longrightarrow> delivered_of i s = taken s i))"

definition routed :: "rpcMux \<Rightarrow> net_conn list \<Rightarrow> nat \<Rightarrow> MuxConn \<Rightarrow> bool" where
  "routed m conns i muc \<longleftrightarrow> (\<exists>c \<in> set conns. \<exists>now. serve m now c = Some (Enqueue i muc))"

definition hist_route :: "rpcMux \<Rightarrow> mux_sys \<Rightarrow> bool" where
  "hist_route m s \<longleftrightarrow>
     (\<forall>c. Started c \<in> set (gos s) \<longrightarrow> c \<in> set (accepted s))
     \<and> (\<forall>i muc. Selecting i muc \<in> set (gos s) \<longrightarrow> routed m (accepted s) i muc)
     \<and> (\<forall>i. \<forall>muc \<in> set (sent s i). routed m (accepted s) i muc)"

lemma hist_start:
  "configured m \<Longrightarrow> hist_fifo m (mux_start m) \<and> hist_deliv m (mux_start m) \<and> hist_route m (mux_start m)"
  using configured_chan [of m]
  by (simp add: hist_fifo_def hist_deliv_def hist_route_def mux_start_def delivered_of_def)

text \<open>Each step leaves a channel and its history alone or performs one channel operation.\<close>

lemmas chan_history = go_chan.history

lemma hist_fifo_main: "main_step s t \<Longrightarrow> mux_ctl m s \<Longrightarrow> hist_fifo m s \<Longrightarrow> hist_fifo m t"
proof (induction rule: main_step.induct)
  case (close_connc s err i ch)
  note len = mux_ctl_length [OF close_connc.prems(1)]
  have "taken s i @ ch_buf ch = sent s i"
    using chan_history(3) [OF close_connc.hyps(3)] close_connc.hyps(2) close_connc.prems len
    by (simp add: hist_fifo_def)
  with close_connc len show ?case by (simp add: hist_fifo_def chan_set_chan)
next
  case (drain_one s err i muc ch)
  have i: "i < length (sls m)" using drain_one by (simp add: mux_ctl_def)
  then have "(taken s i @ [muc]) @ ch_buf ch = sent s i"
    using chan_history(2) [OF drain_one.hyps(2)] drain_one.prems by (simp add: hist_fifo_def)
  with drain_one i mux_ctl_length [OF drain_one.prems(1)] show ?case by (simp add: hist_fifo_def chan_set_chan)
qed (simp_all add: hist_fifo_def)

lemma hist_fifo_go: "go_step s t \<Longrightarrow> mux_ctl m s \<Longrightarrow> hist_fifo m s \<Longrightarrow> hist_fifo m t"
proof (induction rule: go_step.induct)
  case (go_send s xs i muc ys ch)
  have i: "i < length (sls m)" using go_send by (auto simp: mux_ctl_def)
  then have "taken s i @ ch_buf ch = sent s i @ [muc]"
    using chan_history(1) [OF go_send.hyps(2)] go_send.prems by (simp add: hist_fifo_def)
  with go_send i mux_ctl_length [OF go_send.prems(1)] show ?case by (simp add: hist_fifo_def chan_set_chan)
qed (simp_all add: hist_fifo_def)

lemma hist_fifo_client: "client_step s t \<Longrightarrow> mux_ctl m s \<Longrightarrow> hist_fifo m s \<Longrightarrow> hist_fifo m t"
proof (induction rule: client_step.induct)
  case (client_accepts i s muc l)
  note len = mux_ctl_length [OF client_accepts.prems(1)]
  from client_accepts have "chan_recv (chan (mux s) i) = Proceeds (Some muc, connc l)"
    by (auto simp: muxListener_Accept_eq)
  from chan_history(2) [OF this] have "(taken s i @ [muc]) @ ch_buf (connc l) = sent s i"
    using client_accepts len by (simp add: hist_fifo_def)
  with client_accepts len show ?case by (simp add: hist_fifo_def chan_set_chan)
qed (simp_all add: hist_fifo_def)

lemma subseq_snoc: "subseq xs ys \<Longrightarrow> subseq xs (ys @ [y])"
  by (metis list_emb_Nil list_emb_append_mono append_Nil2)

lemma subseq_snoc_both: "subseq xs ys \<Longrightarrow> subseq (xs @ [y]) (ys @ [y])"
  by (rule list_emb_append_mono) simp_all

lemma hist_deliv_main: "main_step s t \<Longrightarrow> mux_ctl m s \<Longrightarrow> hist_deliv m s \<Longrightarrow> hist_deliv m t"
proof (induction rule: main_step.induct)
  case (drain_one s err i muc ch)
  then show ?case by (auto simp: hist_deliv_def delivered_of_def subseq_snoc)
next
  case (serve_returns s err i)
  then show ?case by (auto simp: hist_deliv_def delivered_of_def mux_ctl_def dest!: mux_ctl_length)
qed (auto simp: hist_deliv_def delivered_of_def)

lemma hist_deliv_go: "go_step s t \<Longrightarrow> hist_deliv m s \<Longrightarrow> hist_deliv m t"
  by (induction rule: go_step.induct) (simp_all add: hist_deliv_def delivered_of_def)

lemma hist_deliv_client: "client_step s t \<Longrightarrow> hist_deliv m s \<Longrightarrow> hist_deliv m t"
  by (induction rule: client_step.induct)
    (auto simp: hist_deliv_def delivered_of_def subseq_snoc_both)

lemma routed_snoc: "routed m conns i muc \<Longrightarrow> routed m (conns @ [c]) i muc"
  by (auto simp: routed_def)

lemma hist_route_main: "main_step s t \<Longrightarrow> hist_route m s \<Longrightarrow> hist_route m t"
  by (induction rule: main_step.induct) (auto simp: hist_route_def intro: routed_snoc)

lemma hist_route_go: "go_step s t \<Longrightarrow> mux_ctl m s \<Longrightarrow> hist_route m s \<Longrightarrow> hist_route m t"
proof (induction rule: go_step.induct)
  case (go_matched s xs c ys now i muc)
  then have "serve m now c = Some (Enqueue i muc)"
    using serve_cong [of "mux s" m now c] by (simp add: mux_ctl_def)
  moreover have "c \<in> set (accepted s)"
    using go_matched by (simp add: hist_route_def)
  ultimately have "routed m (accepted s) i muc" by (auto simp: routed_def)
  with go_matched show ?case by (auto simp: hist_route_def)
qed (auto simp: hist_route_def)

lemma hist_route_client: "client_step s t \<Longrightarrow> hist_route m s \<Longrightarrow> hist_route m t"
  by (induction rule: client_step.induct) (auto simp: hist_route_def)

definition mux_hist :: "rpcMux \<Rightarrow> mux_sys \<Rightarrow> bool" where
  "mux_hist m s \<longleftrightarrow> mux_ctl m s \<and> hist_fifo m s \<and> hist_deliv m s \<and> hist_route m s"

interpretation hist: transition_system "\<lambda>s. s = mux_start m \<and> configured m" mux_step "mux_hist m" for m
proof (unfold_locales, goal_cases)
  case (1 s)
  then show ?case by (auto simp: mux_hist_def hist_start mux_ctl_start)
next
  case (2 s t)
  then have "mux_ctl m t" by (auto simp: mux_hist_def intro: ctl.step_inv)
  with 2 show ?case
    unfolding mux_hist_def step_defs
    by (auto intro: hist_fifo_main hist_fifo_go hist_fifo_client hist_deliv_main hist_deliv_go
        hist_deliv_client hist_route_main hist_route_go hist_route_client)
qed

lemma mux_hist_reach: "configured m \<Longrightarrow> mux_step\<^sup>*\<^sup>* (mux_start m) s \<Longrightarrow> mux_hist m s"
  by (rule hist.steps_inv) (auto simp: mux_hist_def hist_start mux_ctl_start)

section \<open>Conservation of connections\<close>

text \<open>
  A connection is followed by its identity and by how often it has been closed: where the
  multiplexer still owns it or has handed it on, as often as when it was accepted; where it
  has dropped it, once more.
\<close>

definition conn_key :: "net_conn \<Rightarrow> nat \<times> nat" where
  "conn_key c = (c_id c, c_closed c)"

definition dropped_key :: "net_conn \<Rightarrow> nat \<times> nat" where
  "dropped_key c = (c_id c, c_closed c - 1)"

fun go_keys :: "go_pc \<Rightarrow> (nat \<times> nat) multiset" where
  "go_keys (Started c) = {#conn_key c#}"
| "go_keys (Selecting i muc) = {#conn_key (source muc)#}"
| "go_keys (Handling err) = {#}"

definition chan_keys :: "MuxConn channel \<Rightarrow> (nat \<times> nat) multiset" where
  "chan_keys ch = image_mset (conn_key \<circ> source) (mset (ch_buf ch))"

definition queued_keys :: "rpcMux \<Rightarrow> (nat \<times> nat) multiset" where
  "queued_keys m = (\<Sum>i < length (sls m). chan_keys (chan m i))"

definition mux_conserved :: "mux_sys \<Rightarrow> bool" where
  "mux_conserved s \<longleftrightarrow>
     image_mset conn_key (mset (accepted s)) =
       (\<Sum>g \<in># mset (gos s). go_keys g) + queued_keys (mux s)
       + image_mset (conn_key \<circ> source \<circ> snd) (mset (delivered s))
       + image_mset dropped_key (mset (dropped s))
     \<and> (\<forall>d \<in> set (dropped s). 0 < c_closed d)"

text \<open>
  What the registered matchers must respect: they touch the connection by reading through
  the sniffing reader and writing to the connection only.
\<close>

definition matcher_ok :: "MatchWriter \<Rightarrow> bool" where
  "matcher_ok mw \<longleftrightarrow>
     (\<forall>s b t. br_inv (\<lambda>_. True) s \<longrightarrow> mw s = Some (b, t) \<longrightarrow> mux_access\<^sup>*\<^sup>* s t)"

definition matchers_ok :: "rpcMux \<Rightarrow> bool" where
  "matchers_ok m \<longleftrightarrow> (\<forall>sl \<in> set (sls m). \<forall>mw \<in> set (ss sl). matcher_ok mw)"

lemma try_matchers_same:
  "\<forall>mw \<in> set mws. matcher_ok mw \<Longrightarrow> try_matchers mws s = Some (b, t) \<Longrightarrow>
     same_conn (source s) (source t)"
proof (induction mws arbitrary: s)
  case (Cons mw mws)
  then obtain b' u where u: "mw (startSniffing s) = Some (b', u)"
    and t: "if b' then t = doneSniffing u else try_matchers mws u = Some (b, t)"
    by (auto simp: run_matcher_eq split: option.splits if_splits)
  have "br_inv (\<lambda>_. True) (startSniffing s)"
    by (simp add: startSniffing_def br_inv_reset)
  with u Cons.prems(1) have "mux_access\<^sup>*\<^sup>* (startSniffing s) u"
    by (auto simp: matcher_ok_def)
  from mux_accesses_same [OF this] have "same_conn (source s) (source u)" by simp
  with t Cons.IH [of u] Cons.prems(1) show ?case
    by (auto split: if_splits intro: same_conn_trans)
qed simp

lemma try_listeners_same:
  "\<forall>sl \<in> set lns. \<forall>mw \<in> set (ss sl). matcher_ok mw \<Longrightarrow> try_listeners k lns s = Some (r, t) \<Longrightarrow>
     same_conn (source s) (source t)"
proof (induction lns arbitrary: s k)
  case (Cons sl lns)
  then obtain b u where u: "try_matchers (ss sl) s = Some (b, u)"
    and t: "if b then t = u else try_listeners (Suc k) lns u = Some (r, t)"
    by (auto split: option.splits bool.splits)
  from Cons.prems(1) have "same_conn (source s) (source u)"
    by (intro try_matchers_same [OF _ u]) simp
  with t Cons.IH [of "Suc k" u] Cons.prems(1) show ?case
    by (auto split: if_splits intro: same_conn_trans)
qed simp

lemma serve_same:
  assumes "matchers_ok m"
  shows "serve m now c = Some (Enqueue i muc) \<Longrightarrow> conn_key (source muc) = conn_key c"
    and "serve m now c = Some (Unmatched muc err) \<Longrightarrow>
      dropped_key (source muc) = conn_key c \<and> 0 < c_closed (source muc)"
proof -
  have "same_conn (serve_conn m now c) (source t)"
    if "try_listeners 0 (sls m) (newMuxConn (serve_conn m now c)) = Some (r, t)" for r t
    using try_listeners_same [OF _ that] assms by (simp add: matchers_ok_def newMuxConn_def)
  then show "serve m now c = Some (Enqueue i muc) \<Longrightarrow> conn_key (source muc) = conn_key c"
    and "serve m now c = Some (Unmatched muc err) \<Longrightarrow>
      dropped_key (source muc) = conn_key c \<and> 0 < c_closed (source muc)"
    by (auto simp: serve_eq same_conn_def conn_key_def dropped_key_def conn_close_def
        split: option.splits)
qed

lemma matchers_ok_cong: "map ss (sls m) = map ss (sls m') \<Longrightarrow> matchers_ok m \<longleftrightarrow> matchers_ok m'"
proof -
  have "matchers_ok m \<longleftrightarrow> (\<forall>mws \<in> set (map ss (sls m)). \<forall>mw \<in> set mws. matcher_ok mw)" for m
    by (simp add: matchers_ok_def)
  then show "map ss (sls m) = map ss (sls m') \<Longrightarrow> matchers_ok m \<longleftrightarrow> matchers_ok m'" by metis
qed

lemma queued_keys_set_chan:
  assumes "i < length (sls m)"
  shows "queued_keys (set_chan i ch m) + chan_keys (chan m i) = queued_keys m + chan_keys ch"
proof -
  have "queued_keys (set_chan i ch m) =
      chan_keys ch + (\<Sum>j \<in> {..< length (sls m)} - {i}. chan_keys (chan m j))"
    using assms by (simp add: queued_keys_def sum.remove [of _ i] chan_set_chan)
  moreover have "queued_keys m =
      chan_keys (chan m i) + (\<Sum>j \<in> {..< length (sls m)} - {i}. chan_keys (chan m j))"
    using assms by (simp add: queued_keys_def sum.remove [of _ i])
  ultimately show ?thesis by (simp add: ac_simps)
qed

lemma queued_keys_chan_ops:
  "i < length (sls m) \<Longrightarrow> chan_send muc (chan m i) = Proceeds ch \<Longrightarrow>
     queued_keys (set_chan i ch m) = add_mset (conn_key (source muc)) (queued_keys m)"
  "i < length (sls m) \<Longrightarrow> chan_recv (chan m i) = Proceeds (Some muc, ch) \<Longrightarrow>
     queued_keys m = add_mset (conn_key (source muc)) (queued_keys (set_chan i ch m))"
  "i < length (sls m) \<Longrightarrow> chan_close (chan m i) = Proceeds ch \<Longrightarrow>
     queued_keys (set_chan i ch m) = queued_keys m"
  using queued_keys_set_chan [of i m ch]
  by (auto simp: chan_eqs chan_keys_def)

lemma dropped_key_close [simp]: "dropped_key (conn_close c) = conn_key c"
  by (simp add: dropped_key_def conn_key_def conn_close_def)

lemma c_closed_close [simp]: "0 < c_closed (conn_close c)"
  by (simp add: conn_close_def)

lemma queued_keys_same [simp]:
  "queued_keys (m\<lparr>donec := d\<rparr>) = queued_keys m" "queued_keys (m\<lparr>root_closed := b\<rparr>) = queued_keys m"
  by (simp_all add: queued_keys_def)

lemma mux_conserved_main: "main_step s t \<Longrightarrow> mux_ctl m s \<Longrightarrow> mux_conserved s \<Longrightarrow> mux_conserved t"
proof (induction rule: main_step.induct)
  case (close_connc s err i ch)
  from queued_keys_chan_ops(3) [OF close_connc.hyps(2,3)] close_connc.prems
  show ?case by (simp add: mux_conserved_def)
next
  case (drain_one s err i muc ch)
  have "i < length (sls (mux s))"
    using drain_one mux_ctl_length [OF drain_one.prems(1)] by (simp add: mux_ctl_def)
  from queued_keys_chan_ops(2) [OF this drain_one.hyps(2)] drain_one.prems
  show ?case by (simp add: mux_conserved_def)
qed (simp_all add: mux_conserved_def)

lemma mux_conserved_go:
  "go_step s t \<Longrightarrow> matchers_ok m \<Longrightarrow> mux_ctl m s \<Longrightarrow> mux_conserved s \<Longrightarrow> mux_conserved t"
proof (induction rule: go_step.induct)
  case (go_matched s xs c ys now i muc)
  then have "matchers_ok (mux s)" using matchers_ok_cong [of "mux s" m] by (simp add: mux_ctl_def)
  from serve_same(1) [OF this go_matched.hyps(2)] go_matched show ?case
    by (simp add: mux_conserved_def)
next
  case (go_unmatched s xs c ys now muc err)
  then have "matchers_ok (mux s)" using matchers_ok_cong [of "mux s" m] by (simp add: mux_ctl_def)
  from serve_same(2) [OF this go_unmatched.hyps(2)] go_unmatched show ?case
    by (auto simp: mux_conserved_def)
next
  case (go_send s xs i muc ys ch)
  have "i < length (sls (mux s))"
    using go_send mux_ctl_length [OF go_send.prems(2)] by (auto simp: mux_ctl_def)
  from queued_keys_chan_ops(1) [OF this go_send.hyps(2)] go_send
  show ?case by (simp add: mux_conserved_def)
qed (auto simp: mux_conserved_def)

lemma mux_conserved_client: "client_step s t \<Longrightarrow> mux_conserved s \<Longrightarrow> mux_conserved t"
proof (induction rule: client_step.induct)
  case (client_accepts i s muc l)
  from client_accepts have "chan_recv (chan (mux s) i) = Proceeds (Some muc, connc l)"
    by (auto simp: muxListener_Accept_eq)
  from queued_keys_chan_ops(2) [OF client_accepts.hyps(1) this] client_accepts.prems
  show ?case by (simp add: mux_conserved_def)
qed (simp_all add: mux_conserved_def)

lemma mux_conserved_start: "configured m \<Longrightarrow> mux_conserved (mux_start m)"
  using configured_chan [of m]
  by (simp add: mux_conserved_def mux_start_def queued_keys_def chan_keys_def)

interpretation conserved: transition_system
    "\<lambda>s. s = mux_start m \<and> configured m" mux_step
    "\<lambda>s. matchers_ok m \<longrightarrow> mux_ctl m s \<and> mux_conserved s" for m
proof (unfold_locales, goal_cases)
  case (1 s)
  then show ?case by (auto simp: mux_conserved_start mux_ctl_start)
next
  case (2 s t)
  show ?case
  proof
    assume ok: "matchers_ok m"
    with 2 have s: "mux_ctl m s" "mux_conserved s" by auto
    then have "mux_ctl m t" using 2(1) by (auto intro: ctl.step_inv)
    moreover have "mux_conserved t"
      using 2(1) ok s unfolding step_defs
      by (auto intro: mux_conserved_main mux_conserved_go mux_conserved_client)
    ultimately show "mux_ctl m t \<and> mux_conserved t" ..
  qed
qed

lemma mux_conserved_reach:
  "configured m \<Longrightarrow> matchers_ok m \<Longrightarrow> mux_step\<^sup>*\<^sup>* (mux_start m) s \<Longrightarrow> mux_conserved s"
  using conserved.steps_inv [of "mux_start m" s m] by (auto simp: mux_conserved_start mux_ctl_start)

text \<open>Such matchers leave the handler the whole stream, on a faulty connection too.\<close>

lemma try_matchers_total:
  "\<forall>mw \<in> set mws. matcher_ok mw \<Longrightarrow> try_matchers mws s = Some (b, t) \<Longrightarrow>
     br_total conn_pend t = br_total conn_pend s \<and>
     (b \<longrightarrow> br_pend conn_pend t = br_total conn_pend s)"
proof (induction mws arbitrary: s)
  case (Cons mw mws)
  then obtain b' u where u: "mw (startSniffing s) = Some (b', u)"
    and t: "if b' then b \<and> t = doneSniffing u else try_matchers mws u = Some (b, t)"
    by (auto simp: run_matcher_eq split: option.splits if_splits)
  have "br_inv (\<lambda>_. True) (startSniffing s)"
    by (simp add: startSniffing_def br_inv_reset)
  with u Cons.prems(1) have "mux_access\<^sup>*\<^sup>* (startSniffing s) u"
    by (auto simp: matcher_ok_def)
  then have "br_total conn_pend u = br_total conn_pend s"
    by (intro sniff_session_total) (simp add: sniff_session_def)
  with t Cons.IH [of u] Cons.prems(1) show ?case by (auto split: if_splits)
qed simp

lemma try_listeners_total:
  "\<forall>sl \<in> set lns. \<forall>mw \<in> set (ss sl). matcher_ok mw \<Longrightarrow> try_listeners k lns s = Some (r, t) \<Longrightarrow>
     br_total conn_pend t = br_total conn_pend s \<and>
     (r \<noteq> None \<longrightarrow> br_pend conn_pend t = br_total conn_pend s)"
proof (induction lns arbitrary: s k)
  case (Cons sl lns)
  then obtain b u where u: "try_matchers (ss sl) s = Some (b, u)"
    and t: "if b then t = u \<and> r = Some k else try_listeners (Suc k) lns u = Some (r, t)"
    by (auto split: option.splits bool.splits)
  from Cons.prems(1) try_matchers_total [OF _ u]
  have "br_total conn_pend u = br_total conn_pend s"
    and "b \<longrightarrow> br_pend conn_pend u = br_total conn_pend s" by simp_all
  with t Cons.IH [of "Suc k" u] Cons.prems(1) show ?case by (auto split: if_splits)
qed simp

lemma serve_stream:
  assumes "matchers_ok m" and "serve m now c = Some (Enqueue i muc)"
  shows "br_pend conn_pend muc = conn_pend c"
proof -
  obtain t where t: "try_listeners 0 (sls m) (newMuxConn (serve_conn m now c)) = Some (Some i, t)"
    and muc: "br_pend conn_pend muc = br_pend conn_pend t"
    using assms(2) by (auto simp: serve_eq br_pend_on_conn split: option.splits)
  from assms(1) try_listeners_total [OF _ t] muc show ?thesis
    by (simp add: matchers_ok_def)
qed

section \<open>The shutdown\<close>

text \<open>
  A measure that every step of \<open>Serve\<close> and its goroutines decreases once the accept loop
  has ended: what each goroutine and each queued connection may still do, and how far
  \<open>Serve\<close> is from returning.
\<close>

fun go_work :: "go_pc \<Rightarrow> nat" where
  "go_work (Started c) = 4"
| "go_work (Selecting i muc) = 3"
| "go_work (Handling err) = 1"

fun main_work :: "nat \<Rightarrow> serve_pc \<Rightarrow> nat" where
  "main_work n Accepting = 2 * n + 5"
| "main_work n (Deferred _) = 2 * n + 4"
| "main_work n (Waiting _) = 2 * n + 3"
| "main_work n (Closing _ i) = 2 * (n - i) + 1"
| "main_work n (Draining _ i) = 2 * (n - i)"
| "main_work n (Returned _) = 0"

definition queued :: "rpcMux \<Rightarrow> nat" where
  "queued m = (\<Sum>i < length (sls m). length (ch_buf (chan m i)))"

definition shutdown_work :: "mux_sys \<Rightarrow> nat" where
  "shutdown_work s =
     (\<Sum>g \<leftarrow> gos s. go_work g) + queued (mux s) + main_work (length (sls (mux s))) (main s)"

lemma queued_set_chan:
  assumes "i < length (sls m)"
  shows "queued (set_chan i ch m) + length (ch_buf (chan m i)) = queued m + length (ch_buf ch)"
proof -
  have "queued (set_chan i ch m) =
      length (ch_buf ch) + (\<Sum>j \<in> {..< length (sls m)} - {i}. length (ch_buf (chan m j)))"
    using assms by (simp add: queued_def sum.remove [of _ i] chan_set_chan)
  moreover have "queued m = length (ch_buf (chan m i))
      + (\<Sum>j \<in> {..< length (sls m)} - {i}. length (ch_buf (chan m j)))"
    using assms by (simp add: queued_def sum.remove [of _ i])
  ultimately show ?thesis by simp
qed

lemma queued_same [simp]:
  "queued (m\<lparr>donec := d\<rparr>) = queued m" "queued (m\<lparr>root_closed := b\<rparr>) = queued m"
  by (simp_all add: queued_def)

lemma main_step_work:
  "main_step s t \<Longrightarrow> main s \<noteq> Accepting \<Longrightarrow> mux_ctl m s \<Longrightarrow> shutdown_work t < shutdown_work s"
proof (induction rule: main_step.induct)
  case (close_donec_panics s err)
  then show ?case by (simp add: mux_ctl_def chan_eqs)
next
  case (close_connc s err i ch)
  from queued_set_chan [OF close_connc.hyps(2), of ch] close_connc show ?case
    by (simp add: shutdown_work_def chan_eqs)
next
  case (close_connc_panics s err i)
  then have "\<not> panicked (s\<lparr>panicked := True\<rparr>)"
    using mux_ctl_main [OF main_step.close_connc_panics [OF close_connc_panics.hyps], of m]
    by (simp add: mux_ctl_def)
  then show ?case by simp
next
  case (drain_one s err i muc ch)
  have "i < length (sls (mux s))"
    using drain_one mux_ctl_length [OF drain_one.prems(2)] by (simp add: mux_ctl_def)
  from queued_set_chan [OF this, of ch] drain_one show ?case
    by (auto simp: shutdown_work_def chan_eqs)
next
  case (drain_end s err i ch)
  have "i < length (sls (mux s))"
    using drain_end mux_ctl_length [OF drain_end.prems(2)] by (simp add: mux_ctl_def)
  with drain_end show ?case by (simp add: shutdown_work_def)
qed (simp_all add: shutdown_work_def)

lemma go_step_work: "go_step s t \<Longrightarrow> mux_ctl m s \<Longrightarrow> shutdown_work t < shutdown_work s"
proof (induction rule: go_step.induct)
  case (go_send s xs i muc ys ch)
  have "i < length (sls (mux s))"
    using go_send mux_ctl_length [OF go_send.prems] by (auto simp: mux_ctl_def)
  from queued_set_chan [OF this, of ch] go_send show ?case
    by (auto simp: shutdown_work_def chan_eqs)
next
  case (go_send_panics s xs i muc ys)
  then have "\<not> panicked (s\<lparr>panicked := True\<rparr>)"
    using mux_ctl_go [OF go_step.go_send_panics [OF go_send_panics.hyps] go_send_panics.prems]
    by (simp add: mux_ctl_def)
  then show ?case by simp
qed (simp_all add: shutdown_work_def)

lemma client_step_work: "client_step s t \<Longrightarrow> shutdown_work t \<le> shutdown_work s"
proof (induction rule: client_step.induct)
  case (client_accepts i s muc l)
  then have "chan_recv (chan (mux s) i) = Proceeds (Some muc, connc l)"
    by (auto simp: muxListener_Accept_eq)
  then show ?case
    using queued_set_chan [OF client_accepts.hyps(1), of "connc l"]
    by (auto simp: shutdown_work_def chan_eqs)
qed (simp_all add: shutdown_work_def)

text \<open>
  A matcher that does not loop for ever. On a connection on which every read returns, a
  multiplexer of such matchers gets to the end of \<open>serve\<close>.
\<close>

definition matcher_returns :: "MatchWriter \<Rightarrow> bool" where
  "matcher_returns mw \<longleftrightarrow> (\<forall>s. br_inv (\<lambda>_. True) s \<longrightarrow> mw s \<noteq> None)"

definition matchers_return :: "rpcMux \<Rightarrow> bool" where
  "matchers_return m \<longleftrightarrow> (\<forall>sl \<in> set (sls m). \<forall>mw \<in> set (ss sl). matcher_returns mw)"

lemma mux_access_returns:
  assumes "mux_access s t" and "reads_return (source s)"
  shows "reads_return (source t)"
proof -
  have "reads_return (source t)" if read: "bufferedReader_Read conn_read s n = (r, t)" for n r
  proof (cases "bufferRead s < bufferSize s")
    case True
    with read assms(2) show ?thesis by (auto simp: Read_replay)
  next
    case False
    obtain bs e src where src: "conn_read (source s) n = ((bs, e), src)" by (metis surj_pair)
    from conn_read_returns [OF src assms(2)] Read_source [of s conn_read n, OF False src] read
    show ?thesis by auto
  qed
  with assms show ?thesis
    unfolding mux_access_def read_step_def by (auto simp: conn_write_def reads_return_def)
qed

lemma mux_accesses_return: "mux_access\<^sup>*\<^sup>* s t \<Longrightarrow> reads_return (source s) \<Longrightarrow> reads_return (source t)"
  by (induction rule: rtranclp_induct) (auto intro: mux_access_returns)

lemma run_matcher_returns:
  assumes "matcher_ok mw" and "matcher_returns mw" and "reads_return (source s)"
  obtains b t where "run_matcher mw (startSniffing s) = Some (b, t)" and "reads_return (source t)"
proof -
  have inv: "br_inv (\<lambda>_. True) (startSniffing s)" by (simp add: startSniffing_def br_inv_reset)
  with assms(2) obtain b t where t: "mw (startSniffing s) = Some (b, t)"
    unfolding matcher_returns_def by fastforce
  with assms(1) inv have "mux_access\<^sup>*\<^sup>* (startSniffing s) t" by (auto simp: matcher_ok_def)
  with assms(3) mux_accesses_return have "reads_return (source t)" by fastforce
  with t that show thesis by (auto simp: run_matcher_eq reads_return_def)
qed

lemma try_matchers_return:
  "\<forall>mw \<in> set mws. matcher_ok mw \<and> matcher_returns mw \<Longrightarrow> reads_return (source s) \<Longrightarrow>
     \<exists>b t. try_matchers mws s = Some (b, t) \<and> reads_return (source t)"
proof (induction mws arbitrary: s)
  case (Cons mw mws)
  obtain b t where "run_matcher mw (startSniffing s) = Some (b, t)" "reads_return (source t)"
    using Cons.prems by (auto elim: run_matcher_returns)
  with Cons show ?case by (cases b) auto
qed auto

lemma try_listeners_return:
  "\<forall>sl \<in> set lns. \<forall>mw \<in> set (ss sl). matcher_ok mw \<and> matcher_returns mw \<Longrightarrow> reads_return (source s) \<Longrightarrow>
     \<exists>r. try_listeners k lns s = Some r"
proof (induction lns arbitrary: k s)
  case (Cons sl lns)
  with try_matchers_return [of "ss sl" s] show ?case by (fastforce split: bool.split)
qed simp

lemma serve_total:
  assumes "matchers_ok m" and "matchers_return m" and "reads_return (serve_conn m now c)"
  shows "serve m now c \<noteq> None"
  using try_listeners_return [of "sls m" "newMuxConn (serve_conn m now c)" 0] assms
  by (auto simp: serve_eq matchers_ok_def matchers_return_def newMuxConn_def split: option.splits)

text \<open>Once \<open>donec\<close> is closed nothing blocks, if the matching of the connections returns.\<close>

definition matching_returns :: "rpcMux \<Rightarrow> mux_sys \<Rightarrow> bool" where
  "matching_returns m s \<longleftrightarrow> (\<forall>c now. Started c \<in> set (gos s) \<longrightarrow> serve m now c \<noteq> None)"

lemma go_progress:
  assumes "g \<in> set (gos s)" and "mux_ctl m s" and "matching_returns m s"
    and "\<not> donec_open (main s)"
  shows "\<exists>t. go_step s t"
proof -
  from assms(1) obtain xs ys where gos: "gos s = xs @ g # ys" by (auto simp: in_set_conv_decomp)
  show ?thesis
  proof (cases g)
    case (Started c)
    have "serve (mux s) 0 c \<noteq> None"
      using assms Started serve_cong [of "mux s" m 0 c] by (simp add: mux_ctl_def matching_returns_def)
    then obtain r where "serve (mux s) 0 c = Some r" by auto
    with gos Started show ?thesis
      by (cases r) (blast intro: go_matched go_unmatched)+
  next
    case (Selecting i muc)
    have "chan_recv (donec (mux s)) = Proceeds (None, donec (mux s))"
      using assms(2,4) by (simp add: mux_ctl_def chan_eqs)
    with gos Selecting show ?thesis by (blast intro: go_donec)
  next
    case (Handling err)
    with gos show ?thesis by (blast intro: go_handled)
  qed
qed

lemma main_progress:
  assumes "mux_ctl m s" and "gos s = []" and "main s \<noteq> Accepting" and "\<nexists>err. main s = Returned err"
  shows "\<exists>t. main_step s t"
proof (cases "main s")
  case (Deferred err)
  then have "\<not> ch_closed (donec (mux s))" using assms(1) by (simp add: mux_ctl_def)
  then have "chan_close (donec (mux s)) = Proceeds (donec (mux s)\<lparr>ch_closed := True\<rparr>)"
    by (simp add: chan_eqs)
  with Deferred show ?thesis by (blast intro: close_donec)
next
  case (Waiting err)
  with assms(1,2) show ?thesis by (auto simp: mux_ctl_def intro: wait_done)
next
  case (Closing err i)
  show ?thesis
  proof (cases "i < length (sls (mux s))")
    case True
    show ?thesis
      using close_connc [OF Closing True] close_connc_panics [OF Closing True]
      by (cases "chan_close (chan (mux s) i)") (auto simp: chan_eqs)
  next
    case False
    with Closing show ?thesis by (blast intro: serve_returns)
  qed
next
  case (Draining err i)
  then have "ch_closed (chan (mux s) i)" using assms(1) by (simp add: mux_ctl_def)
  then have "\<exists>r ch. chan_recv (chan (mux s) i) = Proceeds (r, ch)"
    by (auto simp: chan_recv_def split: list.split)
  then obtain r ch where "chan_recv (chan (mux s) i) = Proceeds (r, ch)" by blast
  with Draining show ?thesis by (cases r) (blast intro: drain_one drain_end)+
qed (use assms in auto)

lemma shutdown_progress:
  assumes "mux_ctl m s" and "matching_returns m s" and "main s \<noteq> Accepting"
    and "\<nexists>err. main s = Returned err"
  shows "\<exists>t. serve_step s t"
proof (cases "gos s")
  case Nil
  from main_progress [OF assms(1) Nil assms(3,4)] show ?thesis by (auto simp: serve_step_def)
next
  case (Cons g gs)
  show ?thesis
  proof (cases "main s")
    case (Deferred err)
    then have "chan_close (donec (mux s)) = Proceeds (donec (mux s)\<lparr>ch_closed := True\<rparr>)"
      using assms(1) by (simp add: mux_ctl_def chan_eqs)
    with Deferred show ?thesis by (auto simp: serve_step_def intro: close_donec)
  next
    case (Waiting err)
    then have "\<not> donec_open (main s)" by simp
    from go_progress [OF _ assms(1,2) this, of g] Cons show ?thesis
      by (auto simp: serve_step_def)
  qed (use assms Cons in \<open>auto simp: mux_ctl_def\<close>)
qed

text \<open>The prefix and TLS matchers of the repository are such matchers, on any connection.\<close>

lemma tree_matcher_qualifies:
  "matcher_ok (Tree_matchPrefix (bufferedReader_Read conn_read) tr)
   \<and> matcher_returns (Tree_matchPrefix (bufferedReader_Read conn_read) tr)"
proof -
  have "\<exists>b t. Tree_matchPrefix (bufferedReader_Read conn_read) tr s = Some (b, t) \<and> mux_access\<^sup>*\<^sup>* s t"
    if inv: "br_inv (\<lambda>_. True) s" for s
  proof -
    obtain bs e t where "readFull (bufferedReader_Read conn_read) (maxDepth tr) s = Some ((bs, e), t)"
      and "reads (bufferedReader_Read conn_read) s t"
      by (rule mux_conn.readFull_returns [OF inv])
    then show ?thesis by (auto simp: Tree_matchPrefix_def intro: reads_mux_access)
  qed
  then show ?thesis unfolding matcher_ok_def matcher_returns_def by fastforce
qed

lemma prefix_matchers_qualify:
  "matcher_ok (PrefixMatcher (bufferedReader_Read conn_read) strs)"
  "matcher_returns (PrefixMatcher (bufferedReader_Read conn_read) strs)"
  "matcher_ok (TLS (bufferedReader_Read conn_read) vs)"
  "matcher_returns (TLS (bufferedReader_Read conn_read) vs)"
  "matcher_ok Any" "matcher_returns Any"
  using tree_matcher_qualifies
  by (simp_all add: PrefixMatcher_def TLS_def prefixByteMatcher_def Let_def)
    (simp_all add: matcher_ok_def matcher_returns_def Any_def)

lemma sample_mux_qualifies: "matchers_ok sample_mux" "matchers_return sample_mux"
  using prefix_matchers_qualify
  by (simp_all add: matchers_ok_def matchers_return_def sample_mux_def SetReadTimeout_def Match_def
      MatchWithWriters_def New_def Let_def HTTP1Fast_def)

section \<open>What holds in every interleaving\<close>

text \<open>The run of the witnesses: one connection, delivered, and the shutdown after it.\<close>

definition any_mux :: rpcMux where
  "any_mux = snd (Match [Any] (New False))"

definition any_muc :: MuxConn where
  "any_muc = doneSniffing (startSniffing (newMuxConn sample_conn))"

definition any_done :: mux_sys where
  "any_done = \<lparr>mux = any_mux\<lparr>donec := \<lparr>ch_buf = [], ch_cap = 0, ch_closed = True\<rparr>,
       sls := [\<lparr>ss = [Any], ml_l = \<lparr>connc = \<lparr>ch_buf = [], ch_cap = 1024, ch_closed = True\<rparr>\<rparr>\<rparr>]\<rparr>,
     main = Returned (OtherError ''closed''), gos = [], wg = 0, panicked = False,
     accepted = [sample_conn], sent = (\<lambda>_. [])(0 := [any_muc]), taken = (\<lambda>_. [])(0 := [any_muc]),
     delivered = [(0, any_muc)], dropped = []\<rparr>"

definition any_failed :: mux_sys where
  "any_failed = (mux_start any_mux)\<lparr>accepted := [sample_conn], sent := (\<lambda>_. [])(0 := [any_muc]),
     taken := (\<lambda>_. [])(0 := [any_muc]), delivered := [(0, any_muc)],
     main := Deferred (OtherError ''closed'')\<rparr>"

lemma any_mux_configured: "configured any_mux"
  unfolding any_mux_def by (intro configured.intros)

lemma any_mux_eq:
  "any_mux = \<lparr>root_closed = False, bufLen = 1024, errh = (\<lambda>_. True),
     donec = \<lparr>ch_buf = [], ch_cap = 0, ch_closed = False\<rparr>,
     sls = [\<lparr>ss = [Any], ml_l = \<lparr>connc = \<lparr>ch_buf = [], ch_cap = 1024, ch_closed = False\<rparr>\<rparr>\<rparr>],
     readTimeout = 0\<rparr>"
  by (simp add: any_mux_def Match_def MatchWithWriters_def New_def make_chan_def noTimeout_def Let_def)

lemma any_mux_ok: "matchers_ok any_mux" "matchers_return any_mux"
  by (auto simp: any_mux_eq matchers_ok_def matcher_ok_def matchers_return_def matcher_returns_def Any_def)

lemma serve_any_mux: "serve any_mux 0 sample_conn = Some (Enqueue 0 any_muc)"
  by (simp add: any_mux_eq serve_def run_matcher_def noTimeout_def Any_def any_muc_def newMuxConn_def Let_def)

lemma step_mux_step:
  "main_step s t \<Longrightarrow> mux_step s t" "go_step s t \<Longrightarrow> mux_step s t" "client_step s t \<Longrightarrow> mux_step s t"
  by (simp_all add: step_defs)

lemmas mux_main_step = main_step.intros [THEN step_mux_step(1)]
lemmas mux_go_step = go_step.intros [THEN step_mux_step(2)]
lemmas mux_client_step = client_step.intros [THEN step_mux_step(3)]

lemma five_steps: "R a b \<Longrightarrow> R b c \<Longrightarrow> R c d \<Longrightarrow> R d e \<Longrightarrow> R e f \<Longrightarrow> R\<^sup>*\<^sup>* a f"
  by ((rule converse_rtranclp_into_rtranclp, assumption)+, rule rtranclp.rtrancl_refl)

lemma any_run_serves: "mux_step\<^sup>*\<^sup>* (mux_start any_mux) any_failed"
proof -
  let ?s0 = "mux_start any_mux"
  let ?s1 = "?s0\<lparr>gos := [Started sample_conn], wg := 1, accepted := [sample_conn]\<rparr>"
  let ?s2 = "?s1\<lparr>gos := [Selecting 0 any_muc]\<rparr>"
  let ?s3 = "?s2\<lparr>gos := [], wg := 0, sent := (\<lambda>_. [])(0 := [any_muc]),
    mux := set_chan 0 \<lparr>ch_buf = [any_muc], ch_cap = 1024, ch_closed = False\<rparr> any_mux\<rparr>"
  let ?s4 = "?s3\<lparr>mux := any_mux, taken := (\<lambda>_. [])(0 := [any_muc]), delivered := [(0, any_muc)]\<rparr>"
  have "mux_step ?s0 ?s1"
    using mux_main_step(1) [of ?s0 sample_conn] by (simp add: mux_start_def any_mux_eq)
  moreover have "mux_step ?s1 ?s2"
    using mux_go_step(1) [of ?s1 "[]" sample_conn "[]" 0 0 any_muc] serve_any_mux
    by (simp add: mux_start_def)
  moreover have "mux_step ?s2 ?s3"
    using mux_go_step(3) [of ?s2 "[]" 0 any_muc "[]"]
    by (simp add: mux_start_def any_mux_eq chan_eqs)
  moreover have "mux_step ?s3 ?s4"
    using mux_client_step(1) [of 0 ?s3 any_muc]
    by (simp add: mux_start_def any_mux_eq set_chan_def muxListener_Accept_eq chan_eqs)
  moreover have "mux_step ?s4 any_failed"
    using mux_main_step(3) [of ?s4 "OtherError ''closed''"]
    by (simp add: mux_start_def any_failed_def handleErr_def accept_error_def) (simp add: any_mux_eq)
  ultimately show ?thesis by (rule five_steps)
qed

lemma any_run_stops: "mux_step\<^sup>*\<^sup>* any_failed any_done"
proof -
  let ?e = "OtherError ''closed''"
  let ?d = "\<lparr>ch_buf = [], ch_cap = 0, ch_closed = True\<rparr>"
  let ?s1 = "any_failed\<lparr>main := Waiting ?e, mux := any_mux\<lparr>donec := ?d\<rparr>\<rparr>"
  let ?s2 = "?s1\<lparr>main := Closing ?e 0\<rparr>"
  let ?s3 = "?s2\<lparr>main := Draining ?e 0,
    mux := set_chan 0 \<lparr>ch_buf = [], ch_cap = 1024, ch_closed = True\<rparr> (any_mux\<lparr>donec := ?d\<rparr>)\<rparr>"
  let ?s4 = "?s3\<lparr>main := Closing ?e 1\<rparr>"
  have "mux_step any_failed ?s1"
    using mux_main_step(4) [of any_failed ?e ?d]
    by (simp add: any_failed_def mux_start_def any_mux_eq chan_eqs)
  moreover have "mux_step ?s1 ?s2"
    using mux_main_step(6) [of ?s1 ?e] by (simp add: any_failed_def mux_start_def)
  moreover have "mux_step ?s2 ?s3"
    using mux_main_step(7) [of ?s2 ?e 0]
    by (simp add: any_failed_def mux_start_def any_mux_eq chan_eqs)
  moreover have "mux_step ?s3 ?s4"
    using mux_main_step(10) [of ?s3 ?e 0]
    by (simp add: any_failed_def mux_start_def any_mux_eq set_chan_def chan_eqs)
  moreover have "mux_step ?s4 any_done"
    using mux_main_step(11) [of ?s4 ?e 1]
    by (simp add: any_failed_def any_done_def mux_start_def any_mux_eq set_chan_def)
  ultimately show ?thesis by (rule five_steps)
qed

lemma any_run: "mux_step\<^sup>*\<^sup>* (mux_start any_mux) any_done"
  using any_run_serves any_run_stops by (rule rtranclp_trans)

lemma delivered_bound_step:
  "mux_step s t \<Longrightarrow> mux_ctl m s \<Longrightarrow> \<forall>d \<in> set (delivered s). fst d < length (sls m) \<Longrightarrow>
     \<forall>d \<in> set (delivered t). fst d < length (sls m)"
proof -
  assume step: "mux_step s t" and ctl: "mux_ctl m s"
    and bound: "\<forall>d \<in> set (delivered s). fst d < length (sls m)"
  have "delivered t = delivered s" if "main_step s t \<or> go_step s t"
    using that by (auto elim: main_step.cases go_step.cases)
  moreover have "\<forall>d \<in> set (delivered t). fst d < length (sls m)" if "client_step s t"
    using that mux_ctl_length [OF ctl] bound by (cases rule: client_step.cases) auto
  ultimately show ?thesis using step bound by (auto simp: step_defs)
qed

lemma delivered_bound:
  assumes "configured m" and "mux_step\<^sup>*\<^sup>* (mux_start m) s"
  shows "\<forall>d \<in> set (delivered s). fst d < length (sls m)"
  using assms(2)
proof (induction rule: rtranclp_induct)
  case base
  show ?case by (simp add: mux_start_def)
next
  case (step s t)
  from delivered_bound_step [OF step(2) mux_ctl_reach [OF step(1) assms(1)] step(3)] show ?case .
qed

text \<open>The error \<open>Serve\<close> stops on is the one it returns.\<close>

fun stop_error :: "serve_pc \<Rightarrow> mux_error option" where
  "stop_error Accepting = None"
| "stop_error (Deferred err) = Some err"
| "stop_error (Waiting err) = Some err"
| "stop_error (Closing err _) = Some err"
| "stop_error (Draining err _) = Some err"
| "stop_error (Returned err) = Some err"

lemma mux_step_stop:
  assumes "mux_step s t" and "stop_error (main s) = Some err"
  shows "stop_error (main t) = Some err"
proof -
  have "main_step s t \<Longrightarrow> ?thesis" using assms(2) by (auto elim: main_step.cases)
  moreover have "go_step s t \<Longrightarrow> ?thesis" using assms(2) by (auto elim: go_step.cases)
  moreover have "client_step s t \<Longrightarrow> ?thesis" using assms(2) by (auto elim: client_step.cases)
  ultimately show ?thesis using assms(1) by (auto simp: step_defs)
qed

lemma mux_step_returned:
  assumes "mux_step s t" and "main s = Returned err"
  shows "main t = Returned err"
proof -
  have "main_step s t \<Longrightarrow> ?thesis" using assms(2) by (auto elim: main_step.cases)
  moreover have "go_step s t \<Longrightarrow> ?thesis" using assms(2) by (auto elim: go_step.cases)
  moreover have "client_step s t \<Longrightarrow> ?thesis" using assms(2) by (auto elim: client_step.cases)
  ultimately show ?thesis using assms(1) by (auto simp: step_defs)
qed

text \<open>The witnesses' facts about the two states of the run.\<close>

lemma any_done_sel [simp]:
  "main any_done = Returned (OtherError ''closed'')" "accepted any_done = [sample_conn]"
  "delivered any_done = [(0, any_muc)]" "dropped any_done = []" "panicked any_done = False"
  "length (sls (mux any_done)) = 1" "length (sls any_mux) = 1"
  by (simp_all add: any_done_def any_mux_eq)

theorem mux_never_panics_witness: "\<not> panicked any_done \<and> delivered any_done = [(0, any_muc)]"
  using mux_never_panics [OF any_mux_configured any_run] by simp

lemma delivered_routed:
  assumes "configured m" and "mux_step\<^sup>*\<^sup>* (mux_start m) s" and "(i, muc) \<in> set (delivered s)"
  shows "routed m (accepted s) i muc"
proof -
  from mux_hist_reach [OF assms(1,2)]
  have hist: "mux_ctl m s" "hist_fifo m s" "hist_deliv m s" "hist_route m s"
    by (simp_all add: mux_hist_def)
  from assms(3) have "muc \<in> set (delivered_of i s)" by (force simp: delivered_of_def)
  with hist(3) have taken: "muc \<in> set (taken s i)"
    by (auto simp: hist_deliv_def dest: list_emb_set)
  have "i < length (sls m)" using delivered_bound [OF assms(1,2)] assms(3) by force
  with hist(2) taken have "muc \<in> set (sent s i)"
    by (metis Un_iff hist_fifo_def set_append)
  with hist(4) show ?thesis by (simp add: hist_route_def)
qed

lemma delivers_routed_stream:
  assumes "configured m" and "matchers_ok m" and "mux_step\<^sup>*\<^sup>* (mux_start m) s"
    and "(i, muc) \<in> set (delivered s)"
  shows "\<exists>c \<in> set (accepted s). (\<exists>now. serve m now c = Some (Enqueue i muc))
    \<and> c_id (source muc) = c_id c \<and> br_pend conn_pend muc = conn_pend c"
proof -
  from delivered_routed [OF assms(1,3,4)] obtain c now
    where c: "c \<in> set (accepted s)" and s: "serve m now c = Some (Enqueue i muc)"
    by (auto simp: routed_def)
  from serve_stream [OF assms(2) s] serve_same(1) [OF assms(2) s] c s show ?thesis
    by (auto simp: conn_key_def)
qed

text \<open>
  C3. What a listener's \<open>Accept\<close> returns is a connection \<open>Serve\<close> accepted, for which
  \<open>serve\<close> chose this very listener, and its handler reads the connection's stream from
  the first byte, whatever the matchers looked at and whatever faults the connection has.
\<close>

theorem mux_delivers_routed:
  assumes "configured m" and "matchers_ok m" and "mux_step\<^sup>*\<^sup>* (mux_start m) s"
    and "(i, muc) \<in> set (delivered s)"
  shows "\<exists>c \<in> set (accepted s). (\<exists>now. serve m now c = Some (Enqueue i muc))
    \<and> c_id (source muc) = c_id c \<and> br_pend conn_pend muc = conn_pend c"
  by (rule delivers_routed_stream [OF assms])

theorem mux_delivers_routed_witness:
  "\<exists>c \<in> {sample_conn}. (\<exists>now. serve any_mux now c = Some (Enqueue 0 any_muc))
    \<and> br_pend conn_pend any_muc = conn_pend c"
  using mux_delivers_routed [OF any_mux_configured any_mux_ok(1) any_run, of 0 any_muc] by simp

text \<open>
  C15. Each listener gets its connections in the order they were queued for it: none twice,
  none out of order, and while no channel is closed, none skipped; the queue holds the rest.
\<close>

theorem mux_fifo:
  assumes "configured m" and "mux_step\<^sup>*\<^sup>* (mux_start m) s" and "i < length (sls m)"
  shows "subseq (delivered_of i s) (sent s i)
    \<and> (\<not> ch_closed (chan (mux s) i) \<longrightarrow> delivered_of i s @ ch_buf (chan (mux s) i) = sent s i)"
proof -
  from mux_hist_reach [OF assms(1,2)]
  have hist: "mux_ctl m s" "hist_fifo m s" "hist_deliv m s" by (simp_all add: mux_hist_def)
  from hist(2) assms(3) have sent: "taken s i @ ch_buf (chan (mux s) i) = sent s i"
    by (simp add: hist_fifo_def)
  have "subseq (delivered_of i s) (taken s i)" using hist(3) by (simp add: hist_deliv_def)
  then have "subseq (delivered_of i s) (taken s i @ ch_buf (chan (mux s) i))"
    using subseq_order.trans by fastforce
  moreover have "delivered_of i s = taken s i" if "\<not> ch_closed (chan (mux s) i)"
    using that hist(1,3) assms(3) by (simp add: mux_ctl_def hist_deliv_def)
  ultimately show ?thesis using sent by simp
qed

theorem mux_fifo_witness: "subseq (delivered_of 0 any_done) [any_muc]"
  using mux_fifo [OF any_mux_configured any_run, of 0] by (simp add: any_done_def)

lemma mux_conserved_returned:
  assumes "configured m" and "matchers_ok m" and "mux_step\<^sup>*\<^sup>* (mux_start m) s"
    and "main s = Returned err"
  shows "image_mset (\<lambda>c. (c_id c, c_closed c)) (mset (accepted s)) =
      image_mset (\<lambda>(i, muc). (c_id (source muc), c_closed (source muc))) (mset (delivered s))
      + image_mset (\<lambda>c. (c_id c, c_closed c - 1)) (mset (dropped s))
    \<and> (\<forall>c \<in> set (dropped s). 0 < c_closed c)"
proof -
  from mux_ctl_reach [OF assms(3,1)] have ctl: "mux_ctl m s" .
  then have "queued_keys (mux s) = {#}" and "gos s = []"
    using assms(4) mux_ctl_length [OF ctl] by (simp_all add: mux_ctl_def queued_keys_def chan_keys_def)
  then have kept: "image_mset conn_key (mset (accepted s)) =
      image_mset (conn_key \<circ> source \<circ> snd) (mset (delivered s))
      + image_mset dropped_key (mset (dropped s)) \<and> (\<forall>c \<in> set (dropped s). 0 < c_closed c)"
    using mux_conserved_reach [OF assms(1-3)] by (simp add: mux_conserved_def)
  have eq1: "conn_key = (\<lambda>c. (c_id c, c_closed c))"
    and eq2: "dropped_key = (\<lambda>c. (c_id c, c_closed c - 1))"
    and eq3: "conn_key \<circ> source \<circ> snd = (\<lambda>(i :: nat, muc). (c_id (source muc), c_closed (source muc)))"
    by (auto simp: conn_key_def dropped_key_def)
  from kept show ?thesis unfolding eq3 unfolding eq1 eq2 .
qed

text \<open>
  C1. No connection is lost or handled twice. When \<open>Serve\<close> has returned, the connections
  it accepted are exactly those the listeners delivered, not closed by the multiplexer, and
  those it closed, each once (a connection's key is its identity with its count of closes
  on acceptance).
\<close>

theorem mux_conserves:
  assumes "configured m" and "matchers_ok m" and "mux_step\<^sup>*\<^sup>* (mux_start m) s"
    and "main s = Returned err"
  shows "image_mset (\<lambda>c. (c_id c, c_closed c)) (mset (accepted s)) =
      image_mset (\<lambda>(i, muc). (c_id (source muc), c_closed (source muc))) (mset (delivered s))
      + image_mset (\<lambda>c. (c_id c, c_closed c - 1)) (mset (dropped s))
    \<and> (\<forall>c \<in> set (dropped s). 0 < c_closed c)"
  by (rule mux_conserved_returned [OF assms])

theorem mux_conserves_witness:
  "image_mset (\<lambda>c. (c_id c, c_closed c)) (mset [sample_conn]) =
     image_mset (\<lambda>(i, muc). (c_id (source muc), c_closed (source muc))) (mset [(0 :: nat, any_muc)])"
  using mux_conserves [OF any_mux_configured any_mux_ok(1) any_run, of "OtherError ''closed''"] by simp

text \<open>
  Once \<open>Serve\<close> has returned, \<open>Accept\<close> on every listener returns
  \<open>ErrListenerClosed\<close> at once, no connection and no blocking, in every later state too.
\<close>

theorem mux_accept_after_serve:
  assumes "configured m" and "mux_step\<^sup>*\<^sup>* (mux_start m) s" and "main s = Returned err"
    and "mux_step\<^sup>*\<^sup>* s t" and "i < length (sls m)"
  shows "muxListener_Accept (ml_l (sls (mux t) ! i)) =
    Proceeds (Inl ErrListenerClosed, ml_l (sls (mux t) ! i))"
proof -
  have "main t = Returned err"
    using assms(4,3)
  proof (induction rule: rtranclp_induct)
    case (step u v)
    then show ?case by (blast intro: mux_step_returned)
  qed
  moreover have "mux_ctl m t"
    using mux_ctl_reach [OF _ assms(1)] assms(2,4) by (meson rtranclp_trans)
  ultimately show ?thesis
    using assms(5) by (simp add: mux_ctl_def muxListener_Accept_eq chan_eqs)
qed

theorem mux_accept_after_serve_witness:
  "muxListener_Accept (ml_l (sls (mux any_done) ! 0)) =
    Proceeds (Inl ErrListenerClosed, \<lparr>connc = \<lparr>ch_buf = [], ch_cap = 1024, ch_closed = True\<rparr>\<rparr>)"
  using mux_accept_after_serve [OF any_mux_configured any_run, of "OtherError ''closed''" any_done 0]
  by (simp add: any_done_def any_mux_eq)

text \<open>
  C5. The shutdown ends. From the moment \<open>Serve\<close> leaves its loop with an error, in every
  interleaving with goroutines and clients: each step of \<open>Serve\<close> or a goroutine
  decreases the work that is left and no client can increase it; and there is such a step
  until \<open>Serve\<close> has returned that error, unless it waits for the matching of a connection
  that does not return.
\<close>

theorem mux_shutdown_ends:
  assumes "configured m" and "mux_step\<^sup>*\<^sup>* (mux_start m) s"
    and "main s = Deferred err" and "mux_step\<^sup>*\<^sup>* s t"
  shows "(\<forall>u. serve_step t u \<longrightarrow> shutdown_work u < shutdown_work t)
    \<and> (\<forall>u. client_step t u \<longrightarrow> shutdown_work u \<le> shutdown_work t)
    \<and> (matching_returns m t \<longrightarrow> main t = Returned err \<or> (\<exists>u. serve_step t u))"
proof -
  have stop: "stop_error (main t) = Some err"
    using assms(4,3) by (induction rule: rtranclp_induct) (auto intro: mux_step_stop)
  then have running: "main t \<noteq> Accepting" by auto
  have ctl: "mux_ctl m t"
    using mux_ctl_reach [OF _ assms(1)] assms(2,4) by (meson rtranclp_trans)
  have "matching_returns m t \<Longrightarrow> main t = Returned err \<or> (\<exists>u. serve_step t u)"
    using shutdown_progress [OF ctl _ running] stop by (cases "main t") auto
  with ctl running show ?thesis
    by (auto simp: serve_step_def intro: main_step_work go_step_work client_step_work)
qed

theorem mux_shutdown_ends_witness:
  "\<exists>u. serve_step any_failed u \<and> shutdown_work u < shutdown_work any_failed"
proof -
  have "main any_failed = Deferred (OtherError ''closed'')" by (simp add: any_failed_def)
  from mux_shutdown_ends [OF any_mux_configured any_run_serves this rtranclp.rtrancl_refl]
  show ?thesis by (auto simp: any_failed_def mux_start_def matching_returns_def)
qed

end
