(* ===== verification/Instruments.thy ===== *)
theory Instruments
  imports Prelude
begin

text \<open>
  The instruments the tracking code of \<open>rpc/mux.go\<close> and \<open>instrument/metrics\<close> writes to:
  labelled counters and the registry of the Prometheus client, and the event logs of
  \<open>golang.org/x/net/trace\<close>, as far as the code can see them. A tracked connection's
  \<open>Close\<close> is used by four trackers in the same way; what it promises is the locale
  \<open>tracked_close\<close>.
\<close>

section \<open>Counters and registries\<close>

text \<open>
  A \<open>CounterVec\<close>: the children that exist, with their counts. \<open>WithLabelValues\<close>
  creates a child with count zero if there is none. A registry holds the fully qualified
  names of its collectors; \<open>MustRegister\<close> of a name it already holds panics
  (\<open>None\<close>).
\<close>

type_synonym counter_vec = "string list \<Rightarrow> nat option"

definition WithLabelValues :: "string list \<Rightarrow> counter_vec \<Rightarrow> counter_vec" where
  "WithLabelValues ls v = (case v ls of None \<Rightarrow> v(ls \<mapsto> 0) | Some _ \<Rightarrow> v)"

definition counter_value :: "counter_vec \<Rightarrow> string list \<Rightarrow> nat" where
  "counter_value v ls = (case v ls of None \<Rightarrow> 0 | Some n \<Rightarrow> n)"

text \<open>\<open>v.WithLabelValues(ls...).Inc()\<close>.\<close>

definition Inc :: "string list \<Rightarrow> counter_vec \<Rightarrow> counter_vec" where
  "Inc ls v = v(ls \<mapsto> Suc (counter_value v ls))"

lemma counter_value_simps [simp]:
  "counter_value (WithLabelValues ls v) ls' = counter_value v ls'"
  "counter_value (Inc ls v) ls' = counter_value v ls' + (if ls' = ls then 1 else 0)"
  by (auto simp: counter_value_def WithLabelValues_def Inc_def split: option.splits)

type_synonym registry = "string list"

definition MustRegister :: "string \<Rightarrow> registry \<Rightarrow> registry option" where
  "MustRegister c reg = (if c \<in> set reg then None else Some (c # reg))"

section \<open>Event logs\<close>

text \<open>
  An event log has a family and a title, lines (a flag for errors, and the text), and is
  finished. A \<open>trace.EventLog\<close> value is the number of the log, or nil.
\<close>

record event_log =
  ev_family :: string
  ev_title :: string
  ev_lines :: "(bool \<times> string) list"
  ev_finished :: nat

text \<open>
  What the trackers of a package share: its six counter vectors and the event logs created
  so far.
\<close>

record track =
  dialerAttemptedTotal :: counter_vec
  dialerConnEstablishedTotal :: counter_vec
  dialerConnFailedTotal :: counter_vec
  dialerConnClosedTotal :: counter_vec
  listenerAcceptedTotal :: counter_vec
  listenerClosedTotal :: counter_vec
  evlogs :: "event_log list"

definition track_empty :: track where
  "track_empty = \<lparr>dialerAttemptedTotal = (\<lambda>_. None), dialerConnEstablishedTotal = (\<lambda>_. None),
     dialerConnFailedTotal = (\<lambda>_. None), dialerConnClosedTotal = (\<lambda>_. None),
     listenerAcceptedTotal = (\<lambda>_. None), listenerClosedTotal = (\<lambda>_. None), evlogs = []\<rparr>"

definition NewEventLog :: "string \<Rightarrow> string \<Rightarrow> track \<Rightarrow> nat \<times> track" where
  "NewEventLog fam title w = (length (evlogs w), w\<lparr>evlogs := evlogs w @
     [\<lparr>ev_family = fam, ev_title = title, ev_lines = [], ev_finished = 0\<rparr>]\<rparr>)"

definition on_event :: "nat \<Rightarrow> (event_log \<Rightarrow> event_log) \<Rightarrow> track \<Rightarrow> track" where
  "on_event h f w = w\<lparr>evlogs := (evlogs w)[h := f (evlogs w ! h)]\<rparr>"

definition ev_Printf :: "nat \<Rightarrow> string \<Rightarrow> track \<Rightarrow> track" where
  "ev_Printf h s = on_event h (\<lambda>e. e\<lparr>ev_lines := ev_lines e @ [(False, s)]\<rparr>)"

definition ev_Errorf :: "nat \<Rightarrow> string \<Rightarrow> track \<Rightarrow> track" where
  "ev_Errorf h s = on_event h (\<lambda>e. e\<lparr>ev_lines := ev_lines e @ [(True, s)]\<rparr>)"

definition ev_Finish :: "nat \<Rightarrow> track \<Rightarrow> track" where
  "ev_Finish h = on_event h (\<lambda>e. e\<lparr>ev_finished := Suc (ev_finished e)\<rparr>)"

text \<open>What is left alone: the counters by an event operation, the logs by a counter update.\<close>

lemma on_event_simps [simp]:
  "dialerAttemptedTotal (on_event h f w) = dialerAttemptedTotal w"
  "dialerConnEstablishedTotal (on_event h f w) = dialerConnEstablishedTotal w"
  "dialerConnFailedTotal (on_event h f w) = dialerConnFailedTotal w"
  "dialerConnClosedTotal (on_event h f w) = dialerConnClosedTotal w"
  "listenerAcceptedTotal (on_event h f w) = listenerAcceptedTotal w"
  "listenerClosedTotal (on_event h f w) = listenerClosedTotal w"
  "length (evlogs (on_event h f w)) = length (evlogs w)"
  by (simp_all add: on_event_def)

lemma evlogs_on_event:
  "j < length (evlogs w) \<Longrightarrow>
     evlogs (on_event h f w) ! j = (if j = h then f (evlogs w ! j) else evlogs w ! j)"
  by (auto simp: on_event_def nth_list_update)

lemmas event_defs = ev_Printf_def ev_Errorf_def ev_Finish_def

lemma event_simps [simp]:
  "dialerAttemptedTotal (ev_Printf h s w) = dialerAttemptedTotal w"
  "dialerConnEstablishedTotal (ev_Printf h s w) = dialerConnEstablishedTotal w"
  "dialerConnFailedTotal (ev_Printf h s w) = dialerConnFailedTotal w"
  "dialerConnClosedTotal (ev_Printf h s w) = dialerConnClosedTotal w"
  "listenerAcceptedTotal (ev_Printf h s w) = listenerAcceptedTotal w"
  "listenerClosedTotal (ev_Printf h s w) = listenerClosedTotal w"
  "length (evlogs (ev_Printf h s w)) = length (evlogs w)"
  "dialerAttemptedTotal (ev_Errorf h s w) = dialerAttemptedTotal w"
  "dialerConnEstablishedTotal (ev_Errorf h s w) = dialerConnEstablishedTotal w"
  "dialerConnFailedTotal (ev_Errorf h s w) = dialerConnFailedTotal w"
  "dialerConnClosedTotal (ev_Errorf h s w) = dialerConnClosedTotal w"
  "listenerAcceptedTotal (ev_Errorf h s w) = listenerAcceptedTotal w"
  "listenerClosedTotal (ev_Errorf h s w) = listenerClosedTotal w"
  "length (evlogs (ev_Errorf h s w)) = length (evlogs w)"
  "dialerAttemptedTotal (ev_Finish h w) = dialerAttemptedTotal w"
  "dialerConnEstablishedTotal (ev_Finish h w) = dialerConnEstablishedTotal w"
  "dialerConnFailedTotal (ev_Finish h w) = dialerConnFailedTotal w"
  "dialerConnClosedTotal (ev_Finish h w) = dialerConnClosedTotal w"
  "listenerAcceptedTotal (ev_Finish h w) = listenerAcceptedTotal w"
  "listenerClosedTotal (ev_Finish h w) = listenerClosedTotal w"
  "length (evlogs (ev_Finish h w)) = length (evlogs w)"
  by (simp_all add: event_defs)

lemma ev_finished_simps [simp]:
  "j < length (evlogs w) \<Longrightarrow> ev_finished (evlogs (ev_Printf h s w) ! j) = ev_finished (evlogs w ! j)"
  "j < length (evlogs w) \<Longrightarrow> ev_finished (evlogs (ev_Errorf h s w) ! j) = ev_finished (evlogs w ! j)"
  "j < length (evlogs w) \<Longrightarrow> ev_finished (evlogs (ev_Finish h w) ! j) =
     ev_finished (evlogs w ! j) + (if j = h then 1 else 0)"
  by (simp_all add: event_defs evlogs_on_event)

section \<open>Tracked connections\<close>

text \<open>
  What the trackers use of the \<open>net.Conn\<close> they wrap: its addresses, whether it is a
  \<open>*net.TCPConn\<close>, the keep-alive set on it, how often it was closed and what its n-th
  \<open>Close\<close> returns (the text of the error, or nil).
\<close>

record tconn =
  tc_local :: string
  tc_remote :: string
  tc_is_tcp :: bool
  tc_keepalive :: "int option"
  tc_closes :: nat
  tc_close_err :: "nat \<Rightarrow> string option"

definition tconn_Close :: "tconn \<Rightarrow> string option \<times> tconn" where
  "tconn_Close c = (tc_close_err c (tc_closes c), c\<lparr>tc_closes := Suc (tc_closes c)\<rparr>)"

text \<open>
  The contract of a tracker's \<open>Close\<close>: it closes the connection and returns its error,
  finishes its event log if it still holds one and lets go of it, leaves the other logs
  alone, and counts the call if the tracker monitors.
\<close>

locale tracked_close =
  fixes close :: "'ct \<Rightarrow> track \<Rightarrow> string option \<times> 'ct \<times> track"
    and conn_of :: "'ct \<Rightarrow> tconn"
    and event_of :: "'ct \<Rightarrow> nat option"
    and monitors :: "'ct \<Rightarrow> bool"
    and counted :: "'ct \<Rightarrow> track \<Rightarrow> nat"
  assumes close_conn: "close ct w = (err, ct', w') \<Longrightarrow>
      (err, conn_of ct') = tconn_Close (conn_of ct)"
    and close_event: "close ct w = (err, ct', w') \<Longrightarrow> event_of ct' = None"
    and close_finishes: "close ct w = (err, ct', w') \<Longrightarrow> h < length (evlogs w) \<Longrightarrow>
      ev_finished (evlogs w' ! h) =
        ev_finished (evlogs w ! h) + (if event_of ct = Some h then 1 else 0)"
    and close_logs: "close ct w = (err, ct', w') \<Longrightarrow> length (evlogs w') = length (evlogs w)"
    and close_monitors: "close ct w = (err, ct', w') \<Longrightarrow> monitors ct' = monitors ct"
    and close_counted: "close ct w = (err, ct', w') \<Longrightarrow>
      counted ct' w' = counted ct w + (if monitors ct then 1 else 0)"
begin

primrec close_times :: "nat \<Rightarrow> 'ct \<Rightarrow> track \<Rightarrow> 'ct \<times> track" where
  "close_times 0 ct w = (ct, w)"
| "close_times (Suc n) ct w = (case close ct w of (_, ct', w') \<Rightarrow> close_times n ct' w')"

lemma close_times_spec:
  assumes "close_times n ct w = (ct', w')"
  shows "tc_closes (conn_of ct') = tc_closes (conn_of ct) + n
    \<and> counted ct' w' = counted ct w + (if monitors ct then n else 0)
    \<and> (\<forall>h < length (evlogs w). ev_finished (evlogs w' ! h) =
         ev_finished (evlogs w ! h) + (if event_of ct = Some h \<and> 0 < n then 1 else 0))"
  using assms
proof (induction n arbitrary: ct w)
  case (Suc n)
  obtain err ct1 w1 where c: "close ct w = (err, ct1, w1)" by (metis surj_pair)
  with Suc.prems have "close_times n ct1 w1 = (ct', w')" by simp
  from Suc.IH [OF this] show ?case
    using close_conn [OF c] close_event [OF c] close_finishes [OF c] close_logs [OF c]
      close_monitors [OF c] close_counted [OF c]
    by (auto simp: tconn_Close_def)
qed simp

lemma close_result:
  "close ct w = (err, ct', w') \<Longrightarrow> err = tc_close_err (conn_of ct) (tc_closes (conn_of ct))"
  by (drule close_conn) (simp add: tconn_Close_def)

end

end
