(* ===== verification/Conntrack.thy ===== *)
theory Conntrack
  imports Instruments
begin

text \<open>
  Connection tracking in \<open>rpc/mux.go\<close>: the dialer side (options, the name carried by a
  context, \<open>dialClientConnTracker\<close>) and the listener side (\<open>NewListener\<close>,
  \<open>Accept\<close>, \<open>newServerConnTracker\<close>), with the counters and event logs they keep.
\<close>

section \<open>Reporting\<close>

definition failedResolution :: string where "failedResolution = ''resolution''"
definition failedConnRefused :: string where "failedConnRefused = ''refused''"
definition failedTimeout :: string where "failedTimeout = ''timeout''"
definition failedUnknown :: string where "failedUnknown = ''unknown''"

lemmas reason_defs =
  failedResolution_def failedConnRefused_def failedTimeout_def failedUnknown_def

text \<open>
  The errors of a dial, as the type switch sees them: a \<open>*net.OpError\<close> with the error it
  wraps (a syscall error by its errno's name) and the result of its \<open>Timeout()\<close>, the two
  context errors, and any other. Every error has a text.
\<close>

datatype nested_error = DNSError | SyscallError string | OtherNested

datatype dial_error =
    OpError nested_error bool string
  | ContextCanceled
  | ContextDeadlineExceeded
  | OtherDialError string

fun dial_error_text :: "dial_error \<Rightarrow> string" where
  "dial_error_text (OpError _ _ s) = s"
| "dial_error_text ContextCanceled = ''context canceled''"
| "dial_error_text ContextDeadlineExceeded = ''context deadline exceeded''"
| "dial_error_text (OtherDialError s) = s"

definition PreRegisterDialerMetrics :: "string \<Rightarrow> track \<Rightarrow> track" where
  "PreRegisterDialerMetrics dialerName w =
     (let w1 = w\<lparr>dialerAttemptedTotal := WithLabelValues [dialerName] (dialerAttemptedTotal w)\<rparr>;
          w2 = w1\<lparr>dialerConnEstablishedTotal :=
                 WithLabelValues [dialerName] (dialerConnEstablishedTotal w1)\<rparr>;
          w3 = fold (\<lambda>reason w. w\<lparr>dialerConnFailedTotal :=
                 WithLabelValues [dialerName, reason] (dialerConnFailedTotal w)\<rparr>)
               [failedTimeout, failedResolution, failedConnRefused, failedUnknown] w2
      in w3\<lparr>dialerConnClosedTotal := WithLabelValues [dialerName] (dialerConnClosedTotal w3)\<rparr>)"

definition reportDialerConnAttempt :: "string \<Rightarrow> track \<Rightarrow> track" where
  "reportDialerConnAttempt dialerName w =
     w\<lparr>dialerAttemptedTotal := Inc [dialerName] (dialerAttemptedTotal w)\<rparr>"

definition reportDialerConnEstablished :: "string \<Rightarrow> track \<Rightarrow> track" where
  "reportDialerConnEstablished dialerName w =
     w\<lparr>dialerConnEstablishedTotal := Inc [dialerName] (dialerConnEstablishedTotal w)\<rparr>"

definition reportDialerConnClosed :: "string \<Rightarrow> track \<Rightarrow> track" where
  "reportDialerConnClosed dialerName w =
     w\<lparr>dialerConnClosedTotal := Inc [dialerName] (dialerConnClosedTotal w)\<rparr>"

definition inc_failed :: "string \<Rightarrow> string \<Rightarrow> track \<Rightarrow> track" where
  "inc_failed dialerName reason w =
     w\<lparr>dialerConnFailedTotal := Inc [dialerName, reason] (dialerConnFailedTotal w)\<rparr>"

definition reportDialerConnFailed :: "string \<Rightarrow> dial_error \<Rightarrow> track \<Rightarrow> track" where
  "reportDialerConnFailed dialerName err w =
     (case err of
        OpError (DNSError) timeout _ \<Rightarrow> inc_failed dialerName failedResolution w
      | OpError (SyscallError errno) timeout _ \<Rightarrow>
          (let w1 = (if errno = ''ECONNREFUSED'' then inc_failed dialerName failedConnRefused w else w)
           in inc_failed dialerName failedUnknown w1)
      | OpError OtherNested timeout _ \<Rightarrow>
          (let w1 = (if timeout then inc_failed dialerName failedTimeout w else w)
           in inc_failed dialerName failedUnknown w1)
      | ContextCanceled \<Rightarrow> inc_failed dialerName failedTimeout w
      | ContextDeadlineExceeded \<Rightarrow> inc_failed dialerName failedTimeout w
      | OtherDialError _ \<Rightarrow> inc_failed dialerName failedUnknown w)"

section \<open>Options and names\<close>

text \<open>
  A \<open>context.Context\<close> as far as \<open>Value\<close> sees it: the values of \<open>WithValue\<close>,
  latest first.
\<close>

datatype ctx_value = CtxString string | CtxOther

type_synonym go_context = "(string \<times> ctx_value) list"

definition ctx_Value :: "go_context \<Rightarrow> string \<Rightarrow> ctx_value option" where
  "ctx_Value ctx k = map_of ctx k"

definition ctx_WithValue :: "go_context \<Rightarrow> string \<Rightarrow> ctx_value \<Rightarrow> go_context" where
  "ctx_WithValue ctx k v = (k, v) # ctx"

definition dialerNameKey :: string where
  "dialerNameKey = ''conntrackDialerKey''"

type_synonym dialerContextFunc = "go_context \<Rightarrow> string \<Rightarrow> string \<Rightarrow> dial_error + tconn"

record dialerOpts =
  d_name :: string
  d_monitoring :: bool
  d_tracing :: bool
  parentDialContextFunc :: dialerContextFunc

type_synonym dialerOpt = "dialerOpts \<Rightarrow> dialerOpts"

definition DialWithName :: "string \<Rightarrow> dialerOpt" where
  "DialWithName name = (\<lambda>opts. opts\<lparr>d_name := name\<rparr>)"

definition DialWithoutMonitoring :: dialerOpt where
  "DialWithoutMonitoring = (\<lambda>opts. opts\<lparr>d_monitoring := False\<rparr>)"

definition DialWithTracing :: dialerOpt where
  "DialWithTracing = (\<lambda>opts. opts\<lparr>d_tracing := True\<rparr>)"

definition DialWithDialContextFunc :: "dialerContextFunc \<Rightarrow> dialerOpt" where
  "DialWithDialContextFunc parentDialerFunc =
     (\<lambda>opts. opts\<lparr>parentDialContextFunc := parentDialerFunc\<rparr>)"

text \<open>A \<open>*net.Dialer\<close> is known by its \<open>DialContext\<close> method.\<close>

definition DialWithDialer :: "dialerContextFunc \<Rightarrow> dialerOpt" where
  "DialWithDialer parentDialer = DialWithDialContextFunc parentDialer"

definition DialNameFromContext :: "go_context \<Rightarrow> string" where
  "DialNameFromContext ctx =
     (case ctx_Value ctx dialerNameKey of Some (CtxString val) \<Rightarrow> val | _ \<Rightarrow> '''')"

definition DialNameToContext :: "go_context \<Rightarrow> string \<Rightarrow> go_context" where
  "DialNameToContext ctx dialerName = ctx_WithValue ctx dialerNameKey (CtxString dialerName)"

section \<open>Dialing\<close>

record clientConnTracker =
  ct_Conn :: tconn
  ct_opts :: dialerOpts
  ct_dialerName :: string
  ct_event :: "nat option"

text \<open>
  A dial in two parts, around the call of the parent dialer, which may block: before it the
  event log is opened and the attempt counted, after it the outcome is logged and counted.
\<close>

definition dial_begin :: "string \<Rightarrow> string \<Rightarrow> dialerOpts \<Rightarrow> track \<Rightarrow> nat option \<times> track" where
  "dial_begin addr dialerName opts w =
     (let (event, w1) = (if d_tracing opts then
            (case NewEventLog (''net.ClientConn.'' @ dialerName) addr w of (h, w') \<Rightarrow> (Some h, w'))
          else (None, w));
          w2 = (if d_monitoring opts then reportDialerConnAttempt dialerName w1 else w1)
      in (event, w2))"

definition dial_end :: "dial_error + tconn \<Rightarrow> string \<Rightarrow> dialerOpts \<Rightarrow> nat option \<Rightarrow> track \<Rightarrow>
    (dial_error + clientConnTracker) \<times> track" where
  "dial_end res dialerName opts event w =
     (case res of
        Inl err \<Rightarrow>
          (let w1 = (case event of
                 Some h \<Rightarrow> ev_Finish h (ev_Errorf h (''failed dialing: '' @ dial_error_text err) w)
               | None \<Rightarrow> w);
               w2 = (if d_monitoring opts then reportDialerConnFailed dialerName err w1 else w1)
           in (Inl err, w2))
      | Inr conn \<Rightarrow>
          (let w1 = (case event of
                 Some h \<Rightarrow> ev_Printf h (''established: '' @ tc_local conn @ '' -> '' @ tc_remote conn) w
               | None \<Rightarrow> w);
               w2 = (if d_monitoring opts then reportDialerConnEstablished dialerName w1 else w1)
           in (Inr \<lparr>ct_Conn = conn, ct_opts = opts, ct_dialerName = dialerName, ct_event = event\<rparr>, w2)))"

definition dialClientConnTracker :: "go_context \<Rightarrow> string \<Rightarrow> string \<Rightarrow> string \<Rightarrow> dialerOpts \<Rightarrow> track \<Rightarrow>
    (dial_error + clientConnTracker) \<times> track" where
  "dialClientConnTracker ctx network addr dialerName opts w =
     (case dial_begin addr dialerName opts w of
        (event, w1) \<Rightarrow>
          dial_end (parentDialContextFunc opts ctx network addr) dialerName opts event w1)"

lemmas dial_defs = dialClientConnTracker_def dial_begin_def dial_end_def

text \<open>The default parent dialer, \<open>(&net.Dialer{}).DialContext\<close>, is the network's.\<close>

definition dialer_options :: "dialerContextFunc \<Rightarrow> dialerOpt list \<Rightarrow> dialerOpts" where
  "dialer_options net_dialer optFuncs =
     fold (\<lambda>f opts. f opts) optFuncs
       \<lparr>d_name = ''default'', d_monitoring = True, d_tracing = False, parentDialContextFunc = net_dialer\<rparr>"

definition NewDialContextFunc :: "dialerContextFunc \<Rightarrow> dialerOpt list \<Rightarrow> track \<Rightarrow>
    (go_context \<Rightarrow> string \<Rightarrow> string \<Rightarrow> track \<Rightarrow> (dial_error + clientConnTracker) \<times> track) \<times> track" where
  "NewDialContextFunc net_dialer optFuncs w =
     (let opts = dialer_options net_dialer optFuncs;
          w1 = (if d_monitoring opts then PreRegisterDialerMetrics (d_name opts) w else w)
      in (\<lambda>ctx network addr w.
            let ctxName = DialNameFromContext ctx;
                name = (if ctxName \<noteq> '''' then ctxName else d_name opts)
            in dialClientConnTracker ctx network addr name opts w, w1))"

definition NewDialFunc :: "dialerContextFunc \<Rightarrow> dialerOpt list \<Rightarrow> track \<Rightarrow>
    (string \<Rightarrow> string \<Rightarrow> track \<Rightarrow> (dial_error + clientConnTracker) \<times> track) \<times> track" where
  "NewDialFunc net_dialer optFuncs w =
     (case NewDialContextFunc net_dialer optFuncs w of
        (dialContextFunc, w1) \<Rightarrow> (\<lambda>network addr. dialContextFunc [] network addr, w1))"

definition clientConnTracker_Close :: "clientConnTracker \<Rightarrow> track \<Rightarrow>
    string option \<times> clientConnTracker \<times> track" where
  "clientConnTracker_Close ct w =
     (let (err, conn) = tconn_Close (ct_Conn ct);
          ct1 = ct\<lparr>ct_Conn := conn\<rparr>;
          (ct2, w1) = (case ct_event ct1 of
              Some h \<Rightarrow>
                (let w' = (case err of
                       Some e \<Rightarrow> ev_Errorf h (''failed closing: '' @ e) w
                     | None \<Rightarrow> ev_Printf h ''closing'' w)
                 in (ct1\<lparr>ct_event := None\<rparr>, ev_Finish h w'))
            | None \<Rightarrow> (ct1, w));
          w2 = (if d_monitoring (ct_opts ct2) then reportDialerConnClosed (ct_dialerName ct2) w1 else w1)
      in (err, ct2, w2))"

section \<open>Listening\<close>

definition preRegisterListenerMetrics :: "string \<Rightarrow> track \<Rightarrow> track" where
  "preRegisterListenerMetrics listenerName w =
     (let w1 = w\<lparr>listenerAcceptedTotal := WithLabelValues [listenerName] (listenerAcceptedTotal w)\<rparr>
      in w1\<lparr>listenerClosedTotal := WithLabelValues [listenerName] (listenerClosedTotal w1)\<rparr>)"

definition reportListenerConnAccepted :: "string \<Rightarrow> track \<Rightarrow> track" where
  "reportListenerConnAccepted listenerName w =
     w\<lparr>listenerAcceptedTotal := Inc [listenerName] (listenerAcceptedTotal w)\<rparr>"

definition reportListenerConnClosed :: "string \<Rightarrow> track \<Rightarrow> track" where
  "reportListenerConnClosed listenerName w =
     w\<lparr>listenerClosedTotal := Inc [listenerName] (listenerClosedTotal w)\<rparr>"

record listenerOpts =
  l_name :: string
  l_monitoring :: bool
  l_tracing :: bool
  tcpKeepAlive :: int

type_synonym listenerOpt = "listenerOpts \<Rightarrow> listenerOpts"

definition TrackWithName :: "string \<Rightarrow> listenerOpt" where
  "TrackWithName name = (\<lambda>opts. opts\<lparr>l_name := name\<rparr>)"

definition TrackWithoutMonitoring :: listenerOpt where
  "TrackWithoutMonitoring = (\<lambda>opts. opts\<lparr>l_monitoring := False\<rparr>)"

definition TrackWithTracing :: listenerOpt where
  "TrackWithTracing = (\<lambda>opts. opts\<lparr>l_tracing := True\<rparr>)"

definition TrackWithTcpKeepAlive :: "int \<Rightarrow> listenerOpt" where
  "TrackWithTcpKeepAlive keepalive = (\<lambda>opts. opts\<lparr>tcpKeepAlive := keepalive\<rparr>)"

text \<open>
  A \<open>connTrackListener\<close> is the listener it wraps (here: what its \<open>Accept\<close> returns next,
  a connection or the text of an error) and its options.
\<close>

type_synonym tlistener = "(string + tconn) list"

record connTrackListener =
  cl_Listener :: tlistener
  cl_opts :: listenerOpts

definition NewListener :: "tlistener \<Rightarrow> listenerOpt list \<Rightarrow> track \<Rightarrow> connTrackListener \<times> track" where
  "NewListener inner optFuncs w =
     (let opts = fold (\<lambda>f opts. f opts) optFuncs
            \<lparr>l_name = ''default'', l_monitoring = True, l_tracing = False, tcpKeepAlive = 0\<rparr>;
          w1 = (if l_monitoring opts then preRegisterListenerMetrics (l_name opts) w else w)
      in (\<lparr>cl_Listener = inner, cl_opts = opts\<rparr>, w1))"

record serverConnTracker =
  st_Conn :: tconn
  st_opts :: listenerOpts
  st_event :: "nat option"

definition newServerConnTracker :: "tconn \<Rightarrow> listenerOpts \<Rightarrow> track \<Rightarrow> serverConnTracker \<times> track" where
  "newServerConnTracker inner opts w =
     (let tracker = \<lparr>st_Conn = inner, st_opts = opts, st_event = None\<rparr>;
          (tracker1, w1) = (if l_tracing opts then
             (case NewEventLog (''net.ServerConn.'' @ l_name opts) (tc_remote inner) w of (h, w') \<Rightarrow>
                (tracker\<lparr>st_event := Some h\<rparr>,
                 ev_Printf h (''accepted: '' @ tc_remote inner @ '' -> '' @ tc_local inner) w'))
           else (tracker, w));
          w2 = (if l_monitoring opts then reportListenerConnAccepted (l_name opts) w1 else w1)
      in (tracker1, w2))"

text \<open>
  \<open>Accept\<close>. \<open>SetKeepAlive(true)\<close> and \<open>SetKeepAlivePeriod\<close> together leave the
  period set. An exhausted listener blocks (\<open>None\<close>).
\<close>

definition connTrackListener_Accept :: "connTrackListener \<Rightarrow> track \<Rightarrow>
    ((string + serverConnTracker) \<times> connTrackListener \<times> track) option" where
  "connTrackListener_Accept ct w =
     (case cl_Listener ct of
        [] \<Rightarrow> None
      | Inl err # rest \<Rightarrow> Some (Inl err, ct\<lparr>cl_Listener := rest\<rparr>, w)
      | Inr conn # rest \<Rightarrow>
          (let conn1 = (if tc_is_tcp conn \<and> tcpKeepAlive (cl_opts ct) > 0
                        then conn\<lparr>tc_keepalive := Some (tcpKeepAlive (cl_opts ct))\<rparr> else conn);
               (tracker, w1) = newServerConnTracker conn1 (cl_opts ct) w
           in Some (Inr tracker, ct\<lparr>cl_Listener := rest\<rparr>, w1)))"

definition serverConnTracker_Close :: "serverConnTracker \<Rightarrow> track \<Rightarrow>
    string option \<times> serverConnTracker \<times> track" where
  "serverConnTracker_Close ct w =
     (let (err, conn) = tconn_Close (st_Conn ct);
          ct1 = ct\<lparr>st_Conn := conn\<rparr>;
          (ct2, w1) = (case st_event ct1 of
              Some h \<Rightarrow>
                (let w' = (case err of
                       Some e \<Rightarrow> ev_Errorf h (''failed closing: '' @ e) w
                     | None \<Rightarrow> ev_Printf h ''closing'' w)
                 in (ct1\<lparr>st_event := None\<rparr>, ev_Finish h w'))
            | None \<Rightarrow> (ct1, w));
          w2 = (if l_monitoring (st_opts ct2) then reportListenerConnClosed (l_name (st_opts ct2)) w1 else w1)
      in (err, ct2, w2))"

section \<open>The trackers meet the contract of Close\<close>

lemmas report_defs = reportDialerConnAttempt_def reportDialerConnEstablished_def
  reportDialerConnClosed_def reportListenerConnAccepted_def reportListenerConnClosed_def

interpretation client_close: tracked_close clientConnTracker_Close ct_Conn ct_event
    "\<lambda>ct. d_monitoring (ct_opts ct)"
    "\<lambda>ct w. counter_value (dialerConnClosedTotal w) [ct_dialerName ct]"
  by unfold_locales
    (auto simp: clientConnTracker_Close_def Let_def report_defs split: prod.splits option.splits if_splits)

interpretation server_close: tracked_close serverConnTracker_Close st_Conn st_event
    "\<lambda>ct. l_monitoring (st_opts ct)"
    "\<lambda>ct w. counter_value (listenerClosedTotal w) [l_name (st_opts ct)]"
  by unfold_locales
    (auto simp: serverConnTracker_Close_def Let_def report_defs split: prod.splits option.splits if_splits)

section \<open>What the counters and logs say\<close>

text \<open>
  C39. Failure accounting. A failed dial adds one to exactly one reason of its dialer, and
  to no other dialer, unless the connection was refused or the \<open>OpError\<close> timed out:
  these also add one to \<open>unknown\<close>, so the reasons do not add up to the failures.
\<close>

theorem dial_failure_accounting:
  "counter_value (dialerConnFailedTotal (reportDialerConnFailed name err w)) ls =
     counter_value (dialerConnFailedTotal w) ls + count_list
       (map (\<lambda>reason. [name, reason])
         (case err of
            OpError DNSError _ _ \<Rightarrow> [''resolution'']
          | OpError (SyscallError errno) _ _ \<Rightarrow>
              if errno = ''ECONNREFUSED'' then [''refused'', ''unknown''] else [''unknown'']
          | OpError OtherNested timeout _ \<Rightarrow> if timeout then [''timeout'', ''unknown''] else [''unknown'']
          | OtherDialError _ \<Rightarrow> [''unknown'']
          | _ \<Rightarrow> [''timeout'']))
       ls"
  by (auto simp: reportDialerConnFailed_def inc_failed_def reason_defs Let_def
      split: dial_error.splits nested_error.splits)

lemma NewEventLog_simps [simp]:
  "NewEventLog fam title w = (h, w') \<longleftrightarrow> h = length (evlogs w) \<and> w' = snd (NewEventLog fam title w)"
  "dialerAttemptedTotal (snd (NewEventLog fam title w)) = dialerAttemptedTotal w"
  "dialerConnEstablishedTotal (snd (NewEventLog fam title w)) = dialerConnEstablishedTotal w"
  "dialerConnFailedTotal (snd (NewEventLog fam title w)) = dialerConnFailedTotal w"
  "dialerConnClosedTotal (snd (NewEventLog fam title w)) = dialerConnClosedTotal w"
  "listenerAcceptedTotal (snd (NewEventLog fam title w)) = listenerAcceptedTotal w"
  "listenerClosedTotal (snd (NewEventLog fam title w)) = listenerClosedTotal w"
  "length (evlogs (snd (NewEventLog fam title w))) = Suc (length (evlogs w))"
  "evlogs (snd (NewEventLog fam title w)) ! length (evlogs w) =
     \<lparr>ev_family = fam, ev_title = title, ev_lines = [], ev_finished = 0\<rparr>"
  by (auto simp: NewEventLog_def)

lemma reportDialerConnFailed_logs [simp]:
  "evlogs (reportDialerConnFailed name err w) = evlogs w"
  "dialerAttemptedTotal (reportDialerConnFailed name err w) = dialerAttemptedTotal w"
  "dialerConnEstablishedTotal (reportDialerConnFailed name err w) = dialerConnEstablishedTotal w"
  "dialerConnClosedTotal (reportDialerConnFailed name err w) = dialerConnClosedTotal w"
  by (auto simp: reportDialerConnFailed_def inc_failed_def Let_def
      split: dial_error.splits nested_error.splits)

text \<open>
  Dial accounting: a monitoring dialer counts every dial as attempted, and as
  established exactly when it returns a connection; otherwise no counter moves. A tracing
  one opens one event log, which is finished here if the dial fails, and handed unfinished
  to the tracker if it succeeds.
\<close>

theorem dial_accounting:
  assumes "dialClientConnTracker ctx network addr name opts w = (r, w')"
  shows "counter_value (dialerAttemptedTotal w') [name] =
      counter_value (dialerAttemptedTotal w) [name] + (if d_monitoring opts then 1 else 0)
    \<and> counter_value (dialerConnEstablishedTotal w') [name] =
      counter_value (dialerConnEstablishedTotal w) [name] + (if d_monitoring opts \<and> \<not> isl r then 1 else 0)
    \<and> dialerConnClosedTotal w' = dialerConnClosedTotal w
    \<and> length (evlogs w') = length (evlogs w) + (if d_tracing opts then 1 else 0)
    \<and> (d_tracing opts \<longrightarrow>
        ev_finished (evlogs w' ! length (evlogs w)) = (if isl r then 1 else 0))
    \<and> (case r of
        Inl err \<Rightarrow> parentDialContextFunc opts ctx network addr = Inl err
      | Inr ct \<Rightarrow> parentDialContextFunc opts ctx network addr = Inr (ct_Conn ct)
          \<and> ct_opts ct = opts \<and> ct_dialerName ct = name
          \<and> ct_event ct = (if d_tracing opts then Some (length (evlogs w)) else None))"
  using assms
  by (auto simp: dial_defs Let_def report_defs split: sum.splits if_splits prod.splits)

definition sample_tconn :: tconn where
  "sample_tconn = \<lparr>tc_local = ''10.0.0.1:50000'', tc_remote = ''10.0.0.2:80'', tc_is_tcp = True,
     tc_keepalive = None, tc_closes = 0, tc_close_err = (\<lambda>n. if n = 0 then None else Some ''use of closed'')\<rparr>"

definition sample_dialer :: dialerOpts where
  "sample_dialer = dialer_options
     (\<lambda>ctx network addr. if addr = ''10.0.0.2:80'' then Inr sample_tconn
        else Inl (OpError (SyscallError ''ECONNREFUSED'') False ''connection refused''))
     [DialWithTracing]"

lemma sample_dialer_sel:
  "d_monitoring sample_dialer" "d_tracing sample_dialer"
  "parentDialContextFunc sample_dialer ctx network addr =
     (if addr = ''10.0.0.2:80'' then Inr sample_tconn
      else Inl (OpError (SyscallError ''ECONNREFUSED'') False ''connection refused''))"
  by (simp_all add: sample_dialer_def dialer_options_def DialWithTracing_def)

theorem dial_accounting_witness:
  "counter_value (dialerAttemptedTotal (snd (dialClientConnTracker [] ''tcp'' ''10.9.9.9:1'' ''web''
      sample_dialer track_empty))) [''web''] = 1"
  using dial_accounting [of "[]" "''tcp''" "''10.9.9.9:1''" "''web''" sample_dialer track_empty]
  by (cases "dialClientConnTracker [] ''tcp'' ''10.9.9.9:1'' ''web'' sample_dialer track_empty")
    (simp add: sample_dialer_sel track_empty_def counter_value_def)

text \<open>
  C24. The life of a dialed connection: however often its tracker is closed after a
  successful dial, its event log is finished exactly once, the connection is closed every
  time, and every one of these closes is counted, so that closing twice counts twice.
\<close>

theorem dialed_connection_life:
  assumes "dialClientConnTracker ctx network addr name opts w = (Inr ct, w1)"
    and "client_close.close_times (Suc n) ct w1 = (ct', w2)"
  shows "tc_closes (ct_Conn ct') = tc_closes (ct_Conn ct) + Suc n
    \<and> counter_value (dialerConnClosedTotal w2) [ct_dialerName ct'] =
        counter_value (dialerConnClosedTotal w) [name] + (if d_monitoring opts then Suc n else 0)
    \<and> (d_tracing opts \<longrightarrow> ev_finished (evlogs w2 ! length (evlogs w)) = 1)"
proof -
  have ct: "ct_opts ct = opts" "ct_dialerName ct = name"
    "ct_event ct = (if d_tracing opts then Some (length (evlogs w)) else None)"
    and w1: "dialerConnClosedTotal w1 = dialerConnClosedTotal w"
    "length (evlogs w1) = length (evlogs w) + (if d_tracing opts then 1 else 0)"
    "d_tracing opts \<Longrightarrow> ev_finished (evlogs w1 ! length (evlogs w)) = 0"
    using assms(1)
    by (auto simp: dial_defs Let_def report_defs split: sum.splits if_splits prod.splits)
  from client_close.close_times_spec [OF assms(2)] ct w1 show ?thesis by simp
qed

theorem dialed_connection_life_witness:
  "\<exists>ct w1 ct' w2. dialClientConnTracker [] ''tcp'' ''10.0.0.2:80'' ''web'' sample_dialer track_empty = (Inr ct, w1)
    \<and> client_close.close_times 2 ct w1 = (ct', w2)
    \<and> tc_closes (ct_Conn ct') = 2
    \<and> counter_value (dialerConnClosedTotal w2) [ct_dialerName ct'] = 2
    \<and> ev_finished (evlogs w2 ! 0) = 1"
proof -
  obtain ct w1 where d: "dialClientConnTracker [] ''tcp'' ''10.0.0.2:80'' ''web'' sample_dialer track_empty
      = (Inr ct, w1)" and conn: "ct_Conn ct = sample_tconn"
    by (simp add: dial_defs Let_def sample_dialer_sel split: prod.splits)
  obtain ct' w2 where c: "client_close.close_times (Suc 1) ct w1 = (ct', w2)" by (metis surj_pair)
  from dialed_connection_life [OF d c] d c conn show ?thesis
    by (auto simp: sample_dialer_sel sample_tconn_def track_empty_def counter_value_def numeral_2_eq_2)
qed

text \<open>
  Dialer names: the name put into the context is the one read back and the one the dial
  is tracked under; an empty name is no override, and the options' name, the last one given,
  is used instead.
\<close>

theorem dialer_name_resolution:
  "DialNameFromContext (DialNameToContext ctx n) = n
   \<and> fst (NewDialContextFunc net_dialer (fs @ [DialWithName dn]) w) (DialNameToContext ctx n) network addr w1 =
       dialClientConnTracker (DialNameToContext ctx n) network addr (if n = '''' then dn else n)
         (dialer_options net_dialer (fs @ [DialWithName dn])) w1
   \<and> fst (NewDialFunc net_dialer (fs @ [DialWithName dn]) w) network addr w1 =
       dialClientConnTracker [] network addr dn (dialer_options net_dialer (fs @ [DialWithName dn])) w1"
  by (simp add: DialNameFromContext_def DialNameToContext_def ctx_Value_def ctx_WithValue_def
      NewDialContextFunc_def NewDialFunc_def Let_def dialer_options_def DialWithName_def)

lemma newServerConnTracker_spec:
  assumes "newServerConnTracker conn opts w = (ct, w1)"
  shows "st_opts ct = opts" and "st_Conn ct = conn"
    and "st_event ct = (if l_tracing opts then Some (length (evlogs w)) else None)"
    and "counter_value (listenerAcceptedTotal w1) ls = counter_value (listenerAcceptedTotal w) ls
      + (if l_monitoring opts \<and> ls = [l_name opts] then 1 else 0)"
    and "listenerClosedTotal w1 = listenerClosedTotal w"
    and "length (evlogs w1) = length (evlogs w) + (if l_tracing opts then 1 else 0)"
    and "l_tracing opts \<Longrightarrow> ev_finished (evlogs w1 ! length (evlogs w)) = 0"
  using assms
  by (auto simp: newServerConnTracker_def Let_def report_defs split: if_splits prod.splits)

text \<open>
  A tracked listener's \<open>Accept\<close> passes errors through without counting them; a
  connection gets the configured keep-alive exactly if it is TCP and the period is positive,
  is counted once if the listener monitors, and gets one event log if it traces.
\<close>

theorem listener_accept_accounting:
  assumes "connTrackListener_Accept l w = Some (r, l', w')"
  shows "case r of
      Inl err \<Rightarrow> cl_Listener l = Inl err # cl_Listener l' \<and> w' = w
    | Inr ct \<Rightarrow> \<exists>conn. cl_Listener l = Inr conn # cl_Listener l'
        \<and> st_Conn ct = conn\<lparr>tc_keepalive :=
            (if tc_is_tcp conn \<and> 0 < tcpKeepAlive (cl_opts l) then Some (tcpKeepAlive (cl_opts l))
             else tc_keepalive conn)\<rparr>
        \<and> counter_value (listenerAcceptedTotal w') [l_name (cl_opts l)] =
            counter_value (listenerAcceptedTotal w) [l_name (cl_opts l)]
            + (if l_monitoring (cl_opts l) then 1 else 0)
        \<and> st_event ct = (if l_tracing (cl_opts l) then Some (length (evlogs w)) else None)
        \<and> length (evlogs w') = length (evlogs w) + (if l_tracing (cl_opts l) then 1 else 0)"
proof -
  from assms obtain x rest where l: "cl_Listener l = x # rest"
    by (cases "cl_Listener l") (auto simp: connTrackListener_Accept_def)
  show ?thesis
  proof (cases x)
    case (Inl err)
    with assms l show ?thesis by (auto simp: connTrackListener_Accept_def)
  next
    case (Inr conn)
    let ?conn = "conn\<lparr>tc_keepalive := (if tc_is_tcp conn \<and> 0 < tcpKeepAlive (cl_opts l)
      then Some (tcpKeepAlive (cl_opts l)) else tc_keepalive conn)\<rparr>"
    obtain ct w1 where n: "newServerConnTracker ?conn (cl_opts l) w = (ct, w1)" by (metis surj_pair)
    have "(if tc_is_tcp conn \<and> tcpKeepAlive (cl_opts l) > 0
        then conn\<lparr>tc_keepalive := Some (tcpKeepAlive (cl_opts l))\<rparr> else conn) = ?conn" by simp
    with assms l Inr n have "r = Inr ct" "l' = l\<lparr>cl_Listener := rest\<rparr>" "w' = w1"
      by (simp_all add: connTrackListener_Accept_def Let_def)
    with l Inr newServerConnTracker_spec [OF n] show ?thesis by simp
  qed
qed

definition sample_listener :: connTrackListener where
  "sample_listener = fst (NewListener [Inr sample_tconn, Inl ''closed'']
     [TrackWithName ''api'', TrackWithTracing, TrackWithTcpKeepAlive 30] track_empty)"

theorem listener_accept_accounting_witness:
  "\<exists>ct l' w'. connTrackListener_Accept sample_listener track_empty = Some (Inr ct, l', w')
    \<and> tc_keepalive (st_Conn ct) = Some 30 \<and> counter_value (listenerAcceptedTotal w') [''api''] = 1"
proof -
  have l: "cl_opts sample_listener = \<lparr>l_name = ''api'', l_monitoring = True, l_tracing = True, tcpKeepAlive = 30\<rparr>"
    "cl_Listener sample_listener = [Inr sample_tconn, Inl ''closed'']"
    by (simp_all add: sample_listener_def NewListener_def Let_def TrackWithName_def
        TrackWithTracing_def TrackWithTcpKeepAlive_def)
  obtain ct w1 where n: "newServerConnTracker (sample_tconn\<lparr>tc_keepalive := Some 30\<rparr>)
      (cl_opts sample_listener) track_empty = (ct, w1)" by (metis surj_pair)
  have "tc_is_tcp sample_tconn" by (simp add: sample_tconn_def)
  with l n have a: "connTrackListener_Accept sample_listener track_empty =
      Some (Inr ct, sample_listener\<lparr>cl_Listener := [Inl ''closed'']\<rparr>, w1)"
    by (simp add: connTrackListener_Accept_def)
  from listener_accept_accounting [OF a] l a show ?thesis
    by (auto simp: sample_tconn_def track_empty_def counter_value_def)
qed

text \<open>
  The life of an accepted connection, as for a dialed one: one event log finished once,
  every close passed on and counted.
\<close>

theorem accepted_connection_life:
  assumes "newServerConnTracker conn opts w = (ct, w1)"
    and "server_close.close_times (Suc n) ct w1 = (ct', w2)"
  shows "tc_closes (st_Conn ct') = tc_closes conn + Suc n
    \<and> counter_value (listenerClosedTotal w2) [l_name (st_opts ct')] =
        counter_value (listenerClosedTotal w) [l_name opts] + (if l_monitoring opts then Suc n else 0)
    \<and> (l_tracing opts \<longrightarrow> ev_finished (evlogs w2 ! length (evlogs w)) = 1)"
proof -
  have ct: "st_opts ct = opts" "st_Conn ct = conn"
    "st_event ct = (if l_tracing opts then Some (length (evlogs w)) else None)"
    and w1: "listenerClosedTotal w1 = listenerClosedTotal w"
    "length (evlogs w1) = length (evlogs w) + (if l_tracing opts then 1 else 0)"
    "l_tracing opts \<Longrightarrow> ev_finished (evlogs w1 ! length (evlogs w)) = 0"
    using newServerConnTracker_spec [OF assms(1)] by simp_all
  from server_close.close_times_spec [OF assms(2)] ct w1 show ?thesis by simp
qed

theorem accepted_connection_life_witness:
  "\<exists>ct w1 ct' w2. newServerConnTracker sample_tconn \<lparr>l_name = ''api'', l_monitoring = True,
       l_tracing = True, tcpKeepAlive = 0\<rparr> track_empty = (ct, w1)
    \<and> server_close.close_times 3 ct w1 = (ct', w2)
    \<and> counter_value (listenerClosedTotal w2) [l_name (st_opts ct')] = 3
    \<and> ev_finished (evlogs w2 ! 0) = 1"
proof -
  let ?o = "\<lparr>l_name = ''api'', l_monitoring = True, l_tracing = True, tcpKeepAlive = 0\<rparr>"
  obtain ct w1 where n: "newServerConnTracker sample_tconn ?o track_empty = (ct, w1)"
    by (metis surj_pair)
  obtain ct' w2 where c: "server_close.close_times (Suc 2) ct w1 = (ct', w2)" by (metis surj_pair)
  from accepted_connection_life [OF n c] n c show ?thesis
    by (auto simp: track_empty_def counter_value_def numeral_3_eq_3 numeral_2_eq_2)
qed

end
