(* ===== verification/Metrics.thy ===== *)
theory Metrics
  imports Conntrack
begin

text \<open>
  The package \<open>instrument/metrics\<close>: connection tracking for a dialer and a listener that
  are built by \<open>WrapDialer\<close> and \<open>WrapListener\<close>, with their registration in a Prometheus
  registry. The package has its own copy of the trackers of \<open>rpc/mux.go\<close> and of their
  types, its own counters (another \<open>track\<close>) and its own context key. Its operations carry
  the suffix \<open>_m\<close>.
\<close>

section \<open>The package's copies of the trackers\<close>

definition dialerNameKey_m :: string where
  "dialerNameKey_m = ''DialerKey''"

definition DialNameFromContext_m :: "go_context \<Rightarrow> string" where
  "DialNameFromContext_m ctx =
     (case ctx_Value ctx dialerNameKey_m of Some (CtxString val) \<Rightarrow> val | _ \<Rightarrow> '''')"

definition reportDialerConnAttempt_m :: "string \<Rightarrow> track \<Rightarrow> track" where
  "reportDialerConnAttempt_m name w =
     w\<lparr>dialerAttemptedTotal := Inc [name] (dialerAttemptedTotal w)\<rparr>"

definition reportDialerConnEstablished_m :: "string \<Rightarrow> track \<Rightarrow> track" where
  "reportDialerConnEstablished_m name w =
     w\<lparr>dialerConnEstablishedTotal := Inc [name] (dialerConnEstablishedTotal w)\<rparr>"

definition reportDialerConnClosed_m :: "string \<Rightarrow> track \<Rightarrow> track" where
  "reportDialerConnClosed_m name w =
     w\<lparr>dialerConnClosedTotal := Inc [name] (dialerConnClosedTotal w)\<rparr>"

definition reportDialerConnFailed_m :: "string \<Rightarrow> dial_error \<Rightarrow> track \<Rightarrow> track" where
  "reportDialerConnFailed_m name err w =
     (case err of
        OpError (DNSError) timeout _ \<Rightarrow> inc_failed name failedResolution w
      | OpError (SyscallError errno) timeout _ \<Rightarrow>
          (let w1 = (if errno = ''ECONNREFUSED'' then inc_failed name failedConnRefused w else w)
           in inc_failed name failedUnknown w1)
      | OpError OtherNested timeout _ \<Rightarrow>
          (let w1 = (if timeout then inc_failed name failedTimeout w else w)
           in inc_failed name failedUnknown w1)
      | ContextCanceled \<Rightarrow> inc_failed name failedTimeout w
      | ContextDeadlineExceeded \<Rightarrow> inc_failed name failedTimeout w
      | OtherDialError _ \<Rightarrow> inc_failed name failedUnknown w)"

definition dial_begin_m :: "string \<Rightarrow> string \<Rightarrow> dialerOpts \<Rightarrow> track \<Rightarrow> nat option \<times> track" where
  "dial_begin_m addr name opts w =
     (let (event, w1) = (if d_tracing opts then
            (case NewEventLog (''net.ClientConn.'' @ name) addr w of (h, w') \<Rightarrow> (Some h, w'))
          else (None, w));
          w2 = (if d_monitoring opts then reportDialerConnAttempt_m name w1 else w1)
      in (event, w2))"

definition dial_end_m :: "dial_error + tconn \<Rightarrow> string \<Rightarrow> dialerOpts \<Rightarrow> nat option \<Rightarrow> track \<Rightarrow>
    (dial_error + clientConnTracker) \<times> track" where
  "dial_end_m res name opts event w =
     (case res of
        Inl err \<Rightarrow>
          (let w1 = (case event of
                 Some h \<Rightarrow> ev_Finish h (ev_Errorf h (''failed dialing: '' @ dial_error_text err) w)
               | None \<Rightarrow> w);
               w2 = (if d_monitoring opts then reportDialerConnFailed_m name err w1 else w1)
           in (Inl err, w2))
      | Inr conn \<Rightarrow>
          (let w1 = (case event of
                 Some h \<Rightarrow> ev_Printf h (''established: '' @ tc_local conn @ '' -> '' @ tc_remote conn) w
               | None \<Rightarrow> w);
               w2 = (if d_monitoring opts then reportDialerConnEstablished_m name w1 else w1)
           in (Inr \<lparr>ct_Conn = conn, ct_opts = opts, ct_dialerName = name, ct_event = event\<rparr>, w2)))"

definition dialClientConnTracker_m :: "go_context \<Rightarrow> string \<Rightarrow> string \<Rightarrow> string \<Rightarrow> dialerOpts \<Rightarrow> track \<Rightarrow>
    (dial_error + clientConnTracker) \<times> track" where
  "dialClientConnTracker_m ctx network addr name opts w =
     (case dial_begin_m addr name opts w of
        (event, w1) \<Rightarrow>
          dial_end_m (parentDialContextFunc opts ctx network addr) name opts event w1)"

definition clientConnTracker_Close_m :: "clientConnTracker \<Rightarrow> track \<Rightarrow>
    string option \<times> clientConnTracker \<times> track" where
  "clientConnTracker_Close_m ct w =
     (let (err, conn) = tconn_Close (ct_Conn ct);
          ct1 = ct\<lparr>ct_Conn := conn\<rparr>;
          (ct2, w1) = (case ct_event ct1 of
              Some h \<Rightarrow>
                (let w' = (case err of
                       Some e \<Rightarrow> ev_Errorf h (''failed closing: '' @ e) w
                     | None \<Rightarrow> ev_Printf h ''closing'' w)
                 in (ct1\<lparr>ct_event := None\<rparr>, ev_Finish h w'))
            | None \<Rightarrow> (ct1, w));
          w2 = (if d_monitoring (ct_opts ct2) then reportDialerConnClosed_m (ct_dialerName ct2) w1 else w1)
      in (err, ct2, w2))"

definition reportListenerConnAccepted_m :: "string \<Rightarrow> track \<Rightarrow> track" where
  "reportListenerConnAccepted_m listenerName w =
     w\<lparr>listenerAcceptedTotal := Inc [listenerName] (listenerAcceptedTotal w)\<rparr>"

definition reportListenerConnClosed_m :: "string \<Rightarrow> track \<Rightarrow> track" where
  "reportListenerConnClosed_m listenerName w =
     w\<lparr>listenerClosedTotal := Inc [listenerName] (listenerClosedTotal w)\<rparr>"

definition newServerConnTracker_m :: "tconn \<Rightarrow> listenerOpts \<Rightarrow> track \<Rightarrow> serverConnTracker \<times> track" where
  "newServerConnTracker_m inner opts w =
     (let tracker = \<lparr>st_Conn = inner, st_opts = opts, st_event = None\<rparr>;
          (tracker1, w1) = (if l_tracing opts then
             (case NewEventLog (''net.ServerConn.'' @ l_name opts) (tc_remote inner) w of (h, w') \<Rightarrow>
                (tracker\<lparr>st_event := Some h\<rparr>,
                 ev_Printf h (''accepted: '' @ tc_remote inner @ '' -> '' @ tc_local inner) w'))
           else (tracker, w));
          w2 = (if l_monitoring opts then reportListenerConnAccepted_m (l_name opts) w1 else w1)
      in (tracker1, w2))"

definition connTrackListener_Accept_m :: "connTrackListener \<Rightarrow> track \<Rightarrow>
    ((string + serverConnTracker) \<times> connTrackListener \<times> track) option" where
  "connTrackListener_Accept_m ct w =
     (case cl_Listener ct of
        [] \<Rightarrow> None
      | Inl err # rest \<Rightarrow> Some (Inl err, ct\<lparr>cl_Listener := rest\<rparr>, w)
      | Inr conn # rest \<Rightarrow>
          (let conn1 = (if tc_is_tcp conn \<and> tcpKeepAlive (cl_opts ct) > 0
                        then conn\<lparr>tc_keepalive := Some (tcpKeepAlive (cl_opts ct))\<rparr> else conn);
               (tracker, w1) = newServerConnTracker_m conn1 (cl_opts ct) w
           in Some (Inr tracker, ct\<lparr>cl_Listener := rest\<rparr>, w1)))"

definition serverConnTracker_Close_m :: "serverConnTracker \<Rightarrow> track \<Rightarrow>
    string option \<times> serverConnTracker \<times> track" where
  "serverConnTracker_Close_m ct w =
     (let (err, conn) = tconn_Close (st_Conn ct);
          ct1 = ct\<lparr>st_Conn := conn\<rparr>;
          (ct2, w1) = (case st_event ct1 of
              Some h \<Rightarrow>
                (let w' = (case err of
                       Some e \<Rightarrow> ev_Errorf h (''failed closing: '' @ e) w
                     | None \<Rightarrow> ev_Printf h ''closing'' w)
                 in (ct1\<lparr>st_event := None\<rparr>, ev_Finish h w'))
            | None \<Rightarrow> (ct1, w));
          w2 = (if l_monitoring (st_opts ct2) then reportListenerConnClosed_m (l_name (st_opts ct2)) w1 else w1)
      in (err, ct2, w2))"

text \<open>The copies behave as the originals, so they inherit what was shown of those.\<close>

lemmas metrics_defs = reportDialerConnAttempt_m_def reportDialerConnEstablished_m_def
  reportDialerConnClosed_m_def reportDialerConnFailed_m_def
  dial_begin_m_def dial_end_m_def dialClientConnTracker_m_def
  clientConnTracker_Close_m_def reportListenerConnAccepted_m_def reportListenerConnClosed_m_def
  newServerConnTracker_m_def connTrackListener_Accept_m_def serverConnTracker_Close_m_def

lemma metrics_copies:
  "dial_begin_m = dial_begin" "dial_end_m = dial_end"
  "dialClientConnTracker_m = dialClientConnTracker"
  "clientConnTracker_Close_m = clientConnTracker_Close"
  "newServerConnTracker_m = newServerConnTracker"
  "connTrackListener_Accept_m = connTrackListener_Accept"
  "serverConnTracker_Close_m = serverConnTracker_Close"
  unfolding fun_eq_iff metrics_defs dial_defs clientConnTracker_Close_def
    newServerConnTracker_def connTrackListener_Accept_def serverConnTracker_Close_def
    reportDialerConnFailed_def report_defs
  by auto

interpretation client_close_m: tracked_close clientConnTracker_Close_m ct_Conn ct_event
    "\<lambda>ct. d_monitoring (ct_opts ct)"
    "\<lambda>ct w. counter_value (dialerConnClosedTotal w) [ct_dialerName ct]"
  unfolding metrics_copies by (rule client_close.tracked_close_axioms)

interpretation server_close_m: tracked_close serverConnTracker_Close_m st_Conn st_event
    "\<lambda>ct. l_monitoring (st_opts ct)"
    "\<lambda>ct w. counter_value (listenerClosedTotal w) [l_name (st_opts ct)]"
  unfolding metrics_copies by (rule server_close.tracked_close_axioms)

section \<open>Wrapping and registering\<close>

text \<open>
  \<open>WrapDialer\<close> and \<open>WrapListener\<close> start a goroutine that registers the package's
  counters and creates the children of the name; \<open>None\<close> is its panic, which ends the
  program. A collector is known to the registry by its fully qualified name.
\<close>

definition dialer_collectors :: "string list" where
  "dialer_collectors = [''net_dialer_dialer_conn_attempted_total'',
     ''net_dialer_dialer_conn_established_total'', ''net_dialer_dialer_conn_failed_total'',
     ''net_dialer_dialer_conn_closed_total'']"

definition listener_collectors :: "string list" where
  "listener_collectors = [''net_listener_listener_conn_accepted_total'',
     ''net_listener_listener_conn_closed_total'']"

fun register_all :: "string list \<Rightarrow> registry \<Rightarrow> registry option" where
  "register_all [] reg = Some reg"
| "register_all (c # cs) reg =
     (case MustRegister c reg of None \<Rightarrow> None | Some reg' \<Rightarrow> register_all cs reg')"

definition WrapDialer_go :: "string \<Rightarrow> registry \<Rightarrow> track \<Rightarrow> (registry \<times> track) option" where
  "WrapDialer_go name reg w =
     (case register_all dialer_collectors reg of
        None \<Rightarrow> None
      | Some reg' \<Rightarrow>
          (let w1 = w\<lparr>dialerAttemptedTotal := WithLabelValues [name] (dialerAttemptedTotal w)\<rparr>;
               w2 = w1\<lparr>dialerConnEstablishedTotal :=
                      WithLabelValues [name] (dialerConnEstablishedTotal w1)\<rparr>;
               w3 = fold (\<lambda>reason w. w\<lparr>dialerConnFailedTotal :=
                      WithLabelValues [name, reason] (dialerConnFailedTotal w)\<rparr>)
                    [failedTimeout, failedResolution, failedConnRefused, failedUnknown] w2
           in Some (reg', w3\<lparr>dialerConnClosedTotal := WithLabelValues [name] (dialerConnClosedTotal w3)\<rparr>)))"

definition WrapDialer :: "dialerContextFunc \<Rightarrow> string \<Rightarrow> bool \<Rightarrow> bool \<Rightarrow>
    go_context \<Rightarrow> string \<Rightarrow> string \<Rightarrow> track \<Rightarrow> (dial_error + clientConnTracker) \<times> track" where
  "WrapDialer net_dialer name monitoring tracing =
     (let opts = \<lparr>d_name = name, d_monitoring = monitoring, d_tracing = tracing,
            parentDialContextFunc = net_dialer\<rparr>
      in (\<lambda>ctx network addr w.
            let ctxName = DialNameFromContext_m ctx;
                name = (if ctxName \<noteq> '''' then ctxName else d_name opts)
            in dialClientConnTracker_m ctx network addr name opts w))"

definition WrapListener_go :: "string \<Rightarrow> registry \<Rightarrow> track \<Rightarrow> (registry \<times> track) option" where
  "WrapListener_go name reg w =
     (case register_all listener_collectors reg of
        None \<Rightarrow> None
      | Some reg' \<Rightarrow>
          (let w1 = w\<lparr>listenerAcceptedTotal := WithLabelValues [name] (listenerAcceptedTotal w)\<rparr>
           in Some (reg', w1\<lparr>listenerClosedTotal := WithLabelValues [name] (listenerClosedTotal w1)\<rparr>)))"

definition WrapListener :: "tlistener \<Rightarrow> string \<Rightarrow> bool \<Rightarrow> bool \<Rightarrow> connTrackListener" where
  "WrapListener old name monitoring tracing =
     \<lparr>cl_Listener = old, cl_opts = \<lparr>l_name = name, l_monitoring = monitoring,
        l_tracing = tracing, tcpKeepAlive = 0\<rparr>\<rparr>"

lemma register_all_spec:
  "distinct cs \<Longrightarrow> register_all cs reg =
     (if set cs \<inter> set reg = {} then Some (rev cs @ reg) else None)"
  by (induction cs arbitrary: reg) (auto simp: MustRegister_def)

lemma register_all_set: "register_all cs reg = Some reg' \<Longrightarrow> set reg' = set cs \<union> set reg"
  by (induction cs reg rule: register_all.induct) (auto simp: MustRegister_def split: if_splits)

lemma collectors_distinct:
  "distinct dialer_collectors" "distinct listener_collectors"
  "set dialer_collectors \<inter> set listener_collectors = {}"
  by (simp_all add: dialer_collectors_def listener_collectors_def)

text \<open>
  C40. The counters are global to the package, so a registry takes one wrapped dialer and
  one wrapped listener: the first registration on a fresh registry succeeds without
  changing a count, and every further one, under whatever name, panics.
\<close>

theorem wrap_registers_once:
  assumes "set (dialer_collectors @ listener_collectors) \<inter> set reg = {}"
  shows "\<exists>reg1 w1 reg2 w2. WrapDialer_go name reg w = Some (reg1, w1)
    \<and> (\<forall>ls. counter_value (dialerAttemptedTotal w1) ls = counter_value (dialerAttemptedTotal w) ls
        \<and> counter_value (dialerConnEstablishedTotal w1) ls = counter_value (dialerConnEstablishedTotal w) ls
        \<and> counter_value (dialerConnFailedTotal w1) ls = counter_value (dialerConnFailedTotal w) ls
        \<and> counter_value (dialerConnClosedTotal w1) ls = counter_value (dialerConnClosedTotal w) ls)
    \<and> WrapListener_go lname reg1 w1 = Some (reg2, w2)
    \<and> WrapDialer_go name' reg2 w2 = None \<and> WrapListener_go lname' reg2 w2 = None"
proof -
  have "set dialer_collectors \<inter> set reg = {}" and
    l: "set listener_collectors \<inter> set (rev dialer_collectors @ reg) = {}"
    using assms collectors_distinct(3) by auto
  then have d: "register_all dialer_collectors reg = Some (rev dialer_collectors @ reg)"
    and l: "register_all listener_collectors (rev dialer_collectors @ reg) =
      Some (rev listener_collectors @ rev dialer_collectors @ reg)"
    by (simp_all add: register_all_spec collectors_distinct)
  have "dialer_collectors \<noteq> []" "listener_collectors \<noteq> []"
    by (simp_all add: dialer_collectors_def listener_collectors_def)
  then have again: "register_all dialer_collectors (rev listener_collectors @ rev dialer_collectors @ reg) = None"
    "register_all listener_collectors (rev listener_collectors @ rev dialer_collectors @ reg) = None"
    by (auto simp: register_all_spec collectors_distinct Int_Un_distrib)
  show ?thesis
    by (simp add: WrapDialer_go_def WrapListener_go_def d l again Let_def)
qed

theorem wrap_registers_once_witness:
  "\<exists>reg1 w1 reg2 w2. WrapDialer_go ''web'' [''go_goroutines''] track_empty = Some (reg1, w1)
    \<and> WrapListener_go ''api'' reg1 w1 = Some (reg2, w2)
    \<and> WrapDialer_go ''other'' reg2 w2 = None"
proof -
  have "set (dialer_collectors @ listener_collectors) \<inter> set [''go_goroutines''] = {}"
    by (simp add: dialer_collectors_def listener_collectors_def)
  from wrap_registers_once [OF this, of "''web''" track_empty "''api''" "''other''" "''x''"]
  show ?thesis by blast
qed

text \<open>
  A listener of \<open>WrapListener\<close> never sets a keep-alive: an accepted connection is
  tracked unchanged, whatever listener and flags it was wrapped with.
\<close>

theorem wrapped_listener_no_keepalive:
  assumes "connTrackListener_Accept_m (WrapListener (Inr conn # old) name monitoring tracing) w =
    Some (r, l', w')"
  shows "\<exists>ct. r = Inr ct \<and> st_Conn ct = conn \<and> l' = WrapListener old name monitoring tracing"
proof -
  let ?o = "\<lparr>l_name = name, l_monitoring = monitoring, l_tracing = tracing, tcpKeepAlive = 0\<rparr>"
  obtain ct w1 where n: "newServerConnTracker conn ?o w = (ct, w1)" by (metis surj_pair)
  with assms newServerConnTracker_spec(2) [OF n] show ?thesis
    by (auto simp: WrapListener_def metrics_copies connTrackListener_Accept_def)
qed

theorem wrapped_listener_no_keepalive_witness:
  "\<exists>ct l' w'. connTrackListener_Accept_m (WrapListener [Inr sample_tconn] ''api'' True True) track_empty
      = Some (Inr ct, l', w') \<and> tc_keepalive (st_Conn ct) = None"
proof -
  obtain r l' w' where a: "connTrackListener_Accept_m (WrapListener [Inr sample_tconn] ''api'' True True)
      track_empty = Some (r, l', w')"
    by (cases "newServerConnTracker sample_tconn (cl_opts (WrapListener [] ''api'' True True)) track_empty")
      (simp add: metrics_copies connTrackListener_Accept_def WrapListener_def)
  from wrapped_listener_no_keepalive [OF a] a show ?thesis by (auto simp: sample_tconn_def)
qed

text \<open>
  The two packages keep the dialer's name under different keys: a name set with the
  exported \<open>DialNameToContext\<close> is not the name a wrapped dialer tracks under; only a
  value stored under the string \<open>DialerKey\<close> itself is.
\<close>

theorem wrapped_dialer_ignores_name:
  "WrapDialer net_dialer name monitoring tracing (DialNameToContext [] n) network addr w =
     dialClientConnTracker (DialNameToContext [] n) network addr name
       \<lparr>d_name = name, d_monitoring = monitoring, d_tracing = tracing,
         parentDialContextFunc = net_dialer\<rparr> w
   \<and> DialNameFromContext_m (ctx_WithValue ctx ''DialerKey'' (CtxString n)) = n"
  by (simp add: WrapDialer_def DialNameFromContext_m_def DialNameToContext_def ctx_Value_def
      ctx_WithValue_def dialerNameKey_def dialerNameKey_m_def metrics_copies Let_def)

end
