(* ===== verification/Counters.thy ===== *)
theory Counters
  imports Metrics
begin

text \<open>
  The counters of connection tracking: how \<open>rpc/mux.go\<close> and \<open>instrument/metrics/metrics.go\<close>
  declare them, and the invariants that hold of them whatever sequence of dials, accepts,
  closes and registrations a program makes.
\<close>

section \<open>The declarations\<close>

text \<open>
  The options of a \<open>CounterVec\<close> and its label names. A registry knows it by the fully
  qualified name, and \<open>WithLabelValues\<close> panics unless it is given as many values as there
  are labels.
\<close>

record counter_decl =
  co_Namespace :: string
  co_Subsystem :: string
  co_Name :: string
  co_Help :: string
  co_labels :: "string list"

definition fq_name :: "counter_decl \<Rightarrow> string" where
  "fq_name c = co_Namespace c @ ''_'' @ co_Subsystem c @ ''_'' @ co_Name c"

definition rpc_dialer_counters :: "counter_decl list" where
  "rpc_dialer_counters =
     [\<lparr>co_Namespace = ''net'', co_Subsystem = ''conntrack'', co_Name = ''dialer_conn_attempted_total'',
        co_Help = ''Total number of connections attempted by the given dialer a given name.'',
        co_labels = [''dialer_name'']\<rparr>,
      \<lparr>co_Namespace = ''net'', co_Subsystem = ''conntrack'', co_Name = ''dialer_conn_established_total'',
        co_Help = ''Total number of connections successfully established by the given dialer a given name.'',
        co_labels = [''dialer_name'']\<rparr>,
      \<lparr>co_Namespace = ''net'', co_Subsystem = ''conntrack'', co_Name = ''dialer_conn_failed_total'',
        co_Help = ''Total number of connections failed to dial by the dialer a given name.'',
        co_labels = [''dialer_name'', ''reason'']\<rparr>,
      \<lparr>co_Namespace = ''net'', co_Subsystem = ''conntrack'', co_Name = ''dialer_conn_closed_total'',
        co_Help = ''Total number of connections closed which originated from the dialer of a given name.'',
        co_labels = [''dialer_name'']\<rparr>]"

definition rpc_listener_counters :: "counter_decl list" where
  "rpc_listener_counters =
     [\<lparr>co_Namespace = ''net'', co_Subsystem = ''conntrack'', co_Name = ''listener_conn_accepted_total'',
        co_Help = ''Total number of connections opened to the listener of a given name.'',
        co_labels = [''listener_name'']\<rparr>,
      \<lparr>co_Namespace = ''net'', co_Subsystem = ''conntrack'', co_Name = ''listener_conn_closed_total'',
        co_Help = ''Total number of connections closed that were made to the listener of a given name.'',
        co_labels = [''listener_name'']\<rparr>]"

definition metrics_listener_counters :: "counter_decl list" where
  "metrics_listener_counters =
     [\<lparr>co_Namespace = ''net'', co_Subsystem = ''listener'', co_Name = ''listener_conn_accepted_total'',
        co_Help = ''Total number of connections opened to the listener of a given name.'',
        co_labels = [''listener_name'']\<rparr>,
      \<lparr>co_Namespace = ''net'', co_Subsystem = ''listener'', co_Name = ''listener_conn_closed_total'',
        co_Help = ''Total number of connections closed that were made to the listener of a given name.'',
        co_labels = [''listener_name'']\<rparr>]"

definition metrics_dialer_counters :: "counter_decl list" where
  "metrics_dialer_counters =
     [\<lparr>co_Namespace = ''net'', co_Subsystem = ''dialer'', co_Name = ''dialer_conn_attempted_total'',
        co_Help = ''Total number of connections attempted by the given dialer a given name.'',
        co_labels = [''dialer_name'']\<rparr>,
      \<lparr>co_Namespace = ''net'', co_Subsystem = ''dialer'', co_Name = ''dialer_conn_established_total'',
        co_Help = ''Total number of connections successfully established by the given dialer a given name.'',
        co_labels = [''dialer_name'']\<rparr>,
      \<lparr>co_Namespace = ''net'', co_Subsystem = ''dialer'', co_Name = ''dialer_conn_failed_total'',
        co_Help = ''Total number of connections failed to dial by the dialer a given name.'',
        co_labels = [''dialer_name'', ''reason'']\<rparr>,
      \<lparr>co_Namespace = ''net'', co_Subsystem = ''dialer'', co_Name = ''dialer_conn_closed_total'',
        co_Help = ''Total number of connections closed which originated from the dialer of a given name.'',
        co_labels = [''dialer_name'']\<rparr>]"

lemmas counter_decls = rpc_dialer_counters_def rpc_listener_counters_def
  metrics_listener_counters_def metrics_dialer_counters_def

text \<open>
  The names under which \<open>WrapDialer\<close> and \<open>WrapListener\<close> register are those of the
  declarations, and no two of the twelve counters of the repository share a name, so that one
  registry can take them all.
\<close>

theorem counters_coexist:
  "dialer_collectors = map fq_name metrics_dialer_counters
   \<and> listener_collectors = map fq_name metrics_listener_counters
   \<and> (let names = map fq_name (rpc_dialer_counters @ rpc_listener_counters
          @ metrics_dialer_counters @ metrics_listener_counters)
      in length names = 12 \<and> distinct names \<and> register_all names [] = Some (rev names))"
proof -
  have "distinct (map fq_name (rpc_dialer_counters @ rpc_listener_counters
      @ metrics_dialer_counters @ metrics_listener_counters))"
    by (simp add: counter_decls fq_name_def)
  then show ?thesis
    by (simp only: Let_def register_all_spec) (simp add: counter_decls fq_name_def dialer_collectors_def listener_collectors_def)
qed

text \<open>
  The counters of a package in the order of its declarations. Whoever gives a vector a child
  must give it as many values as its declaration has labels.
\<close>

definition counter_vecs :: "track \<Rightarrow> counter_vec list" where
  "counter_vecs w = [dialerAttemptedTotal w, dialerConnEstablishedTotal w, dialerConnFailedTotal w,
     dialerConnClosedTotal w, listenerAcceptedTotal w, listenerClosedTotal w]"

definition rpc_counters :: "counter_decl list" where
  "rpc_counters = rpc_dialer_counters @ rpc_listener_counters"

definition metrics_counters :: "counter_decl list" where
  "metrics_counters = metrics_dialer_counters @ metrics_listener_counters"

definition labels_fit :: "counter_decl list \<Rightarrow> track \<Rightarrow> bool" where
  "labels_fit decls w \<longleftrightarrow>
     list_all2 (\<lambda>v c. \<forall>ls \<in> dom v. length ls = length (co_labels c)) (counter_vecs w) decls"

section \<open>All operations on the counters\<close>

text \<open>
  What the exported operations of the two packages do to their counters. A dial takes time:
  from the call of the parent dialer to its return, with whatever result, it is in flight,
  and other operations go on, dials of the same name among them. A dial in flight is what
  its goroutine has on its stack.
\<close>

record dialing =
  dg_name :: string
  dg_opts :: dialerOpts
  dg_event :: "nat option"

inductive track_step :: "track \<times> dialing list \<Rightarrow> track \<times> dialing list \<Rightarrow> bool" where
  "track_step (w, ds) (PreRegisterDialerMetrics name w, ds)"
| "dial_begin addr name opts w = (event, w') \<Longrightarrow>
     track_step (w, ds) (w', \<lparr>dg_name = name, dg_opts = opts, dg_event = event\<rparr> # ds)"
| "dial_end res (dg_name d) (dg_opts d) (dg_event d) w = (r, w') \<Longrightarrow>
     track_step (w, ds1 @ d # ds2) (w', ds1 @ ds2)"
| "clientConnTracker_Close ct w = (err, ct', w') \<Longrightarrow> track_step (w, ds) (w', ds)"
| "NewListener inner optFuncs w = (l, w') \<Longrightarrow> track_step (w, ds) (w', ds)"
| "connTrackListener_Accept l w = Some (a, l', w') \<Longrightarrow> track_step (w, ds) (w', ds)"
| "serverConnTracker_Close st w = (err, st', w') \<Longrightarrow> track_step (w, ds) (w', ds)"

inductive track_step_m :: "track \<times> dialing list \<Rightarrow> track \<times> dialing list \<Rightarrow> bool" where
  "WrapDialer_go name reg w = Some (reg', w') \<Longrightarrow> track_step_m (w, ds) (w', ds)"
| "dial_begin_m addr name opts w = (event, w') \<Longrightarrow>
     track_step_m (w, ds) (w', \<lparr>dg_name = name, dg_opts = opts, dg_event = event\<rparr> # ds)"
| "dial_end_m res (dg_name d) (dg_opts d) (dg_event d) w = (r, w') \<Longrightarrow>
     track_step_m (w, ds1 @ d # ds2) (w', ds1 @ ds2)"
| "clientConnTracker_Close_m ct w = (err, ct', w') \<Longrightarrow> track_step_m (w, ds) (w', ds)"
| "WrapListener_go name reg w = Some (reg', w') \<Longrightarrow> track_step_m (w, ds) (w', ds)"
| "connTrackListener_Accept_m l w = Some (a, l', w') \<Longrightarrow> track_step_m (w, ds) (w', ds)"
| "serverConnTracker_Close_m st w = (err, st', w') \<Longrightarrow> track_step_m (w, ds) (w', ds)"

section \<open>The ledger of the counters\<close>

definition reasons :: "string list" where
  "reasons = [failedTimeout, failedResolution, failedConnRefused, failedUnknown]"

definition failures :: "track \<Rightarrow> string \<Rightarrow> nat" where
  "failures w name = sum_list (map (\<lambda>r. counter_value (dialerConnFailedTotal w) [name, r]) reasons)"

text \<open>The dials of a name in flight that are counted: those of monitoring dialers.\<close>

definition in_flight :: "dialing list \<Rightarrow> string \<Rightarrow> nat" where
  "in_flight ds name = length (filter (\<lambda>d. dg_name d = name \<and> d_monitoring (dg_opts d)) ds)"

definition labels_ok :: "track \<Rightarrow> bool" where
  "labels_ok w \<longleftrightarrow> (\<forall>v \<in> {dialerAttemptedTotal w, dialerConnEstablishedTotal w, dialerConnClosedTotal w,
        listenerAcceptedTotal w, listenerClosedTotal w}. \<forall>ls \<in> dom v. length ls = 1)
   \<and> (\<forall>ls \<in> dom (dialerConnFailedTotal w). \<exists>name. \<exists>r \<in> set reasons. ls = [name, r])"

definition balanced :: "nat \<Rightarrow> nat \<Rightarrow> nat \<Rightarrow> nat \<Rightarrow> bool" where
  "balanced att est fails flying \<longleftrightarrow>
     att \<le> est + fails + flying \<and> fails + 2 * (est + flying) \<le> 2 * att"

definition dials_ok :: "track \<Rightarrow> dialing list \<Rightarrow> bool" where
  "dials_ok w ds \<longleftrightarrow> (\<forall>name. balanced (counter_value (dialerAttemptedTotal w) [name])
     (counter_value (dialerConnEstablishedTotal w) [name]) (failures w name) (in_flight ds name))"

lemma balanced_dial:
  "balanced att est fails flying \<Longrightarrow> balanced (Suc att) est fails (Suc flying)"
  "balanced att est fails (Suc flying) \<Longrightarrow> balanced att (Suc est) fails flying"
  "balanced att est fails (Suc flying) \<Longrightarrow> d = 1 \<or> d = 2 \<Longrightarrow> balanced att est (fails + d) flying"
  by (auto simp: balanced_def)

lemma in_flight_simps [simp]:
  "in_flight [] name = 0"
  "in_flight (d # ds) name = in_flight ds name + (if dg_name d = name \<and> d_monitoring (dg_opts d) then 1 else 0)"
  "in_flight (ds1 @ ds2) name = in_flight ds1 name + in_flight ds2 name"
  by (simp_all add: in_flight_def)

lemma dom_counter [simp]:
  "dom (Inc ls v) = insert ls (dom v)" "dom (WithLabelValues ls v) = insert ls (dom v)"
  by (auto simp: Inc_def WithLabelValues_def split: option.split)

lemma reasons_simps [simp]: "set reasons = {''timeout'', ''resolution'', ''refused'', ''unknown''}"
  by (simp add: reasons_def reason_defs)

lemma labels_ok_fit:
  assumes "labels_ok w"
  shows "labels_fit rpc_counters w" and "labels_fit metrics_counters w"
proof -
  have "length ls = 2" if "ls \<in> dom (dialerConnFailedTotal w)" for ls
  proof -
    from assms that obtain name r where "ls = [name, r]" unfolding labels_ok_def by meson
    then show ?thesis by simp
  qed
  then have lens: "list_all2 (\<lambda>v n. \<forall>ls \<in> dom v. length ls = n) (counter_vecs w) [1, 1, 2, 1, 1, 1]"
    using assms unfolding labels_ok_def counter_vecs_def by simp
  have fit: "labels_fit decls w" if "map (length \<circ> co_labels) decls = [1, 1, 2, 1, 1, 1]" for decls
    using lens unfolding that [symmetric] list_all2_map2 labels_fit_def comp_apply .
  show "labels_fit rpc_counters w" and "labels_fit metrics_counters w"
    by (rule fit; simp add: rpc_counters_def metrics_counters_def counter_decls)+
qed

text \<open>How many reasons a failed dial is counted for.\<close>

fun charge :: "dial_error \<Rightarrow> nat" where
  "charge (OpError (SyscallError errno) _ _) = (if errno = ''ECONNREFUSED'' then 2 else 1)"
| "charge (OpError OtherNested timeout _) = (if timeout then 2 else 1)"
| "charge _ = 1"

lemma charge_cases: "charge err = 1 \<or> charge err = 2"
  by (cases err rule: charge.cases) auto

lemma inc_failed_counters [simp]:
  "dialerAttemptedTotal (inc_failed name r w) = dialerAttemptedTotal w"
  "dialerConnEstablishedTotal (inc_failed name r w) = dialerConnEstablishedTotal w"
  "dialerConnClosedTotal (inc_failed name r w) = dialerConnClosedTotal w"
  "listenerAcceptedTotal (inc_failed name r w) = listenerAcceptedTotal w"
  "listenerClosedTotal (inc_failed name r w) = listenerClosedTotal w"
  by (simp_all add: inc_failed_def)

lemma failures_inc:
  "r \<in> set reasons \<Longrightarrow> failures (inc_failed name r w) n = failures w n + (if n = name then 1 else 0)"
  by (auto simp: failures_def inc_failed_def reasons_def reason_defs)

lemma labels_inc: "r \<in> set reasons \<Longrightarrow> labels_ok w \<Longrightarrow> labels_ok (inc_failed name r w)"
  by (auto simp: labels_ok_def inc_failed_def)

lemma report_failed:
  "dialerAttemptedTotal (reportDialerConnFailed name err w) = dialerAttemptedTotal w"
  "dialerConnEstablishedTotal (reportDialerConnFailed name err w) = dialerConnEstablishedTotal w"
  "labels_ok w \<Longrightarrow> labels_ok (reportDialerConnFailed name err w)"
  "failures (reportDialerConnFailed name err w) n = failures w n + (if n = name then charge err else 0)"
proof -
  have r: "failedTimeout \<in> set reasons" "failedResolution \<in> set reasons" "failedConnRefused \<in> set reasons"
    "failedUnknown \<in> set reasons" by (simp_all add: reason_defs)
  note labels = r [THEN labels_inc] and sums = r [THEN failures_inc]
  show "dialerAttemptedTotal (reportDialerConnFailed name err w) = dialerAttemptedTotal w"
    "dialerConnEstablishedTotal (reportDialerConnFailed name err w) = dialerConnEstablishedTotal w"
    "labels_ok w \<Longrightarrow> labels_ok (reportDialerConnFailed name err w)"
    "failures (reportDialerConnFailed name err w) n = failures w n + (if n = name then charge err else 0)"
    by (cases err rule: charge.cases; simp add: reportDialerConnFailed_def Let_def sums labels)+
qed

text \<open>
  The invariant is about the six counters alone, so that what leaves them alone or creates
  the children of a name keeps it.
\<close>

definition same_counters :: "track \<Rightarrow> track \<Rightarrow> bool" where
  "same_counters w w' \<longleftrightarrow> dialerAttemptedTotal w' = dialerAttemptedTotal w
     \<and> dialerConnEstablishedTotal w' = dialerConnEstablishedTotal w
     \<and> dialerConnFailedTotal w' = dialerConnFailedTotal w
     \<and> dialerConnClosedTotal w' = dialerConnClosedTotal w
     \<and> listenerAcceptedTotal w' = listenerAcceptedTotal w \<and> listenerClosedTotal w' = listenerClosedTotal w"

definition ledger :: "track \<Rightarrow> dialing list \<Rightarrow> bool" where
  "ledger w ds \<longleftrightarrow> labels_ok w \<and> dials_ok w ds"

lemma ledger_same: "same_counters w w' \<Longrightarrow> ledger w' ds = ledger w ds"
  by (simp add: same_counters_def ledger_def labels_ok_def dials_ok_def failures_def)

lemma ledger_report:
  "ledger w ds \<Longrightarrow> ledger (reportDialerConnClosed name w) ds"
  "ledger w ds \<Longrightarrow> ledger (reportListenerConnAccepted name w) ds"
  "ledger w ds \<Longrightarrow> ledger (reportListenerConnClosed name w) ds"
  by (simp_all add: ledger_def labels_ok_def dials_ok_def failures_def report_defs Let_def)

lemma ledger_attempt:
  assumes "ledger w ds" and "d_monitoring (dg_opts d)"
  shows "ledger (reportDialerConnAttempt (dg_name d) w) (d # ds)"
  using assms
  by (auto simp: ledger_def labels_ok_def dials_ok_def failures_def report_defs balanced_dial(1))

lemma ledger_unmonitored: "\<not> d_monitoring (dg_opts d) \<Longrightarrow> ledger w (ds1 @ d # ds2) = ledger w (ds1 @ ds2)"
  by (simp add: ledger_def dials_ok_def)

lemma ledger_established:
  assumes "ledger w (ds1 @ d # ds2)" and "d_monitoring (dg_opts d)"
  shows "ledger (reportDialerConnEstablished (dg_name d) w) (ds1 @ ds2)"
  using assms
  by (auto simp: ledger_def labels_ok_def dials_ok_def failures_def report_defs intro: balanced_dial(2)
      split: if_splits) blast

lemma ledger_failed:
  assumes "ledger w (ds1 @ d # ds2)" and "d_monitoring (dg_opts d)"
  shows "ledger (reportDialerConnFailed (dg_name d) err w) (ds1 @ ds2)"
  using assms balanced_dial(3) [OF _ charge_cases]
  by (auto simp: ledger_def dials_ok_def report_failed split: if_splits) blast

lemmas children_defs = PreRegisterDialerMetrics_def preRegisterListenerMetrics_def Let_def reason_defs

lemma ledger_children:
  "ledger w ds \<Longrightarrow> ledger (PreRegisterDialerMetrics name w) ds"
  "ledger w ds \<Longrightarrow> ledger (preRegisterListenerMetrics name w) ds"
  by (auto simp: ledger_def labels_ok_def dials_ok_def failures_def children_defs)

lemma ledger_wrap:
  "ledger w ds \<Longrightarrow> WrapDialer_go name reg w = Some (reg', w') \<Longrightarrow> ledger w' ds"
  "ledger w ds \<Longrightarrow> WrapListener_go name reg w = Some (reg', w') \<Longrightarrow> ledger w' ds"
proof -
  have "w' = PreRegisterDialerMetrics name w" if "WrapDialer_go name reg w = Some (reg', w')"
    using that by (simp add: WrapDialer_go_def PreRegisterDialerMetrics_def Let_def split: option.splits)
  moreover have "w' = preRegisterListenerMetrics name w" if "WrapListener_go name reg w = Some (reg', w')"
    using that by (simp add: WrapListener_go_def preRegisterListenerMetrics_def Let_def split: option.splits)
  ultimately show "ledger w ds \<Longrightarrow> WrapDialer_go name reg w = Some (reg', w') \<Longrightarrow> ledger w' ds"
    and "ledger w ds \<Longrightarrow> WrapListener_go name reg w = Some (reg', w') \<Longrightarrow> ledger w' ds"
    using ledger_children by metis+
qed

lemma ledger_event [simp]:
  "ledger (ev_Printf h s w) ds = ledger w ds" "ledger (ev_Errorf h s w) ds = ledger w ds"
  "ledger (ev_Finish h w) ds = ledger w ds" "ledger (snd (NewEventLog fam title w)) ds = ledger w ds"
  by (intro ledger_same; simp add: same_counters_def NewEventLog_def)+

lemma ledger_begin:
  assumes "ledger w ds" and "dial_begin addr name opts w = (event, w')"
  shows "ledger w' (\<lparr>dg_name = name, dg_opts = opts, dg_event = event\<rparr> # ds)"
proof -
  let ?d = "\<lparr>dg_name = name, dg_opts = opts, dg_event = event\<rparr>"
  let ?w = "if d_tracing opts then snd (NewEventLog (''net.ClientConn.'' @ name) addr w) else w"
  have "w' = (if d_monitoring opts then reportDialerConnAttempt name ?w else ?w)"
    using assms(2) by (auto simp: dial_begin_def Let_def split: if_splits prod.splits)
  moreover have "ledger ?w ds" using assms(1) by simp
  ultimately show ?thesis
    using ledger_attempt [of ?w ds ?d] ledger_unmonitored [of ?d ?w "[]" ds] by auto
qed

lemma ledger_end:
  assumes "ledger w (ds1 @ d # ds2)" and "dial_end res (dg_name d) (dg_opts d) event w = (r, w')"
  shows "ledger w' (ds1 @ ds2)"
  using assms
  by (auto simp: dial_end_def Let_def ledger_unmonitored split: sum.splits option.splits if_splits
      intro!: ledger_established ledger_failed)

lemma ledger_close:
  "ledger w ds \<Longrightarrow> clientConnTracker_Close ct w = (err, ct', w') \<Longrightarrow> ledger w' ds"
  "ledger w ds \<Longrightarrow> serverConnTracker_Close st w = (err, st', w') \<Longrightarrow> ledger w' ds"
  by (auto simp: clientConnTracker_Close_def serverConnTracker_Close_def Let_def
      split: prod.splits option.splits if_splits intro!: ledger_report)

lemma ledger_accept:
  assumes "ledger w ds" and "connTrackListener_Accept l w = Some (a, l', w')"
  shows "ledger w' ds"
proof -
  have "ledger (snd (newServerConnTracker conn opts w)) ds" for conn opts
    using assms(1) ledger_event(4) [of "''net.ServerConn.'' @ l_name opts" "tc_remote conn" w]
    by (auto simp: newServerConnTracker_def Let_def split: prod.splits intro!: ledger_report)
  then show ?thesis
    using assms
    by (auto simp: connTrackListener_Accept_def Let_def split: list.splits sum.splits prod.splits)
      (metis snd_conv)+
qed

lemma ledger_listener: "ledger w ds \<Longrightarrow> NewListener inner optFuncs w = (l, w') \<Longrightarrow> ledger w' ds"
  by (auto simp: NewListener_def Let_def ledger_children split: if_splits)

lemma ledger_empty: "ledger track_empty []"
  by (simp add: ledger_def labels_ok_def dials_ok_def failures_def track_empty_def counter_value_def
      balanced_def reasons_def)

lemmas ledger_ops = ledger_children ledger_wrap ledger_begin ledger_end ledger_close ledger_accept ledger_listener

interpretation rpc_tracking: transition_system "\<lambda>s. s = (track_empty, [])" track_step "\<lambda>(w, ds). ledger w ds"
proof (unfold_locales, goal_cases)
  case (2 s t)
  then show ?case by (cases rule: track_step.cases) (auto intro: ledger_ops)
qed (simp add: ledger_empty)

interpretation metrics_tracking: transition_system "\<lambda>s. s = (track_empty, [])" track_step_m "\<lambda>(w, ds). ledger w ds"
proof (unfold_locales, goal_cases)
  case (2 s t)
  then show ?case by (cases rule: track_step_m.cases) (auto simp: metrics_copies intro: ledger_ops)
qed (simp add: ledger_empty)

text \<open>
  C25. The ledger of the counters. Whatever dials, accepts, closes and registrations a program
  makes, in either package, and however many dials are in flight, no counter gets a child
  with a number of labels that is not that of its declaration (which would panic), failures
  have one of the four reasons, and for every dialer: the dials attempted are at most those
  established, the failures counted and the dials in flight together, and the failures
  counted are at most twice the dials that have ended without a connection.
\<close>

theorem counters_ledger:
  assumes "track_step\<^sup>*\<^sup>* (track_empty, []) (w, ds) \<and> decls = rpc_dialer_counters @ rpc_listener_counters
    \<or> track_step_m\<^sup>*\<^sup>* (track_empty, []) (w, ds) \<and> decls = metrics_dialer_counters @ metrics_listener_counters"
  shows "list_all2 (\<lambda>v c. \<forall>ls \<in> dom v. length ls = length (co_labels c)) (counter_vecs w) decls
    \<and> dom (dialerConnFailedTotal w)
        \<subseteq> {[name, r] | name r. r \<in> {''timeout'', ''resolution'', ''refused'', ''unknown''}}
    \<and> counter_value (dialerAttemptedTotal w) [name]
        \<le> counter_value (dialerConnEstablishedTotal w) [name] + failures w name + in_flight ds name
    \<and> failures w name + 2 * (counter_value (dialerConnEstablishedTotal w) [name] + in_flight ds name)
        \<le> 2 * counter_value (dialerAttemptedTotal w) [name]"
proof -
  have "ledger w ds"
    using assms rpc_tracking.reach_inv [of "(w, ds)"] metrics_tracking.reach_inv [of "(w, ds)"]
    by (auto simp: reach_def)
  then have labels: "labels_ok w" and dials: "dials_ok w ds" by (simp_all add: ledger_def)
  have "labels_fit decls w"
    using assms labels_ok_fit [OF labels] by (auto simp: rpc_counters_def metrics_counters_def)
  moreover have "dom (dialerConnFailedTotal w)
      \<subseteq> {[name, r] | name r. r \<in> {''timeout'', ''resolution'', ''refused'', ''unknown''}}"
    using labels unfolding labels_ok_def reasons_simps by blast
  ultimately show ?thesis
    using dials unfolding labels_fit_def dials_ok_def balanced_def by blast
qed

text \<open>
  The witness: one dial was refused, which is counted for two reasons, while another one is
  in flight.
\<close>

theorem counters_ledger_witness:
  "\<exists>w d. track_step\<^sup>*\<^sup>* (track_empty, []) (w, [d]) \<and> counter_value (dialerAttemptedTotal w) [''web''] = 2
    \<and> in_flight [d] ''web'' = 1 \<and> failures w ''web'' = 2
    \<and> counter_value (dialerConnEstablishedTotal w) [''web''] = 0"
proof -
  let ?d = "\<lambda>e. \<lparr>dg_name = ''web'', dg_opts = sample_dialer, dg_event = e\<rparr>"
  let ?refused = "Inl (OpError (SyscallError ''ECONNREFUSED'') False ''connection refused'')"
  obtain e1 w1 where d1: "dial_begin ''10.9.9.9:1'' ''web'' sample_dialer track_empty = (e1, w1)" by force
  obtain e2 w2 where d2: "dial_begin ''10.0.0.2:80'' ''web'' sample_dialer w1 = (e2, w2)" by force
  obtain r w where d3: "dial_end ?refused ''web'' sample_dialer e1 w2 = (r, w)" by force
  have "track_step (track_empty, []) (w1, [?d e1])" by (rule track_step.intros(2) [OF d1])
  moreover have "track_step (w1, [?d e1]) (w2, [?d e2, ?d e1])" by (rule track_step.intros(2) [OF d2])
  moreover have "track_step (w2, [?d e2, ?d e1]) (w, [?d e2])"
    using track_step.intros(3) [of ?refused "?d e1" w2 r w "[?d e2]" "[]"] d3 by simp
  ultimately have run: "track_step\<^sup>*\<^sup>* (track_empty, []) (w, [?d e2])"
    by (meson converse_rtranclp_into_rtranclp rtranclp.rtrancl_refl)
  have att: "counter_value (dialerAttemptedTotal w) [''web''] = 2"
    and est: "counter_value (dialerConnEstablishedTotal w) [''web''] = 0"
    and fails: "failures w ''web'' = 2"
    using d1 d2 d3 by (auto simp: dial_begin_def dial_end_def sample_dialer_sel Let_def report_defs NewEventLog_def
        report_failed failures_def reasons_def reason_defs track_empty_def reportDialerConnFailed_def
        inc_failed_def counter_value_def Inc_def)
  from counters_ledger [of w "[?d e2]" _ "''web''"] run att est fails show ?thesis
    by (intro exI [of _ w] exI [of _ "?d e2"]) (simp add: sample_dialer_sel)
qed

end
