(* ===== verification/ServerUtil.thy ===== *)
theory ServerUtil
  imports Http1
begin

unbundle bit_operations_syntax

text \<open>
  The server helpers of \<open>rpc/server.go\<close>: the interceptors, the check that a client is on a
  local network, the TLS configuration for HTTP/2 and the split between gRPC and other
  requests. The libraries that build the servers are parameters.
\<close>

section \<open>Calls, contexts and errors\<close>

text \<open>
  What the interceptors see of a call's context: the incoming metadata, and the peer with
  its address, a \<open>*net.TCPAddr\<close> with its IP or another one. A call's outcome is the
  handler's, or a status error; \<open>NilResult\<close> is \<open>(nil, nil)\<close>.
\<close>

datatype net_addr = TCPAddr bytes | OtherAddr string

record rpc_ctx =
  incoming_md :: "(string \<Rightarrow> string list option) option"
  rpc_peer :: "net_addr option"

datatype rpc_code = Unauthenticated | PermissionDenied | Canceled

datatype 'r outcome = Handled 'r | NilResult | StatusErr rpc_code string

section \<open>Interceptors\<close>

text \<open>The unary interceptor of \<open>NewServerInterceptors\<close>; a nil handler is \<open>None\<close>.\<close>

definition unaryInterceptor :: "rpc_ctx \<Rightarrow> 'q \<Rightarrow> (rpc_ctx \<Rightarrow> 'q \<Rightarrow> 'r) option \<Rightarrow> 'r outcome" where
  "unaryInterceptor ctx req handler =
     (case incoming_md ctx of
        None \<Rightarrow> StatusErr Unauthenticated ''missing context metadata''
      | Some _ \<Rightarrow>
          (case handler of None \<Rightarrow> NilResult | Some h \<Rightarrow> Handled (h ctx req)))"

text \<open>The stream interceptor: the context is the stream's.\<close>

definition streamInterceptor :: "('st \<Rightarrow> rpc_ctx) \<Rightarrow> 'srv \<Rightarrow> 'st \<Rightarrow> ('srv \<Rightarrow> 'st \<Rightarrow> 'r) option \<Rightarrow> 'r outcome" where
  "streamInterceptor Context srv stream handler =
     (case incoming_md (Context stream) of
        None \<Rightarrow> StatusErr Unauthenticated ''missing context metadata''
      | Some _ \<Rightarrow>
          (case handler of None \<Rightarrow> NilResult | Some h \<Rightarrow> Handled (h srv stream)))"

text \<open>
  \<open>RateLimitingServerInterceptor\<close>: the limiter of \<open>golang.org/x/time/rate\<close> is a
  parameter, \<open>wait\<close> its \<open>Wait\<close> on its state.
\<close>

definition RateLimitingServerInterceptor :: "(rpc_ctx \<Rightarrow> 'l \<Rightarrow> string option \<times> 'l) \<Rightarrow>
    rpc_ctx \<Rightarrow> 'q \<Rightarrow> (rpc_ctx \<Rightarrow> 'q \<Rightarrow> 'r) \<Rightarrow> 'l \<Rightarrow> 'r outcome \<times> 'l" where
  "RateLimitingServerInterceptor wait ctx req handler limiter =
     (case wait ctx limiter of
        (Some err, limiter') \<Rightarrow> (StatusErr Canceled ''context exceeded'', limiter')
      | (None, limiter') \<Rightarrow> (Handled (handler ctx req), limiter'))"

section \<open>Local clients\<close>

text \<open>
  \<open>net.IP.To4\<close> and \<open>net.IPNet.Contains\<close> of the standard library, for the networks of
  this file (an IPv4 address and mask of four bytes each). A nil IP is the empty list.
\<close>

definition To4 :: "bytes \<Rightarrow> bytes" where
  "To4 ip =
     (if length ip = 4 then ip
      else if length ip = 16 \<and> list_all (\<lambda>b. b = 0) (take 10 ip) \<and> ip ! 10 = 0xff \<and> ip ! 11 = 0xff
      then drop 12 ip else [])"

record IPNet =
  net_IP :: bytes
  net_Mask :: bytes

definition Contains :: "IPNet \<Rightarrow> bytes \<Rightarrow> bool" where
  "Contains n ip =
     (let x = To4 ip; ip' = (if x \<noteq> [] then x else ip)
      in length ip' = length (net_IP n) \<and>
         list_all (\<lambda>((nn, m), b). nn AND m = b AND m) (zip (zip (net_IP n) (net_Mask n)) ip'))"

definition localNetworks :: "IPNet list" where
  "localNetworks =
     [\<lparr>net_IP = [0x7f, 0x0, 0x0, 0x0], net_Mask = [0xff, 0x0, 0x0, 0x0]\<rparr>,
      \<lparr>net_IP = [0xa, 0x0, 0x0, 0x0], net_Mask = [0xff, 0x0, 0x0, 0x0]\<rparr>,
      \<lparr>net_IP = [0x64, 0x40, 0x0, 0x0], net_Mask = [0xff, 0xc0, 0x0, 0x0]\<rparr>,
      \<lparr>net_IP = [0xac, 0x10, 0x0, 0x0], net_Mask = [0xff, 0xf0, 0x0, 0x0]\<rparr>,
      \<lparr>net_IP = [0xc0, 0xa8, 0x0, 0x0], net_Mask = [0xff, 0xff, 0x0, 0x0]\<rparr>]"

text \<open>\<open>ip_text\<close> is \<open>IP.String\<close>, which the last error message prints.\<close>

definition CheckClientIsLocal :: "(bytes \<Rightarrow> string) \<Rightarrow> rpc_ctx \<Rightarrow> 'q \<Rightarrow> (rpc_ctx \<Rightarrow> 'q \<Rightarrow> 'r) \<Rightarrow> 'r outcome" where
  "CheckClientIsLocal ip_text ctx req handler =
     (case rpc_peer ctx of
        None \<Rightarrow> StatusErr PermissionDenied ''peer info not-found''
      | Some (OtherAddr _) \<Rightarrow> StatusErr PermissionDenied ''broken peer info''
      | Some (TCPAddr ip) \<Rightarrow>
          (if list_ex (\<lambda>n. Contains n (To4 ip)) localNetworks then Handled (handler ctx req)
           else StatusErr PermissionDenied (''Request must be from local. Your IP: '' @ ip_text ip)))"

text \<open>Masking the high bits of a byte is comparing its quotient.\<close>

lemma high_bits_eq:
  fixes a b :: byte
  shows "a AND NOT (mask k) = b AND NOT (mask k) \<longleftrightarrow> unat a div 2 ^ k = unat b div 2 ^ k"
proof -
  have drop: "drop_bit k (c AND NOT (mask k)) = drop_bit k c" for c :: byte
    by (rule bit_word_eqI) (auto simp: bit_simps dest: bit_imp_le_length)
  have push: "c AND NOT (mask k) = push_bit k (drop_bit k c)" for c :: byte
    by (rule bit_word_eqI) (auto simp: bit_simps)
  have "a AND NOT (mask k) = b AND NOT (mask k) \<longleftrightarrow> drop_bit k a = drop_bit k b"
    by (metis drop push)
  moreover have "unat (drop_bit k c) = unat c div 2 ^ k" for c :: byte
  proof -
    have "take_bit 8 (unat c) = unat c"
      using unsigned_less [of c] by (intro take_bit_nat_eq_self) simp
    then show ?thesis by (simp add: unsigned_drop_bit_eq flip: drop_bit_eq_div)
  qed
  ultimately show ?thesis by (simp only: word_unat_eq_iff)
qed

lemma mask_bytes:
  "(0xff :: byte) = NOT (mask 0)" "(0xc0 :: byte) = NOT (mask 6)"
  "(0xf0 :: byte) = NOT (mask 4)" "(0 :: byte) = NOT (mask 8)"
  by (simp_all add: mask_eq_exp_minus_1)

text \<open>The networks in dotted notation.\<close>

definition is_local4 :: "nat \<Rightarrow> nat \<Rightarrow> bool" where
  "is_local4 a b \<longleftrightarrow> a = 127 \<or> a = 10 \<or> (a = 100 \<and> 64 \<le> b \<and> b < 128)
     \<or> (a = 172 \<and> 16 \<le> b \<and> b < 32) \<or> (a = 192 \<and> b = 168)"

lemma Contains_four:
  "Contains \<lparr>net_IP = [n1, n2, n3, n4], net_Mask = [m1, m2, m3, m4]\<rparr> [a, b, c, d] \<longleftrightarrow>
     n1 AND m1 = a AND m1 \<and> n2 AND m2 = b AND m2 \<and> n3 AND m3 = c AND m3 \<and> n4 AND m4 = d AND m4"
  by (simp add: Contains_def To4_def)

lemma byte_and_ff: "x AND 0xff = x" for x :: byte
  unfolding mask_bytes(1) by simp

lemma byte_eq_nat: "(x :: byte) = y \<longleftrightarrow> unat x = unat y"
  by (simp add: word_unat_eq_iff)

lemma localNetworks_four:
  "list_ex (\<lambda>n. Contains n [a, b, c, d]) localNetworks \<longleftrightarrow> is_local4 (unat a) (unat b)"
proof -
  have "0x40 AND (0xc0 :: byte) = b AND 0xc0 \<longleftrightarrow> 64 \<le> unat b \<and> unat b < 128"
    unfolding mask_bytes(2) high_bits_eq by simp linarith
  then have c0: "64 = b AND 0xc0 \<longleftrightarrow> 64 \<le> unat b \<and> unat b < 128" by simp
  have "0x10 AND (0xf0 :: byte) = b AND 0xf0 \<longleftrightarrow> 16 \<le> unat b \<and> unat b < 32"
    unfolding mask_bytes(3) high_bits_eq by simp linarith
  then have f0: "16 = b AND 0xf0 \<longleftrightarrow> 16 \<le> unat b \<and> unat b < 32" by simp
  show ?thesis
    by (simp add: localNetworks_def Contains_four c0 f0 byte_and_ff is_local4_def)
      (auto simp: byte_eq_nat)
qed

text \<open>\<open>To4\<close> yields the four bytes of an IPv4 address, plain or mapped, or nil.\<close>

lemma To4_cases:
  obtains (plain) a b c d where "ip = [a, b, c, d]" and "To4 ip = [a, b, c, d]"
    | (mapped) a b c d where "ip = [0, 0, 0, 0, 0, 0, 0, 0, 0, 0, 0xff, 0xff, a, b, c, d]"
        and "To4 ip = [a, b, c, d]"
    | (other) "To4 ip = []"
proof (cases "length ip = 4")
  case True
  then obtain a b c d where "ip = [a, b, c, d]"
    by (auto simp: numeral_eq_Suc length_Suc_conv)
  then show ?thesis by (intro plain) (simp_all add: To4_def)
next
  case False
  note four = this
  show ?thesis
  proof (cases "length ip = 16 \<and> list_all (\<lambda>b. b = 0) (take 10 ip) \<and> ip ! 10 = 0xff \<and> ip ! 11 = 0xff")
    case True
    then have "length ip = 16" by simp
    then obtain z0 z1 z2 z3 z4 z5 z6 z7 z8 z9 f g a b c d
      where "ip = [z0, z1, z2, z3, z4, z5, z6, z7, z8, z9, f, g, a, b, c, d]"
      by (auto simp: numeral_eq_Suc length_Suc_conv)
    with True show ?thesis by (intro mapped) (simp_all add: To4_def)
  next
    case False
    with four show ?thesis by (intro other) (simp add: To4_def del: de_Morgan_conj)
  qed
qed

text \<open>
  C23. Local clients. A handler is called exactly for a TCP peer whose address is an IPv4
  address (or its IPv6-mapped form) in 127/8, 10/8, 100.64/10, 172.16/12 or 192.168/16;
  everything else, an IPv6 loopback address too, is \<open>PermissionDenied\<close>.
\<close>

theorem CheckClientIsLocal_spec:
  "CheckClientIsLocal ip_text ctx req handler =
     (if \<exists>ip a b c d. rpc_peer ctx = Some (TCPAddr ip) \<and> is_local4 (unat a) (unat b)
          \<and> (ip = [a, b, c, d] \<or> ip = [0, 0, 0, 0, 0, 0, 0, 0, 0, 0, 0xff, 0xff, a, b, c, d])
      then Handled (handler ctx req)
      else StatusErr PermissionDenied
        (case rpc_peer ctx of
           None \<Rightarrow> ''peer info not-found''
         | Some (OtherAddr _) \<Rightarrow> ''broken peer info''
         | Some (TCPAddr ip) \<Rightarrow> ''Request must be from local. Your IP: '' @ ip_text ip))"
proof -
  have mapped: "To4 [0, 0, 0, 0, 0, 0, 0, 0, 0, 0, 0xff, 0xff, a, b, c, d] = [a, b, c, d]"
    and plain: "To4 [a, b, c, d] = [a, b, c, d]" for a b c d
    by (simp_all add: To4_def)
  have nil: "\<not> list_ex (\<lambda>n. Contains n []) localNetworks"
    by (simp add: localNetworks_def Contains_def To4_def)
  have "list_ex (\<lambda>n. Contains n (To4 ip)) localNetworks \<longleftrightarrow>
      (\<exists>a b c d. is_local4 (unat a) (unat b) \<and>
        (ip = [a, b, c, d] \<or> ip = [0, 0, 0, 0, 0, 0, 0, 0, 0, 0, 0xff, 0xff, a, b, c, d]))" for ip
    by (cases ip rule: To4_cases) (use mapped plain nil in \<open>auto simp: localNetworks_four\<close>)
  then show ?thesis
    by (auto simp: CheckClientIsLocal_def split: option.split net_addr.split)
qed

text \<open>
  The interceptors. A call without incoming metadata is refused before the handler; a
  nil handler gives an empty result; and the rate limiter calls the handler exactly when
  its wait succeeds, reporting every failure as \<open>Canceled\<close>.
\<close>

theorem interceptors_guard:
  "unaryInterceptor ctx req h =
     (if incoming_md ctx = None then StatusErr Unauthenticated ''missing context metadata''
      else case h of None \<Rightarrow> NilResult | Some f \<Rightarrow> Handled (f ctx req))
   \<and> streamInterceptor Context srv stream sh =
     (if incoming_md (Context stream) = None then StatusErr Unauthenticated ''missing context metadata''
      else case sh of None \<Rightarrow> NilResult | Some f \<Rightarrow> Handled (f srv stream))
   \<and> RateLimitingServerInterceptor wait ctx req f l =
     (if fst (wait ctx l) = None then Handled (f ctx req) else StatusErr Canceled ''context exceeded'',
      snd (wait ctx l))"
  by (auto simp: unaryInterceptor_def streamInterceptor_def RateLimitingServerInterceptor_def
      split: option.split prod.split)

section \<open>TLS configuration\<close>

text \<open>
  The fields of a \<open>tls.Config\<close> the code uses. A nil cipher suite list is \<open>None\<close>; a
  cipher suite is its number (\<open>uint16\<close>). A certificate is known by the pair of files it
  was loaded from.
\<close>

record tls_config =
  Certificates :: "(string \<times> string) list"
  CipherSuites :: "16 word list option"
  PreferServerCipherSuites :: bool
  NextProtos :: "string list"

definition tls_zero :: tls_config where
  "tls_zero = \<lparr>Certificates = [], CipherSuites = None, PreferServerCipherSuites = False, NextProtos = []\<rparr>"

text \<open>\<open>load\<close> is \<open>tls.LoadX509KeyPair\<close>: nil or the text of an error.\<close>

definition TlsConfigForServerCerts ::
  "(string \<Rightarrow> string \<Rightarrow> string option) \<Rightarrow> string \<Rightarrow> string \<Rightarrow> string + tls_config" where
  "TlsConfigForServerCerts load certFile keyFile =
     (case load certFile keyFile of
        Some err \<Rightarrow> Inl err
      | None \<Rightarrow> Inr (tls_zero\<lparr>Certificates := [(certFile, keyFile)]\<rparr>))"

definition requiredCipher :: "16 word" where
  "requiredCipher = 0xc02f"

fun have_required :: "16 word list \<Rightarrow> bool \<Rightarrow> bool" where
  "have_required [] haveRequired = haveRequired"
| "have_required (cs # css) haveRequired =
     have_required css (if cs = requiredCipher then True else haveRequired)"

fun have_npn :: "string list \<Rightarrow> bool" where
  "have_npn [] = False"
| "have_npn (p # ps) = (if p = ''h2'' then True else have_npn ps)"

definition TlsConfigWithHttp2Enabled :: "tls_config \<Rightarrow> string + tls_config" where
  "TlsConfigWithHttp2Enabled config =
     (if CipherSuites config \<noteq> None \<and> \<not> have_required (the (CipherSuites config)) False then
        Inl ''http2: TLSConfig.CipherSuites is missing HTTP/2-required TLS_ECDHE_RSA_WITH_AES_128_GCM_SHA256''
      else
        (let c1 = config\<lparr>PreferServerCipherSuites := True\<rparr>;
             c2 = (if \<not> have_npn (NextProtos c1) then c1\<lparr>NextProtos := NextProtos c1 @ [''h2'']\<rparr> else c1);
             c3 = c2\<lparr>NextProtos := NextProtos c2 @ [''h2-14'']\<rparr>;
             c4 = c3\<lparr>NextProtos := NextProtos c3 @ [''http/1.1'']\<rparr>
         in Inr c4))"

lemma have_required_iff: "have_required css b \<longleftrightarrow> b \<or> requiredCipher \<in> set css"
  by (induction css arbitrary: b) auto

lemma have_npn_iff: "have_npn ps \<longleftrightarrow> ''h2'' \<in> set ps"
  by (induction ps) auto

lemma TlsConfigWithHttp2Enabled_eq:
  "TlsConfigWithHttp2Enabled config =
     (if \<exists>css. CipherSuites config = Some css \<and> requiredCipher \<notin> set css then
        Inl ''http2: TLSConfig.CipherSuites is missing HTTP/2-required TLS_ECDHE_RSA_WITH_AES_128_GCM_SHA256''
      else Inr (config\<lparr>PreferServerCipherSuites := True,
        NextProtos := NextProtos config @ (if ''h2'' \<in> set (NextProtos config) then [] else [''h2''])
          @ [''h2-14'', ''http/1.1'']\<rparr>))"
  by (auto simp: TlsConfigWithHttp2Enabled_def have_required_iff have_npn_iff Let_def)

text \<open>What the added protocols change before the first h2: nothing.\<close>

lemma protos_before_h2:
  "takeWhile (\<lambda>p. p \<noteq> h) (ps @ (if h \<in> set ps then [] else [h]) @ qs) = takeWhile (\<lambda>p. p \<noteq> h) ps"
proof (cases "h \<in> set ps")
  case True
  then show ?thesis by (auto simp: takeWhile_append)
next
  case False
  then have all: "\<forall>p \<in> set ps. p \<noteq> h" by auto
  then have tw: "takeWhile (\<lambda>p. p \<noteq> h) ps = ps" by (simp only: takeWhile_eq_all_conv)
  have "takeWhile (\<lambda>p. p \<noteq> h) (ps @ [h] @ qs) = ps"
    using all by (subst takeWhile_append2) auto
  then show ?thesis unfolding if_not_P [OF False] tw .
qed

text \<open>
  C38. The HTTP/2 configuration. An explicit cipher suite list without the one HTTP/2 needs
  is refused; otherwise the result offers h2, ends with http/1.1, keeps the given protocols
  first and changes nothing else. It does not make h2 preferred: http/1.1 comes before h2
  in the result exactly if it did, or stood there without h2, in the given list.
\<close>

theorem TlsConfigWithHttp2Enabled_spec:
  "case TlsConfigWithHttp2Enabled config of
     Inl _ \<Rightarrow> \<exists>css. CipherSuites config = Some css \<and> 0xc02f \<notin> set css
   | Inr c \<Rightarrow> (\<nexists>css. CipherSuites config = Some css \<and> 0xc02f \<notin> set css)
       \<and> ''h2'' \<in> set (NextProtos c) \<and> last (NextProtos c) = ''http/1.1''
       \<and> prefix (NextProtos config) (NextProtos c)
       \<and> (''http/1.1'' \<in> set (takeWhile (\<lambda>p. p \<noteq> ''h2'') (NextProtos c)) \<longleftrightarrow>
          ''http/1.1'' \<in> set (takeWhile (\<lambda>p. p \<noteq> ''h2'') (NextProtos config)))
       \<and> PreferServerCipherSuites c
       \<and> CipherSuites c = CipherSuites config \<and> Certificates c = Certificates config"
proof (cases "\<exists>css. CipherSuites config = Some css \<and> requiredCipher \<notin> set css")
  case True
  then show ?thesis by (auto simp: TlsConfigWithHttp2Enabled_eq requiredCipher_def)
next
  case False
  then have "\<nexists>css. CipherSuites config = Some css \<and> 0xc02f \<notin> set css"
    by (auto simp: requiredCipher_def)
  then show ?thesis
    unfolding TlsConfigWithHttp2Enabled_eq if_not_P [OF False] by (simp add: protos_before_h2)
qed

text \<open>
  \<open>StartDynamicTLSServer\<close> up to serving: listen, track the listener, load the certificate
  (its parameters \<open>certpath\<close> and \<open>tlspath\<close> are the two files), enable HTTP/2, and
  serve TLS on the tracked listener with that configuration. A \<open>logger.Fatal\<close> ends the
  program. \<open>track_listener\<close> is the tracking package's \<open>NewListener\<close> with tracing.
\<close>

datatype 'l tls_setup = SetupErr string | SetupFatal | Serving 'l tls_config

definition StartDynamicTLSServer_setup ::
  "(string \<Rightarrow> string + 'l) \<Rightarrow> ('l \<Rightarrow> 'l) \<Rightarrow> (string \<Rightarrow> string \<Rightarrow> string option) \<Rightarrow>
    string \<Rightarrow> string \<Rightarrow> string \<Rightarrow> 'l tls_setup" where
  "StartDynamicTLSServer_setup listen track_listener load port tlspath certpath =
     (case listen ('':'' @ port) of
        Inl err \<Rightarrow> SetupErr err
      | Inr conn \<Rightarrow>
          (let conn' = track_listener conn
           in case TlsConfigForServerCerts load certpath tlspath of
                Inl err \<Rightarrow> SetupFatal
              | Inr tlsConfig \<Rightarrow>
                  (case TlsConfigWithHttp2Enabled tlsConfig of
                     Inl err \<Rightarrow> SetupFatal
                   | Inr tlsConfig' \<Rightarrow> Serving conn' tlsConfig')))"

text \<open>
  A dynamic TLS server either fails to listen, ends the program because its certificate
  does not load, or serves it with h2 preferred over http/1.1: enabling HTTP/2 on a fresh
  configuration cannot fail.
\<close>

theorem StartDynamicTLSServer_serves_h2:
  "StartDynamicTLSServer_setup listen track_listener load port tlspath certpath =
     (case listen ('':'' @ port) of
        Inl err \<Rightarrow> SetupErr err
      | Inr conn \<Rightarrow> if load certpath tlspath = None
          then Serving (track_listener conn) \<lparr>Certificates = [(certpath, tlspath)], CipherSuites = None,
            PreferServerCipherSuites = True, NextProtos = [''h2'', ''h2-14'', ''http/1.1'']\<rparr>
          else SetupFatal)"
  by (auto simp: StartDynamicTLSServer_setup_def TlsConfigForServerCerts_def
      TlsConfigWithHttp2Enabled_eq tls_zero_def split: option.split sum.split)

section \<open>gRPC or not, and the debug server\<close>

definition strings_Contains :: "string \<Rightarrow> string \<Rightarrow> bool" where
  "strings_Contains s substr = list_ex (\<lambda>n. take (length substr) (drop n s) = substr) [0..<Suc (length s)]"

text \<open>\<open>header_get\<close> is \<open>r.Header.Get\<close>.\<close>

record http_request =
  ProtoMajor :: int
  header_get :: "string \<Rightarrow> string"

definition GrpcHandlerFunc :: "('w \<Rightarrow> http_request \<Rightarrow> 'w) \<Rightarrow> ('w \<Rightarrow> http_request \<Rightarrow> 'w) \<Rightarrow>
    'w \<Rightarrow> http_request \<Rightarrow> 'w" where
  "GrpcHandlerFunc grpcServer otherHandler w r =
     (if ProtoMajor r = 2 \<and> strings_Contains (header_get r ''Content-Type'') ''application/grpc''
      then grpcServer w r else otherHandler w r)"

text \<open>
  \<open>MakeDebugServer\<close> registers eight patterns; \<open>http.ServeMux\<close> panics (\<open>None\<close>) on a
  pattern it already has.
\<close>

definition debug_patterns :: "string list" where
  "debug_patterns = [''/ready'', ''/live'', ''/debug/pprof/'', ''/debug/pprof/cmdline'',
     ''/debug/pprof/profile'', ''/debug/pprof/symbol'', ''/debug/pprof/trace'', ''/metrics'']"

fun mux_handle_all :: "(string \<times> 'h) list \<Rightarrow> (string \<rightharpoonup> 'h) \<Rightarrow> (string \<rightharpoonup> 'h) option" where
  "mux_handle_all [] mux = Some mux"
| "mux_handle_all ((pat, h) # rest) mux =
     (if mux pat \<noteq> None then None else mux_handle_all rest (mux(pat \<mapsto> h)))"

definition MakeDebugServer :: "(string \<Rightarrow> 'h) \<Rightarrow> (string \<rightharpoonup> 'h) \<Rightarrow> (string \<rightharpoonup> 'h) option" where
  "MakeDebugServer handler mux = mux_handle_all (map (\<lambda>p. (p, handler p)) debug_patterns) mux"

lemma mux_handle_all_dom: "mux_handle_all phs mux = Some m \<Longrightarrow> dom m = dom mux \<union> fst ` set phs"
  by (induction phs mux rule: mux_handle_all.induct) (auto split: if_splits)

lemma strings_Contains_sublist: "strings_Contains s sub \<longleftrightarrow> sublist sub s"
proof -
  have "(\<exists>n \<le> length s. take (length sub) (drop n s) = sub) \<longleftrightarrow> sublist sub s"
  proof
    assume "\<exists>n \<le> length s. take (length sub) (drop n s) = sub"
    then show "sublist sub s"
      by (metis sublist_drop sublist_order.order.trans sublist_take)
  next
    assume "sublist sub s"
    then obtain xs ys where "s = xs @ sub @ ys" by (auto simp: sublist_def)
    then have "length xs \<le> length s \<and> take (length sub) (drop (length xs) s) = sub" by simp
    then show "\<exists>n \<le> length s. take (length sub) (drop n s) = sub" by blast
  qed
  then show ?thesis
    unfolding strings_Contains_def list_ex_iff
    by (auto simp: less_Suc_eq_le simp del: upt_Suc)
qed

lemma mux_handle_all_spec:
  "distinct (map fst phs) \<Longrightarrow> mux_handle_all phs mux =
     (if fst ` set phs \<inter> dom mux = {} then Some (mux ++ map_of phs) else None)"
proof (induction phs arbitrary: mux)
  case (Cons ph phs)
  obtain p h where ph: "ph = (p, h)" by force
  have eq: "mux(p \<mapsto> h) ++ map_of phs = mux ++ map_of (ph # phs)" if "p \<notin> fst ` set phs"
    using that by (simp add: ph map_add_upd_left dom_map_of_conv_image_fst)
  have "fst ` set phs \<inter> dom (mux(p \<mapsto> h)) = {} \<longleftrightarrow> fst ` set phs \<inter> dom mux = {}"
    if "p \<notin> fst ` set phs" using that by auto
  with Cons ph eq show ?case by (auto simp: domIff)
qed simp

end
