(* ===== verification/StartServe.thy ===== *)
theory StartServe
  imports Prelude
begin

text \<open>
  The three blocking starters of \<open>rpc/server.go\<close> (\<open>StartDebugger\<close>,
  \<open>StartRpcServer\<close>, \<open>StartDynamicTLSServer\<close>): a goroutine that serves and sends the
  error on an unbuffered channel, and a \<open>select\<close> between the context and that channel.
  They differ in what they stop when the context is done.
\<close>

section \<open>The states and steps of a starter\<close>

text \<open>
  The goroutine is serving, blocked in its send \<open>e <- err\<close>, or finished; the starter is
  in its \<open>select\<close> or has returned. An error may be nil. \<open>st_served\<close> is the history of
  the server: what its \<open>Serve\<close> returned, once it has.
\<close>

datatype stop_action = HttpShutdown | GrpcGracefulStop

datatype starter_pc = Selecting | StarterReturned "string option"
datatype server_go = GoServing | GoSending "string option" | GoEnded

record starter =
  st_main :: starter_pc
  st_go :: server_go
  ctx_done :: bool
  stops :: "stop_action list"
  st_served :: "string option option"

inductive starter_step :: "stop_action list \<Rightarrow> starter \<Rightarrow> starter \<Rightarrow> bool" for acts where
  cancelled: "starter_step acts s (s\<lparr>ctx_done := True\<rparr>)"
| serve_returns: "st_go s = GoServing \<Longrightarrow> starter_step acts s (s\<lparr>st_go := GoSending err, st_served := Some err\<rparr>)"
| select_err: "st_main s = Selecting \<Longrightarrow> st_go s = GoSending err \<Longrightarrow>
    starter_step acts s (s\<lparr>st_main := StarterReturned err, st_go := GoEnded\<rparr>)"
| select_done: "st_main s = Selecting \<Longrightarrow> ctx_done s \<Longrightarrow>
    starter_step acts s (s\<lparr>st_main := StarterReturned None, stops := acts\<rparr>)"

inductive_cases starter_stepE: "starter_step acts s t"

text \<open>
  When a server's \<open>Serve\<close> returns, and with what, is not up to the starter; its own steps are
  the others.
\<close>

definition server_returns :: "starter \<Rightarrow> starter \<Rightarrow> bool" where
  "server_returns s t \<longleftrightarrow> st_go s = GoServing \<and> st_go t \<noteq> GoServing"

definition StartDebugger :: "starter \<Rightarrow> starter \<Rightarrow> bool" where
  "StartDebugger = starter_step [HttpShutdown]"

definition StartRpcServer :: "starter \<Rightarrow> starter \<Rightarrow> bool" where
  "StartRpcServer = starter_step []"

definition StartDynamicTLSServer :: "starter \<Rightarrow> starter \<Rightarrow> bool" where
  "StartDynamicTLSServer = starter_step [GrpcGracefulStop, HttpShutdown]"

definition starter_start :: starter where
  "starter_start = \<lparr>st_main = Selecting, st_go = GoServing, ctx_done = False, stops = [],
     st_served = None\<rparr>"

section \<open>How a starter ends\<close>

definition starter_inv :: "stop_action list \<Rightarrow> starter \<Rightarrow> bool" where
  "starter_inv acts s \<longleftrightarrow>
     (st_go s = GoServing \<longleftrightarrow> st_served s = None)
   \<and> (\<forall>err. st_go s = GoSending err \<longrightarrow> st_served s = Some err)
   \<and> (case st_main s of
        Selecting \<Rightarrow> stops s = [] \<and> st_go s \<noteq> GoEnded
      | StarterReturned err \<Rightarrow>
          (st_go s = GoEnded \<and> stops s = [] \<and> st_served s = Some err) \<or>
          (err = None \<and> ctx_done s \<and> stops s = acts \<and> st_go s \<noteq> GoEnded))"

interpretation starter: transition_system "\<lambda>s. s = starter_start" "starter_step acts" "starter_inv acts" for acts
  by unfold_locales
    (auto simp: starter_inv_def starter_start_def elim!: starter_stepE split: starter_pc.splits)

lemma starter_leak_step:
  "starter_step acts s t \<Longrightarrow> st_main s = StarterReturned err \<and> st_go s \<noteq> GoEnded \<Longrightarrow>
     st_main t = StarterReturned err \<and> st_go t \<noteq> GoEnded \<and> stops t = stops s"
  by (erule starter_stepE) auto

lemma starter_leak:
  "(starter_step acts)\<^sup>*\<^sup>* s t \<Longrightarrow> st_main s = StarterReturned err \<and> st_go s \<noteq> GoEnded \<Longrightarrow>
     st_main t = StarterReturned err \<and> st_go t \<noteq> GoEnded \<and> stops t = stops s"
proof (induction rule: rtranclp_induct)
  case (step t u)
  then show ?case using starter_leak_step [of acts t u err] by simp
qed simp

lemma starter_reach_inv: "(starter_step acts)\<^sup>*\<^sup>* starter_start s \<Longrightarrow> starter_inv acts s"
  by (rule starter.reach_inv) (auto simp: reach_def)

text \<open>
  C32. \<open>StartRpcServer\<close> returns the error its server's \<open>Serve\<close> returned, or nil because
  the context was done. In the second case it has not stopped the server, and its serving
  goroutine never ends in any continuation: when the server does stop, the goroutine blocks
  on the send nobody receives, and the server's error is lost.
\<close>

theorem StartRpcServer_outcome:
  assumes "StartRpcServer\<^sup>*\<^sup>* starter_start s" and "st_main s = StarterReturned err"
  shows "st_served s = Some err \<and> st_go s = GoEnded \<or>
    (err = None \<and> ctx_done s \<and>
     (\<forall>t. StartRpcServer\<^sup>*\<^sup>* s t \<longrightarrow> stops t = [] \<and> st_main t = StarterReturned None
        \<and> (case st_served t of None \<Rightarrow> st_go t = GoServing | Some e \<Rightarrow> st_go t = GoSending e)))"
proof (cases "st_go s = GoEnded")
  case True
  from assms starter_reach_inv have "starter_inv [] s" by (simp add: StartRpcServer_def)
  with True assms(2) show ?thesis by (auto simp: starter_inv_def)
next
  case False
  from assms starter_reach_inv have "starter_inv [] s" by (simp add: StartRpcServer_def)
  with False assms(2) have s: "err = None \<and> ctx_done s \<and> stops s = []"
    by (auto simp: starter_inv_def)
  have "stops t = [] \<and> st_main t = StarterReturned None
      \<and> (case st_served t of None \<Rightarrow> st_go t = GoServing | Some e \<Rightarrow> st_go t = GoSending e)"
    if "StartRpcServer\<^sup>*\<^sup>* s t" for t
  proof -
    have "StartRpcServer\<^sup>*\<^sup>* starter_start t" using assms(1) that by (rule rtranclp_trans)
    then have "starter_inv [] t" unfolding StartRpcServer_def by (rule starter_reach_inv)
    then show ?thesis
      using starter_leak [of "[]" s t err] that assms(2) False s
      by (cases "st_go t") (auto simp: StartRpcServer_def starter_inv_def split: option.split)
  qed
  with s show ?thesis by blast
qed

lemma starter_cancel_run:
  "(starter_step acts)\<^sup>*\<^sup>* starter_start
     \<lparr>st_main = StarterReturned None, st_go = GoServing, ctx_done = True, stops = acts, st_served = None\<rparr>"
proof -
  have "starter_step acts starter_start (starter_start\<lparr>ctx_done := True\<rparr>)"
    by (rule cancelled)
  moreover have "starter_step acts (starter_start\<lparr>ctx_done := True\<rparr>)
      \<lparr>st_main = StarterReturned None, st_go = GoServing, ctx_done = True, stops = acts, st_served = None\<rparr>"
    using select_done [of "starter_start\<lparr>ctx_done := True\<rparr>" acts] by (simp add: starter_start_def)
  ultimately show ?thesis by (meson rtranclp.rtrancl_into_rtrancl rtranclp.rtrancl_refl)
qed

lemma starter_error_run:
  "(starter_step acts)\<^sup>*\<^sup>* starter_start
     \<lparr>st_main = StarterReturned (Some e), st_go = GoEnded, ctx_done = False, stops = [], st_served = Some (Some e)\<rparr>"
proof -
  have "starter_step acts starter_start (starter_start\<lparr>st_go := GoSending (Some e), st_served := Some (Some e)\<rparr>)"
    by (rule serve_returns) (simp add: starter_start_def)
  moreover have "starter_step acts (starter_start\<lparr>st_go := GoSending (Some e), st_served := Some (Some e)\<rparr>)
      \<lparr>st_main = StarterReturned (Some e), st_go = GoEnded, ctx_done = False, stops = [], st_served = Some (Some e)\<rparr>"
    using select_err [of "starter_start\<lparr>st_go := GoSending (Some e), st_served := Some (Some e)\<rparr>" "Some e" acts]
    by (simp add: starter_start_def)
  ultimately show ?thesis by (meson rtranclp.rtrancl_into_rtrancl rtranclp.rtrancl_refl)
qed

theorem StartRpcServer_outcome_witness:
  "(\<nexists>t. StartRpcServer\<^sup>*\<^sup>* \<lparr>st_main = StarterReturned None, st_go = GoServing, ctx_done = True, stops = [],
        st_served = None\<rparr> t \<and> (stops t \<noteq> [] \<or> st_go t = GoEnded))
   \<and> (\<exists>s. StartRpcServer\<^sup>*\<^sup>* starter_start s \<and> st_main s = StarterReturned (Some ''accept: too many open files'')
        \<and> st_served s = Some (Some ''accept: too many open files''))"
proof (intro conjI notI)
  let ?s = "\<lparr>st_main = StarterReturned None, st_go = GoServing, ctx_done = True, stops = [], st_served = None\<rparr>"
  assume "\<exists>t. StartRpcServer\<^sup>*\<^sup>* ?s t \<and> (stops t \<noteq> [] \<or> st_go t = GoEnded)"
  moreover have "StartRpcServer\<^sup>*\<^sup>* starter_start ?s"
    using starter_cancel_run [of "[]"] by (simp add: StartRpcServer_def)
  ultimately show False
    using StartRpcServer_outcome [of ?s None] by (fastforce split: option.splits)
next
  let ?e = "''accept: too many open files''"
  let ?s = "\<lparr>st_main = StarterReturned (Some ?e), st_go = GoEnded, ctx_done = False, stops = [],
    st_served = Some (Some ?e)\<rparr>"
  have "StartRpcServer\<^sup>*\<^sup>* starter_start ?s"
    using starter_error_run [of "[]" ?e] by (simp add: StartRpcServer_def)
  with StartRpcServer_outcome [of ?s "Some ?e"]
  show "\<exists>s. StartRpcServer\<^sup>*\<^sup>* starter_start s \<and> st_main s = StarterReturned (Some ?e)
      \<and> st_served s = Some (Some ?e)" by fastforce
qed

text \<open>
  The other two starters, when the context ends them, have asked their servers to stop,
  exactly once and in order (the gRPC server gracefully before the HTTP server); when the
  server ends them they stop nothing. Their goroutine leaks in the first case too.
\<close>

theorem starters_stop_on_cancel:
  assumes "StartDynamicTLSServer\<^sup>*\<^sup>* starter_start s" and "st_main s = StarterReturned err"
    and "StartDebugger\<^sup>*\<^sup>* starter_start d" and "st_main d = StarterReturned err'"
  shows "stops s = (if st_go s = GoEnded then [] else [GrpcGracefulStop, HttpShutdown])
    \<and> stops d = (if st_go d = GoEnded then [] else [HttpShutdown])
    \<and> (st_go s \<noteq> GoEnded \<longrightarrow> err = None \<and> (\<forall>t. StartDynamicTLSServer\<^sup>*\<^sup>* s t \<longrightarrow> st_go t \<noteq> GoEnded))
    \<and> (st_go d \<noteq> GoEnded \<longrightarrow> err' = None \<and> (\<forall>t. StartDebugger\<^sup>*\<^sup>* d t \<longrightarrow> st_go t \<noteq> GoEnded))"
proof -
  from assms(1) have "starter_inv [GrpcGracefulStop, HttpShutdown] s"
    unfolding StartDynamicTLSServer_def by (rule starter_reach_inv)
  moreover from assms(3) have "starter_inv [HttpShutdown] d"
    unfolding StartDebugger_def by (rule starter_reach_inv)
  ultimately show ?thesis
    using assms(2,4) starter_leak
    unfolding StartDynamicTLSServer_def StartDebugger_def starter_inv_def by auto
qed

theorem starters_stop_on_cancel_witness:
  "\<exists>s d. st_main s = StarterReturned None \<and> st_main d = StarterReturned None
     \<and> StartDynamicTLSServer\<^sup>*\<^sup>* starter_start s \<and> StartDebugger\<^sup>*\<^sup>* starter_start d
     \<and> stops s = [GrpcGracefulStop, HttpShutdown] \<and> stops d = [HttpShutdown]"
proof -
  let ?s = "\<lparr>st_main = StarterReturned None, st_go = GoServing, ctx_done = True,
    stops = [GrpcGracefulStop, HttpShutdown], st_served = None\<rparr>"
  let ?d = "\<lparr>st_main = StarterReturned None, st_go = GoServing, ctx_done = True, stops = [HttpShutdown],
    st_served = None\<rparr>"
  have s: "StartDynamicTLSServer\<^sup>*\<^sup>* starter_start ?s" and d: "StartDebugger\<^sup>*\<^sup>* starter_start ?d"
    by (simp_all add: StartDynamicTLSServer_def StartDebugger_def starter_cancel_run)
  show ?thesis
    using starters_stop_on_cancel [OF s _ d, of None None] s d by (intro exI [of _ ?s] exI [of _ ?d]) simp
qed

end
