(* ===== verification/Syncer.thy ===== *)
theory Syncer
  imports Prelude
begin

text \<open>
  The error group of \<open>syncer/sync.go\<close>: goroutines of which the first error is kept and
  cancels a context, and the groups with a deadline. The group, its goroutines and the
  context are a step relation; \<open>Wait\<close> is a step of its own with a result.
\<close>

section \<open>The group and its operations\<close>

text \<open>
  \<open>has_cancel\<close> is \<open>g.cancel != nil\<close>, \<open>errOnce\<close> whether the \<open>sync.Once\<close> has run;
  an error is its text, nil is \<open>None\<close>.
\<close>

record Group =
  has_cancel :: bool
  g_wg :: nat
  errOnce :: bool
  g_err :: "string option"

definition zero_Group :: Group where
  "zero_Group = \<lparr>has_cancel = False, g_wg = 0, errOnce = False, g_err = None\<rparr>"

text \<open>
  \<open>WithContext\<close> returns the group whose cancel function is that of the derived context.
\<close>

definition WithContext :: Group where
  "WithContext = zero_Group\<lparr>has_cancel := True\<rparr>"

text \<open>
  A goroutine of \<open>Go\<close> runs \<open>f\<close>, or has its result and is about to report it. The
  history keeps how many were started and the results in the order they were reported.
\<close>

datatype group_go = Running | GotResult "string option"

record group_sys =
  grp :: Group
  ctx_cancelled :: bool
  g_gos :: "group_go list"
  g_started :: nat
  g_results :: "string option list"

definition group_start :: "Group \<Rightarrow> group_sys" where
  "group_start g = \<lparr>grp = g, ctx_cancelled = False, g_gos = [], g_started = 0, g_results = []\<rparr>"

text \<open>\<open>errOnce.Do\<close> with the function of \<open>Go\<close>; whether the context is cancelled by it.\<close>

definition report_error :: "string \<Rightarrow> Group \<Rightarrow> Group \<times> bool" where
  "report_error err g =
     (if errOnce g then (g, False)
      else (g\<lparr>errOnce := True, g_err := Some err\<rparr>, has_cancel g))"

definition Group_report :: "string option \<Rightarrow> Group \<Rightarrow> Group \<times> bool" where
  "Group_report r g =
     (let (g1, cancels) = (case r of Some err \<Rightarrow> report_error err g | None \<Rightarrow> (g, False))
      in (g1\<lparr>g_wg := g_wg g1 - 1\<rparr>, cancels))"

text \<open>\<open>Wait\<close> returns when the counter is zero, after calling the cancel function.\<close>

inductive Group_Wait :: "group_sys \<Rightarrow> string option \<Rightarrow> group_sys \<Rightarrow> bool" where
  "g_wg (grp s) = 0 \<Longrightarrow>
    Group_Wait s (g_err (grp s)) (s\<lparr>ctx_cancelled := ctx_cancelled s \<or> has_cancel (grp s)\<rparr>)"

inductive_simps Group_Wait_iff: "Group_Wait s r t"

text \<open>The context may also end by itself, through its parent or its deadline.\<close>

inductive group_step :: "group_sys \<Rightarrow> group_sys \<Rightarrow> bool" where
  group_Go: "group_step s (s\<lparr>grp := (grp s)\<lparr>g_wg := Suc (g_wg (grp s))\<rparr>,
      g_gos := g_gos s @ [Running], g_started := Suc (g_started s)\<rparr>)"
| group_returns: "g_gos s = xs @ Running # ys \<Longrightarrow>
    group_step s (s\<lparr>g_gos := xs @ GotResult r # ys\<rparr>)"
| group_reports: "g_gos s = xs @ GotResult r # ys \<Longrightarrow> Group_report r (grp s) = (g, cancels) \<Longrightarrow>
    group_step s (s\<lparr>grp := g, ctx_cancelled := ctx_cancelled s \<or> cancels,
      g_gos := xs @ ys, g_results := g_results s @ [r]\<rparr>)"
| group_parent_cancels: "group_step s (s\<lparr>ctx_cancelled := True\<rparr>)"
| group_waited: "Group_Wait s r t \<Longrightarrow> group_step s t"

section \<open>The first error\<close>

fun first_error :: "string option list \<Rightarrow> string option" where
  "first_error [] = None"
| "first_error (None # rs) = first_error rs"
| "first_error (Some err # rs) = Some err"

lemma first_error_snoc:
  "first_error (rs @ [r]) = (if first_error rs = None then r else first_error rs)"
  by (induction rs rule: first_error.induct) (cases r; simp)+

lemma first_error_None: "first_error rs = None \<longleftrightarrow> set rs \<subseteq> {None}"
  by (induction rs rule: first_error.induct) auto

definition group_inv :: "bool \<Rightarrow> group_sys \<Rightarrow> bool" where
  "group_inv c s \<longleftrightarrow> has_cancel (grp s) = c \<and> g_wg (grp s) = length (g_gos s)
     \<and> g_started s = length (g_results s) + length (g_gos s)
     \<and> g_err (grp s) = first_error (g_results s) \<and> errOnce (grp s) = (g_err (grp s) \<noteq> None)
     \<and> (c \<and> g_err (grp s) \<noteq> None \<longrightarrow> ctx_cancelled s)"

lemma Group_report_eq:
  "Group_report r g = (g', cancels) \<longleftrightarrow>
     g' = g\<lparr>errOnce := errOnce g \<or> r \<noteq> None,
        g_err := (if r \<noteq> None \<and> \<not> errOnce g then r else g_err g), g_wg := g_wg g - 1\<rparr>
     \<and> cancels = (r \<noteq> None \<and> \<not> errOnce g \<and> has_cancel g)"
  by (auto simp: Group_report_def report_error_def Let_def split: option.splits)

lemma group_inv_step: "group_step s t \<Longrightarrow> group_inv c s \<Longrightarrow> group_inv c t"
proof (induction rule: group_step.induct)
  case (group_reports s xs r ys g cancels)
  then show ?case
    by (auto simp: group_inv_def Group_report_eq first_error_snoc split: if_splits)
qed (auto simp: group_inv_def Group_Wait_iff)

interpretation group: transition_system
    "\<lambda>s. s = group_start (zero_Group\<lparr>has_cancel := c\<rparr>)" group_step "group_inv c" for c
proof (unfold_locales, goal_cases)
  case (1 s)
  then show ?case by (simp add: group_inv_def group_start_def zero_Group_def)
next
  case (2 s t)
  then show ?case by (rule group_inv_step)
qed

lemma group_reach_inv:
  "group_step\<^sup>*\<^sup>* (group_start WithContext) s \<Longrightarrow> group_inv True s"
  by (rule group.reach_inv) (auto simp: reach_def WithContext_def)

text \<open>
  C18. \<open>Wait\<close> on a group of \<open>WithContext\<close> returns only when every function started with
  \<open>Go\<close> has returned and reported, with the first error reported, or nil if there was
  none, and leaves the context cancelled; and an error cancels the context as soon as it is
  reported, before \<open>Wait\<close>.
\<close>

theorem group_wait_first_error:
  assumes "group_step\<^sup>*\<^sup>* (group_start WithContext) s" and "Group_Wait s r t"
  shows "length (g_results s) = g_started s \<and> g_gos s = [] \<and> r = first_error (g_results s)
    \<and> (r = None \<longleftrightarrow> set (g_results s) \<subseteq> {None}) \<and> ctx_cancelled t
    \<and> (r \<noteq> None \<longrightarrow> ctx_cancelled s)"
  using group_reach_inv [OF assms(1)] assms(2)
  by (auto simp: group_inv_def Group_Wait_iff first_error_None)

definition two_failed :: group_sys where
  "two_failed = (group_start WithContext)\<lparr>
     grp := \<lparr>has_cancel = True, g_wg = 0, errOnce = True, g_err = Some ''b''\<rparr>,
     ctx_cancelled := True, g_started := 2, g_results := [Some ''b'', Some ''a'']\<rparr>"

lemma two_failed_run: "group_step\<^sup>*\<^sup>* (group_start WithContext) two_failed"
proof -
  let ?g = "\<lambda>n e. \<lparr>has_cancel = True, g_wg = n, errOnce = e \<noteq> None, g_err = e\<rparr>"
  let ?s = "\<lambda>n e c gs k rs. \<lparr>grp = ?g n e, ctx_cancelled = c, g_gos = gs, g_started = k, g_results = rs\<rparr>"
  have start: "group_start WithContext = ?s 0 None False [] 0 []"
    by (simp add: group_start_def WithContext_def zero_Group_def)
  have "group_step (?s 0 None False [] 0 []) (?s 1 None False [Running] 1 [])"
    using group_Go [of "?s 0 None False [] 0 []"] by simp
  moreover have "group_step (?s 1 None False [Running] 1 []) (?s 2 None False [Running, Running] 2 [])"
    using group_Go [of "?s 1 None False [Running] 1 []"] by (simp add: numeral_2_eq_2)
  moreover have "group_step (?s 2 None False [Running, Running] 2 [])
      (?s 2 None False [Running, GotResult (Some ''b'')] 2 [])"
    using group_returns [of "?s 2 None False [Running, Running] 2 []" "[Running]" "[]" "Some ''b''"] by simp
  moreover have "group_step (?s 2 None False [Running, GotResult (Some ''b'')] 2 [])
      (?s 1 (Some ''b'') True [Running] 2 [Some ''b''])"
    using group_reports [of "?s 2 None False [Running, GotResult (Some ''b'')] 2 []" "[Running]"
        "Some ''b''" "[]"] by (simp add: Group_report_eq)
  moreover have "group_step (?s 1 (Some ''b'') True [Running] 2 [Some ''b''])
      (?s 1 (Some ''b'') True [GotResult (Some ''a'')] 2 [Some ''b''])"
    using group_returns [of "?s 1 (Some ''b'') True [Running] 2 [Some ''b'']" "[]" "[]" "Some ''a''"] by simp
  moreover have "group_step (?s 1 (Some ''b'') True [GotResult (Some ''a'')] 2 [Some ''b'']) two_failed"
    using group_reports [of "?s 1 (Some ''b'') True [GotResult (Some ''a'')] 2 [Some ''b'']" "[]"
        "Some ''a''" "[]" _ False] by (simp add: Group_report_eq two_failed_def start)
  ultimately show ?thesis unfolding start by (meson rtranclp.rtrancl_into_rtrancl rtranclp.rtrancl_refl)
qed

theorem group_wait_first_error_witness:
  "\<exists>r t. Group_Wait two_failed r t \<and> r = Some ''b'' \<and> ctx_cancelled t"
proof -
  have w: "Group_Wait two_failed (Some ''b'') (two_failed\<lparr>ctx_cancelled := True\<rparr>)"
    by (simp add: Group_Wait_iff two_failed_def)
  from group_wait_first_error [OF two_failed_run w] w show ?thesis by blast
qed

section \<open>Groups with a deadline\<close>

text \<open>
  \<open>time.Duration\<close> is an \<open>int64\<close> of nanoseconds, so \<open>duration * time.Second\<close> is a
  multiplication modulo \<open>2 ^ 64\<close>. The result is how far the deadline is from
  \<open>time.Now()\<close>, in nanoseconds; the context of a deadline that is not in the future is
  expired from the start.
\<close>

definition MakeErrGrpWithDeadline :: "64 word \<Rightarrow> int \<times> Group" where
  "MakeErrGrpWithDeadline duration = (sint (duration * 1000000000), WithContext)"

definition expired_at_once :: "int \<times> Group \<Rightarrow> bool" where
  "expired_at_once = (\<lambda>(offset, g). offset \<le> 0)"

definition MakeErrGrp :: Group where
  "MakeErrGrp = WithContext"

lemma deadline_offset:
  "fst (MakeErrGrpWithDeadline (word_of_int n)) = signed_take_bit 63 (n * 1000000000)"
proof -
  have "(word_of_int n * 1000000000 :: 64 word) = word_of_int (n * 1000000000)" by simp
  then have "fst (MakeErrGrpWithDeadline (word_of_int n)) = sint (word_of_int (n * 1000000000) :: 64 word)"
    by (simp only: MakeErrGrpWithDeadline_def fst_conv)
  then show ?thesis by (simp only: signed_of_int) simp
qed

text \<open>
  C36. The deadline. A plain number of seconds (the argument is multiplied by
  \<open>time.Second\<close>) gives that deadline up to 292 years. A real \<open>time.Duration\<close> does not:
  up to nine seconds it gives a deadline decades away, and from ten to eighteen seconds the
  product overflows and the context is expired from the start.
\<close>

theorem deadline_overflow:
  assumes "\<bar>n\<bar> \<le> 9223372036" and "10 \<le> k" and "k \<le> 18"
  shows "fst (MakeErrGrpWithDeadline (word_of_int n)) = n * 1000000000
    \<and> \<not> expired_at_once (MakeErrGrpWithDeadline (word_of_int (9 * 1000000000)))
    \<and> expired_at_once (MakeErrGrpWithDeadline (word_of_int (k * 1000000000)))"
proof -
  have "fst (MakeErrGrpWithDeadline (word_of_int n)) = n * 1000000000"
    using assms(1) unfolding deadline_offset by (intro signed_take_bit_int_eq_self) auto
  moreover have "fst (MakeErrGrpWithDeadline (word_of_int (9 * 1000000000))) = 9000000000000000000"
    unfolding deadline_offset by simp
  moreover have "fst (MakeErrGrpWithDeadline (word_of_int (k * 1000000000))) \<le> 0"
  proof -
    have "k \<in> {10, 11, 12, 13, 14, 15, 16, 17, 18}" using assms(2,3) by auto
    then show ?thesis unfolding deadline_offset by auto
  qed
  ultimately show ?thesis by (simp add: expired_at_once_def case_prod_unfold)
qed

theorem deadline_overflow_witness:
  "fst (MakeErrGrpWithDeadline (word_of_int 5)) = 5000000000
   \<and> expired_at_once (MakeErrGrpWithDeadline (word_of_int (10 * 1000000000)))"
  using deadline_overflow [of 5 10] by simp

end
