(* ===== verification/Utilz.thy ===== *)
theory Utilz
  imports Prelude
begin

text \<open>
  The helpers of \<open>utilities/utilz.go\<close>: the kind of a gRPC handler, the metadata carrier
  of the tracing library, the split of a full method name, the peer's address and a
  conditional append.
\<close>

section \<open>Kinds, peers, appending\<close>

definition HandlerType :: "bool \<Rightarrow> bool \<Rightarrow> string" where
  "HandlerType clientStream serverStream =
     (if \<not> clientStream \<and> \<not> serverStream then ''unary''
      else if \<not> clientStream \<and> serverStream then ''server_stream''
      else if clientStream \<and> \<not> serverStream then ''client_stream''
      else ''bidirectional_stream'')"

text \<open>
  The peer of a context, if there is one, is known by \<open>Addr.String()\<close>; its address may
  be nil, and then the call of \<open>String\<close> panics (\<open>None\<close>).
\<close>

definition PeerValue :: "string option option \<Rightarrow> string option" where
  "PeerValue peer = (case peer of None \<Rightarrow> Some ''none'' | Some Addr \<Rightarrow> Addr)"

definition AppendIf :: "bool \<Rightarrow> string list \<Rightarrow> string \<Rightarrow> string list" where
  "AppendIf ok arr val = (if \<not> ok then arr else arr @ [val])"

section \<open>Method names\<close>

definition strings_LastIndex :: "string \<Rightarrow> char \<Rightarrow> int" where
  "strings_LastIndex s c =
     (if c \<in> set s then int (length s) - 1 - int (length (takeWhile (\<lambda>x. x \<noteq> c) (rev s))) else - 1)"

text \<open>
  \<open>name[1:i]\<close> panics (\<open>None\<close>) when \<open>i\<close> is zero.
\<close>

definition Split :: "string \<Rightarrow> (string \<times> string) option" where
  "Split name =
     (let i = strings_LastIndex name (CHR ''/'')
      in if i \<ge> 0 then
           (if i < 1 then None
            else Some (take (nat i - 1) (drop 1 name), drop (nat i + 1) name))
         else Some (''unknown'', ''unknown''))"

lemma strings_LastIndex_append:
  assumes "c \<notin> set ys"
  shows "strings_LastIndex (xs @ c # ys) c = int (length xs)"
proof -
  have "takeWhile (\<lambda>x. x \<noteq> c) (rev (xs @ c # ys)) = rev ys"
    using assms takeWhile_append2 [of "rev ys" "\<lambda>x. x \<noteq> c" "c # rev xs"] by auto
  then show ?thesis by (simp add: strings_LastIndex_def)
qed

text \<open>
  \<open>Split\<close> separates service and method of a full gRPC method name
  \<open>/service/method\<close> at the last slash. The first character is dropped whatever it is,
  so a name without the leading slash loses a letter; a name whose only slash is the first
  character panics; one without a slash is unknown.
\<close>

theorem Split_spec:
  assumes "CHR ''/'' \<notin> set meth"
  shows "Split (c # service @ CHR ''/'' # meth) = Some (service, meth)
    \<and> Split (CHR ''/'' # meth) = None
    \<and> Split meth = Some (''unknown'', ''unknown'')"
  using strings_LastIndex_append [OF assms, of "c # service"]
    strings_LastIndex_append [OF assms, of "[]"] assms nat_int [of "Suc (length service)"]
  by (auto simp: Split_def Let_def strings_LastIndex_def nat_add_distrib)

theorem Split_spec_witness:
  "Split ''/pkg.Greeter/SayHello'' = Some (''pkg.Greeter'', ''SayHello'')
   \<and> Split ''pkg.Greeter/SayHello'' = Some (''kg.Greeter'', ''SayHello'')
   \<and> Split ''/SayHello'' = None"
  using Split_spec [of "''SayHello''" "CHR ''/''" "''pkg.Greeter''"]
    Split_spec [of "''SayHello''" "CHR ''p''" "''kg.Greeter''"]
  by simp

section \<open>The metadata carrier\<close>

text \<open>
  \<open>metadata.MD\<close> is a map from keys to lists of values; a nil map is \<open>None\<close>, and storing
  into it panics. \<open>strings.ToLower\<close> is modelled on ASCII, which metadata keys are.
\<close>

type_synonym MD = "(string \<rightharpoonup> string list) option"

definition lower :: "char \<Rightarrow> char" where
  "lower c = (if (65 :: nat) \<le> of_char c \<and> of_char c \<le> (90 :: nat) then char_of (of_char c + 32 :: nat) else c)"

definition ToLower :: "string \<Rightarrow> string" where
  "ToLower s = map lower s"

definition md_lookup :: "(string \<rightharpoonup> string list) \<Rightarrow> string \<Rightarrow> string list" where
  "md_lookup m k = (case m k of None \<Rightarrow> [] | Some vs \<Rightarrow> vs)"

definition MD_Set :: "string \<Rightarrow> string \<Rightarrow> MD \<Rightarrow> MD option" where
  "MD_Set key val md =
     (let key' = ToLower key
      in case md of None \<Rightarrow> None | Some m \<Rightarrow> Some (Some (m(key' \<mapsto> md_lookup m key' @ [val]))))"

text \<open>
  \<open>ForeachKey\<close>: a handler changes its state and may fail; Go visits the keys of a map in
  an order it does not specify, which is the argument \<open>keys\<close>.
\<close>

type_synonym 'h kv_handler = "string \<Rightarrow> string \<Rightarrow> 'h \<Rightarrow> string option \<times> 'h"

fun foreach_values :: "'h kv_handler \<Rightarrow> string \<Rightarrow> string list \<Rightarrow> 'h \<Rightarrow> string option \<times> 'h" where
  "foreach_values handler k [] st = (None, st)"
| "foreach_values handler k (v # vs) st =
     (case handler k v st of
        (Some err, st') \<Rightarrow> (Some err, st')
      | (None, st') \<Rightarrow> foreach_values handler k vs st')"

fun foreach_keys :: "'h kv_handler \<Rightarrow> (string \<rightharpoonup> string list) \<Rightarrow> string list \<Rightarrow> 'h \<Rightarrow> string option \<times> 'h" where
  "foreach_keys handler m [] st = (None, st)"
| "foreach_keys handler m (k # ks) st =
     (case foreach_values handler k (md_lookup m k) st of
        (Some err, st') \<Rightarrow> (Some err, st')
      | (None, st') \<Rightarrow> foreach_keys handler m ks st')"

definition ForeachKey :: "string list \<Rightarrow> 'h kv_handler \<Rightarrow> MD \<Rightarrow> 'h \<Rightarrow> string option \<times> 'h" where
  "ForeachKey keys handler md st =
     (case md of None \<Rightarrow> (None, st) | Some m \<Rightarrow> foreach_keys handler m keys st)"

text \<open>The pairs in the order they are visited, and a handler run over a list of pairs.\<close>

definition md_pairs :: "(string \<rightharpoonup> string list) \<Rightarrow> string list \<Rightarrow> (string \<times> string) list" where
  "md_pairs m keys = concat (map (\<lambda>k. map (Pair k) (md_lookup m k)) keys)"

fun run_handler :: "'h kv_handler \<Rightarrow> (string \<times> string) list \<Rightarrow> 'h \<Rightarrow> string option \<times> 'h" where
  "run_handler handler [] st = (None, st)"
| "run_handler handler ((k, v) # kvs) st =
     (case handler k v st of
        (Some err, st') \<Rightarrow> (Some err, st')
      | (None, st') \<Rightarrow> run_handler handler kvs st')"

lemma run_handler_append:
  "run_handler handler (xs @ ys) st =
     (case run_handler handler xs st of
        (Some err, st') \<Rightarrow> (Some err, st')
      | (None, st') \<Rightarrow> run_handler handler ys st')"
  by (induction handler xs st rule: run_handler.induct) (auto split: prod.split option.split)

lemma foreach_values_run: "foreach_values handler k vs st = run_handler handler (map (Pair k) vs) st"
  by (induction handler k vs st rule: foreach_values.induct) (auto split: prod.split option.split)

lemma foreach_keys_run: "foreach_keys handler m ks st = run_handler handler (md_pairs m ks) st"
  by (induction handler m ks st rule: foreach_keys.induct)
    (auto simp: md_pairs_def run_handler_append foreach_values_run split: prod.split option.split)

text \<open>The tracer's own reading of a carrier: collect every pair.\<close>

definition collect :: "(string \<times> string) list kv_handler" where
  "collect k v st = (None, st @ [(k, v)])"

lemma run_collect: "run_handler collect kvs st = (None, st @ kvs)"
  by (induction kvs arbitrary: st) (auto simp: collect_def)

lemma filter_pairs:
  "map snd (filter (\<lambda>kv. fst kv = k) (map (Pair a) vs)) = (if a = k then vs else [])"
  by (induction vs) auto

text \<open>
  C37. Writing and reading back a carrier. After \<open>Set\<close>, \<open>ForeachKey\<close> visits, in
  whatever order of the keys, exactly the earlier pairs and the new value, under the
  lower-cased key and after that key's earlier values.
\<close>

theorem MD_Set_ForeachKey:
  assumes "distinct keys" and "set keys = insert (ToLower key) (dom m)"
    and "MD_Set key val (Some m) = Some md"
  shows "\<exists>pairs. ForeachKey keys collect md [] = (None, pairs)
    \<and> (\<forall>k. map snd (filter (\<lambda>kv. fst kv = k) pairs) =
         md_lookup m k @ (if k = ToLower key then [val] else []))"
proof -
  let ?m = "m(ToLower key \<mapsto> md_lookup m (ToLower key) @ [val])"
  have md: "md = Some ?m" using assms(3) by (simp add: MD_Set_def Let_def)
  have pairs: "map snd (filter (\<lambda>kv. fst kv = k) (md_pairs ?m ks)) =
      (if k \<in> set ks then md_lookup ?m k else [])" if "distinct ks" for ks k
    using that by (induction ks) (auto simp: md_pairs_def filter_pairs)
  have "map snd (filter (\<lambda>kv. fst kv = k) (md_pairs ?m keys)) =
      md_lookup m k @ (if k = ToLower key then [val] else [])" for k
    using pairs [OF assms(1), of k] assms(2) by (auto simp: md_lookup_def split: option.splits)
  then show ?thesis
    by (simp add: md ForeachKey_def foreach_keys_run run_collect)
qed

theorem MD_Set_ForeachKey_witness:
  "\<exists>pairs. ForeachKey [''b'', ''uber-id''] collect
       (Some ([''b'' \<mapsto> [''1'', ''2''], ''uber-id'' \<mapsto> [''x'']])) [] = (None, pairs)
     \<and> map snd (filter (\<lambda>kv. fst kv = ''uber-id'') pairs) = [''x'']"
proof -
  let ?m = "[''b'' \<mapsto> [''1'', ''2'']]"
  have "ToLower ''Uber-Id'' = ''uber-id''" by code_simp
  then have k: "set [''b'', ''uber-id''] = insert (ToLower ''Uber-Id'') (dom ?m)"
    and s: "MD_Set ''Uber-Id'' ''x'' (Some ?m) = Some (Some (?m(''uber-id'' \<mapsto> [''x''])))"
    by (auto simp: MD_Set_def md_lookup_def)
  obtain pairs where "ForeachKey [''b'', ''uber-id''] collect (Some (?m(''uber-id'' \<mapsto> [''x'']))) [] = (None, pairs)"
    and "map snd (filter (\<lambda>kv. fst kv = ''uber-id'') pairs) = md_lookup ?m ''uber-id'' @ [''x'']"
    using MD_Set_ForeachKey [OF _ k s] \<open>ToLower ''Uber-Id'' = ''uber-id''\<close> by auto
  then show ?thesis by (auto simp: md_lookup_def)
qed

end
