(* ===== verification/Probe.thy ===== *)
theory Probe
  imports Instruments
begin

text \<open>
  The health checks of \<open>instrument/probe/health.go\<close>: the check functions, the handler that
  keeps liveness and readiness checks and answers its two endpoints, and the handler that
  also exports every check as a gauge. The checks that run in goroutines (\<open>Async\<close>,
  \<open>Timeout\<close>) are in \<open>ProbeConc\<close>.
\<close>

section \<open>Checks\<close>

text \<open>
  A \<open>Check\<close> may look at and change the world; its error is its text, nil is \<open>None\<close>.
\<close>

type_synonym 'w Check = "'w \<Rightarrow> string option \<times> 'w"

definition ErrNoData :: string where
  "ErrNoData = ''no data yet''"

text \<open>Decimal numbers, as \<open>%d\<close> prints them.\<close>

fun digits :: "nat \<Rightarrow> string" where
  "digits n = (if n < 10 then [char_of (48 + n)] else digits (n div 10) @ [char_of (48 + n mod 10)])"

declare digits.simps [simp del]

definition decimal :: "int \<Rightarrow> string" where
  "decimal i = (if i < 0 then CHR ''-'' # digits (nat (- i)) else digits (nat i))"

text \<open>
  The network, database and runtime functions the checks call are parameters: a dial or a
  request gives an error or a connection (whose \<open>Close\<close> gives an error or nil) or a status
  code, a lookup gives addresses.
\<close>

definition TCPDialCheck ::
  "(string \<Rightarrow> int \<Rightarrow> 'w \<Rightarrow> (string + 'c) \<times> 'w) \<Rightarrow> ('c \<Rightarrow> 'w \<Rightarrow> string option \<times> 'w) \<Rightarrow>
    string \<Rightarrow> int \<Rightarrow> 'w Check" where
  "TCPDialCheck dial close addr timeout = (\<lambda>w.
     case dial addr timeout w of
       (Inl err, w') \<Rightarrow> (Some err, w')
     | (Inr conn, w') \<Rightarrow> close conn w')"

definition HTTPGetCheck :: "(string \<Rightarrow> int \<Rightarrow> 'w \<Rightarrow> (string + int) \<times> 'w) \<Rightarrow> string \<Rightarrow> int \<Rightarrow> 'w Check" where
  "HTTPGetCheck client_get url timeout = (\<lambda>w.
     case client_get url timeout w of
       (Inl err, w') \<Rightarrow> (Some err, w')
     | (Inr StatusCode, w') \<Rightarrow>
         (if StatusCode \<noteq> 200 then (Some (''returned status '' @ decimal StatusCode), w')
          else (None, w')))"

definition DatabasePingCheck :: "('db \<Rightarrow> int \<Rightarrow> 'w Check) \<Rightarrow> 'db option \<Rightarrow> int \<Rightarrow> 'w Check" where
  "DatabasePingCheck PingContext database timeout = (\<lambda>w.
     case database of
       None \<Rightarrow> (Some ''database is nil'', w)
     | Some db \<Rightarrow> PingContext db timeout w)"

definition DNSResolveCheck ::
  "(string \<Rightarrow> int \<Rightarrow> 'w \<Rightarrow> (string + string list) \<times> 'w) \<Rightarrow> string \<Rightarrow> int \<Rightarrow> 'w Check" where
  "DNSResolveCheck LookupHost host timeout = (\<lambda>w.
     case LookupHost host timeout w of
       (Inl err, w') \<Rightarrow> (Some err, w')
     | (Inr addrs, w') \<Rightarrow>
         (if length addrs < 1 then (Some ''could not resolve host'', w') else (None, w')))"

definition GoroutineCountCheck :: "('w \<Rightarrow> int) \<Rightarrow> int \<Rightarrow> 'w Check" where
  "GoroutineCountCheck NumGoroutine threshold = (\<lambda>w.
     let count = NumGoroutine w
     in if count > threshold
        then (Some (''too many goroutines ('' @ decimal count @ '' > '' @ decimal threshold @ '')''), w)
        else (None, w))"

section \<open>The basic handler\<close>

text \<open>
  The handler embeds an \<open>http.ServeMux\<close>, here the patterns registered with it and the
  endpoint each one leads to.
\<close>

datatype endpoint = Live | Ready

record 'w basicHandler =
  mux_routes :: "(string \<times> endpoint) list"
  livenessChecks :: "string \<rightharpoonup> 'w Check"
  readinessChecks :: "string \<rightharpoonup> 'w Check"

definition NewHandler :: "'w basicHandler" where
  "NewHandler = \<lparr>mux_routes = [(''/live'', Live), (''/ready'', Ready)],
     livenessChecks = Map.empty, readinessChecks = Map.empty\<rparr>"

definition AddLivenessCheck :: "string \<Rightarrow> 'w Check \<Rightarrow> 'w basicHandler \<Rightarrow> 'w basicHandler" where
  "AddLivenessCheck name check s = s\<lparr>livenessChecks := (livenessChecks s)(name \<mapsto> check)\<rparr>"

definition AddReadinessCheck :: "string \<Rightarrow> 'w Check \<Rightarrow> 'w basicHandler \<Rightarrow> 'w basicHandler" where
  "AddReadinessCheck name check s = s\<lparr>readinessChecks := (readinessChecks s)(name \<mapsto> check)\<rparr>"

text \<open>
  \<open>collectChecks\<close> ranges over a map in an order Go does not specify: the argument
  \<open>names\<close>. It writes to the caller's results and status.
\<close>

fun collectChecks :: "(string \<rightharpoonup> 'w Check) \<Rightarrow> string list \<Rightarrow>
    (string \<rightharpoonup> string) \<times> nat \<times> 'w \<Rightarrow> (string \<rightharpoonup> string) \<times> nat \<times> 'w" where
  "collectChecks checks [] (resultsOut, statusOut, w) = (resultsOut, statusOut, w)"
| "collectChecks checks (name # names) (resultsOut, statusOut, w) =
     (case checks name of
        None \<Rightarrow> collectChecks checks names (resultsOut, statusOut, w)
      | Some check \<Rightarrow>
          (case check w of
             (Some err, w') \<Rightarrow> collectChecks checks names (resultsOut(name \<mapsto> err), 503, w')
           | (None, w') \<Rightarrow> collectChecks checks names (resultsOut(name \<mapsto> ''OK''), statusOut, w')))"

text \<open>
  A request is its method and the value of the query parameter \<open>full\<close>; a response its
  status, content type and body. The JSON body stands for the map that is encoded.
\<close>

record probe_request =
  Method :: string
  query_full :: string

datatype probe_body = TextBody string | JSONBody "string \<rightharpoonup> string"

record probe_response =
  r_status :: nat
  r_content_type :: string
  r_body :: probe_body

fun collect_all :: "((string \<rightharpoonup> 'w Check) \<times> string list) list \<Rightarrow>
    (string \<rightharpoonup> string) \<times> nat \<times> 'w \<Rightarrow> (string \<rightharpoonup> string) \<times> nat \<times> 'w" where
  "collect_all [] acc = acc"
| "collect_all ((checks, names) # rest) acc = collect_all rest (collectChecks checks names acc)"

definition handle :: "probe_request \<Rightarrow> ((string \<rightharpoonup> 'w Check) \<times> string list) list \<Rightarrow> 'w \<Rightarrow>
    probe_response \<times> 'w" where
  "handle r checks w =
     (if Method r \<noteq> ''GET'' then
        (\<lparr>r_status = 405, r_content_type = ''text/plain; charset=utf-8'',
           r_body = TextBody (''method not allowed'' @ [CHR 0x0A])\<rparr>, w)
      else
        (case collect_all checks (Map.empty, 200, w) of
           (checkResults, status, w') \<Rightarrow>
             (\<lparr>r_status = status, r_content_type = ''application/json; charset=utf-8'',
                r_body = (if query_full r \<noteq> ''1'' then TextBody (''{}'' @ [CHR 0x0A])
                          else JSONBody checkResults)\<rparr>, w')))"

definition LiveEndpoint :: "string list \<Rightarrow> probe_request \<Rightarrow> 'w basicHandler \<Rightarrow> 'w \<Rightarrow> probe_response \<times> 'w" where
  "LiveEndpoint live_names r s w = handle r [(livenessChecks s, live_names)] w"

definition ReadyEndpoint :: "string list \<Rightarrow> string list \<Rightarrow> probe_request \<Rightarrow> 'w basicHandler \<Rightarrow> 'w \<Rightarrow>
    probe_response \<times> 'w" where
  "ReadyEndpoint ready_names live_names r s w =
     handle r [(readinessChecks s, ready_names), (livenessChecks s, live_names)] w"

text \<open>
  \<open>ServeHTTP\<close> is the one of the embedded mux: how it picks a pattern for a request, and
  what it answers when there is none, are parameters.
\<close>

definition ServeHTTP :: "((string \<times> endpoint) list \<Rightarrow> probe_request \<Rightarrow> endpoint option) \<Rightarrow>
    (probe_request \<Rightarrow> probe_response) \<Rightarrow> string list \<Rightarrow> string list \<Rightarrow> probe_request \<Rightarrow>
    'w basicHandler \<Rightarrow> 'w \<Rightarrow> probe_response \<times> 'w" where
  "ServeHTTP pick not_found ready_names live_names r s w =
     (case pick (mux_routes s) r of
        None \<Rightarrow> (not_found r, w)
      | Some Live \<Rightarrow> LiveEndpoint live_names r s w
      | Some Ready \<Rightarrow> ReadyEndpoint ready_names live_names r s w)"

section \<open>What the endpoints answer\<close>

text \<open>The outcomes of running the checks of a list of names in turn.\<close>

fun outcomes :: "(string \<times> 'w Check) list \<Rightarrow> 'w \<Rightarrow> (string \<times> string option) list \<times> 'w" where
  "outcomes [] w = ([], w)"
| "outcomes ((name, check) # ncs) w =
     (case check w of (r, w') \<Rightarrow>
       (case outcomes ncs w' of (rs, w'') \<Rightarrow> ((name, r) # rs, w'')))"

definition enumerates :: "string list \<Rightarrow> (string \<rightharpoonup> 'a) \<Rightarrow> bool" where
  "enumerates names m \<longleftrightarrow> distinct names \<and> set names = dom m"

lemma enumerates_single:
  assumes "enumerates ns [n \<mapsto> c]"
  shows "ns = [n]"
proof -
  from assms have "distinct ns" and "set ns = {n}" by (simp_all add: enumerates_def)
  moreover from this have "length ns = Suc 0" using distinct_card [of ns] by simp
  then obtain x where "ns = [x]" by (auto simp: length_Suc_conv)
  ultimately show ?thesis by simp
qed

definition named :: "(string \<rightharpoonup> 'a) \<Rightarrow> string list \<Rightarrow> (string \<times> 'a) list" where
  "named m names = map (\<lambda>n. (n, the (m n))) names"

definition result_text :: "string option \<Rightarrow> string" where
  "result_text r = (case r of None \<Rightarrow> ''OK'' | Some err \<Rightarrow> err)"

lemma collectChecks_outcomes:
  assumes "set names \<subseteq> dom m" and "outcomes (named m names) w = (rs, w')"
  shows "collectChecks m names (res, st, w) =
    (res ++ map_of (rev (map (\<lambda>(n, r). (n, result_text r)) rs)),
     if \<exists>(n, r) \<in> set rs. r \<noteq> None then 503 else st, w')"
  using assms
proof (induction names arbitrary: res st w rs w')
  case Nil
  then show ?case by (simp add: named_def)
next
  case (Cons n names)
  then obtain check where check: "m n = Some check" by auto
  obtain r w1 where r: "check w = (r, w1)" by force
  obtain rs1 w2 where o: "outcomes (named m names) w1 = (rs1, w2)" by force
  from Cons.prems check r o have rs: "rs = (n, r) # rs1" "w' = w2" by (simp_all add: named_def)
  from Cons.IH [OF _ o] Cons.prems(1) show ?case
    by (cases r) (simp_all add: check r rs result_text_def map_add_assoc)
qed

lemma outcomes_append:
  "outcomes (xs @ ys) w =
     (case outcomes xs w of (rs, w') \<Rightarrow> (case outcomes ys w' of (rs', w'') \<Rightarrow> (rs @ rs', w'')))"
  by (induction xs arbitrary: w) (auto split: prod.split)

lemma collect_ready:
  assumes "enumerates rn rm" and "enumerates ln lm"
    and "outcomes (named rm rn @ named lm ln) w = (rs, w')"
  shows "collect_all [(rm, rn), (lm, ln)] (Map.empty, 200, w) =
    (map_of (rev (map (\<lambda>(n, x). (n, result_text x)) rs)),
     if \<exists>nr \<in> set rs. snd nr \<noteq> None then 503 else 200, w')"
proof -
  obtain rs1 w1 where o1: "outcomes (named rm rn) w = (rs1, w1)" by force
  obtain rs2 w2 where o2: "outcomes (named lm ln) w1 = (rs2, w2)" by force
  from assms(3) o1 o2 have rs: "rs = rs1 @ rs2" "w' = w2" by (simp_all add: outcomes_append)
  have "set rn \<subseteq> dom rm" "set ln \<subseteq> dom lm" using assms(1,2) by (simp_all add: enumerates_def)
  with collectChecks_outcomes [OF _ o1] collectChecks_outcomes [OF _ o2] show ?thesis
    by (simp add: rs case_prod_unfold bex_Un)
qed

text \<open>A check that always fails makes a run fail, wherever it is in the order.\<close>

lemma outcomes_failing:
  assumes "(n, c) \<in> set ncs" and "\<And>w. fst (c w) \<noteq> None" and "outcomes ncs w = (rs, w')"
  shows "\<exists>nr \<in> set rs. snd nr \<noteq> None"
  using assms(1,3)
proof (induction ncs arbitrary: w rs)
  case (Cons nc ncs)
  obtain m d where nc: "nc = (m, d)" by force
  obtain r w1 where r: "d w = (r, w1)" by force
  obtain rs1 w2 where o: "outcomes ncs w1 = (rs1, w2)" by force
  from Cons.prems(2) r o have rs: "rs = (m, r) # rs1" "w2 = w'" by (simp_all add: nc)
  show ?case
  proof (cases "(n, c) = nc")
    case True
    with assms(2) [of w] r show ?thesis by (simp add: nc rs)
  next
    case False
    with Cons.prems(1) Cons.IH [of w1 rs1] o rs show ?thesis by auto
  qed
qed simp

text \<open>
  C31. The readiness endpoint. A GET runs every readiness check and then every liveness
  check once, in whatever order of the names; it answers 200 if all of them pass and 503
  otherwise, and with \<open>full=1\<close> a name's last outcome, so that of two checks with one name
  the liveness check's is shown even if the readiness check failed. Another method is
  answered 405 and runs nothing.
\<close>

theorem ReadyEndpoint_spec:
  assumes "enumerates rn (readinessChecks s)" and "enumerates ln (livenessChecks s)"
    and "outcomes (named (readinessChecks s) rn @ named (livenessChecks s) ln) w = (rs, w')"
  shows "ReadyEndpoint rn ln r s w =
    (if Method r = ''GET''
     then (\<lparr>r_status = (if \<exists>nr \<in> set rs. snd nr \<noteq> None then 503 else 200),
        r_content_type = ''application/json; charset=utf-8'',
        r_body = (if query_full r = ''1''
          then JSONBody (map_of (rev (map (\<lambda>(n, x). (n, result_text x)) rs)))
          else TextBody (''{}'' @ [CHR 0x0A]))\<rparr>, w')
     else (\<lparr>r_status = 405, r_content_type = ''text/plain; charset=utf-8'',
        r_body = TextBody (''method not allowed'' @ [CHR 0x0A])\<rparr>, w))"
  using collect_ready [OF assms] by (simp add: ReadyEndpoint_def handle_def)

definition sample_probe :: "unit basicHandler" where
  "sample_probe = AddReadinessCheck ''db'' (\<lambda>w. (Some ''connection refused'', w))
     (AddLivenessCheck ''db'' (\<lambda>w. (None, w)) NewHandler)"

theorem ReadyEndpoint_spec_witness:
  "ReadyEndpoint [''db''] [''db''] \<lparr>Method = ''GET'', query_full = ''1''\<rparr> sample_probe () =
     (\<lparr>r_status = 503, r_content_type = ''application/json; charset=utf-8'',
        r_body = JSONBody [''db'' \<mapsto> ''OK'']\<rparr>, ())"
proof -
  have e: "enumerates [''db''] (readinessChecks sample_probe)"
    "enumerates [''db''] (livenessChecks sample_probe)"
    by (auto simp: enumerates_def sample_probe_def AddReadinessCheck_def AddLivenessCheck_def
        NewHandler_def)
  have o: "outcomes (named (readinessChecks sample_probe) [''db''] @
      named (livenessChecks sample_probe) [''db'']) () =
      ([(''db'', Some ''connection refused''), (''db'', None)], ())"
    by (simp add: named_def sample_probe_def AddReadinessCheck_def AddLivenessCheck_def NewHandler_def)
  show ?thesis
    using ReadyEndpoint_spec [OF e o, of "\<lparr>Method = ''GET'', query_full = ''1''\<rparr>"]
    by (auto simp: result_text_def fun_eq_iff)
qed

text \<open>Checks that only look at the world.\<close>

definition pure_check :: "'w Check \<Rightarrow> bool" where
  "pure_check c \<longleftrightarrow> (\<forall>w. snd (c w) = w)"

lemma outcomes_pure:
  "\<forall>nc \<in> set ncs. pure_check (snd nc) \<Longrightarrow> outcomes ncs w = (map (\<lambda>nc. (fst nc, fst (snd nc w))) ncs, w)"
proof (induction ncs)
  case (Cons nc ncs)
  obtain n c where nc: "nc = (n, c)" by force
  with Cons.prems have "snd (c w) = w" by (simp add: pure_check_def)
  then obtain r where "c w = (r, w)" by (cases "c w") simp
  with Cons show ?case by (simp add: nc)
qed simp

lemma named_all:
  assumes "enumerates ns m"
  shows "(\<forall>nc \<in> set (named m ns). P (snd nc)) \<longleftrightarrow> (\<forall>c \<in> ran m. P c)"
proof -
  have "ran m = (\<lambda>n. the (m n)) ` set ns"
    using assms by (force simp: enumerates_def ran_def image_iff dom_def)
  then show ?thesis by (simp add: named_def)
qed

text \<open>
  Live and ready agree: with checks that only observe, a ready program is live, and
  each endpoint answers 200 exactly when every one of its checks passes, whatever the order
  in which the checks run.
\<close>

theorem ready_implies_live:
  assumes "enumerates rn (readinessChecks s)" and "enumerates ln (livenessChecks s)"
    and "\<forall>c \<in> ran (readinessChecks s) \<union> ran (livenessChecks s). pure_check c"
    and "Method r = ''GET''"
  shows "(r_status (fst (ReadyEndpoint rn ln r s w)) = 200 \<longleftrightarrow>
      (\<forall>c \<in> ran (readinessChecks s) \<union> ran (livenessChecks s). fst (c w) = None))
    \<and> (r_status (fst (LiveEndpoint ln r s w)) = 200 \<longleftrightarrow>
      (\<forall>c \<in> ran (livenessChecks s). fst (c w) = None))
    \<and> (r_status (fst (ReadyEndpoint rn ln r s w)) = 200 \<longrightarrow>
      r_status (fst (LiveEndpoint ln r s w)) = 200)"
proof -
  have all: "(\<forall>nc \<in> set (named (readinessChecks s) rn). P (snd nc)) \<longleftrightarrow> (\<forall>c \<in> ran (readinessChecks s). P c)"
    "(\<forall>nc \<in> set (named (livenessChecks s) ln). P (snd nc)) \<longleftrightarrow> (\<forall>c \<in> ran (livenessChecks s). P c)" for P
    using assms(1,2) by (simp_all add: named_all)
  let ?pass = "\<lambda>ncs. \<forall>nc \<in> set ncs. fst (snd nc w) = None"
  have pure: "\<forall>nc \<in> set (named (readinessChecks s) rn @ named (livenessChecks s) ln). pure_check (snd nc)"
    using assms(3) unfolding set_append ball_Un all by simp
  have "r_status (fst (ReadyEndpoint rn ln r s w)) = 200 \<longleftrightarrow>
      ?pass (named (readinessChecks s) rn @ named (livenessChecks s) ln)"
    using collect_ready [OF assms(1,2) outcomes_pure [OF pure]] assms(4)
    by (simp add: ReadyEndpoint_def handle_def ball_Un bex_Un)
  moreover have "r_status (fst (LiveEndpoint ln r s w)) = 200 \<longleftrightarrow> ?pass (named (livenessChecks s) ln)"
  proof -
    have "outcomes (named (livenessChecks s) ln) w =
        (map (\<lambda>nc. (fst nc, fst (snd nc w))) (named (livenessChecks s) ln), w)"
      using pure by (intro outcomes_pure) simp
    from collectChecks_outcomes [OF _ this] assms(2,4) show ?thesis
      by (simp add: LiveEndpoint_def handle_def enumerates_def case_prod_unfold)
  qed
  ultimately show ?thesis
    using all [of "\<lambda>c. fst (c w) = None"] by (simp add: ball_Un)
qed

theorem ready_implies_live_witness:
  "r_status (fst (LiveEndpoint [''db''] \<lparr>Method = ''GET'', query_full = ''''\<rparr> sample_probe ())) = 200
   \<and> r_status (fst (ReadyEndpoint [''db''] [''db''] \<lparr>Method = ''GET'', query_full = ''''\<rparr> sample_probe ())) \<noteq> 200"
proof -
  let ?r = "\<lparr>Method = ''GET'', query_full = ''''\<rparr>"
  have m: "readinessChecks sample_probe = [''db'' \<mapsto> (\<lambda>w. (Some ''connection refused'', w))]"
    "livenessChecks sample_probe = [''db'' \<mapsto> (\<lambda>w. (None, w))]"
    by (simp_all add: sample_probe_def AddReadinessCheck_def AddLivenessCheck_def NewHandler_def)
  have e: "enumerates [''db''] (readinessChecks sample_probe)"
    "enumerates [''db''] (livenessChecks sample_probe)"
    by (simp_all add: m enumerates_def)
  have "\<forall>c \<in> ran (readinessChecks sample_probe) \<union> ran (livenessChecks sample_probe). pure_check c"
    by (auto simp: m pure_check_def)
  from ready_implies_live [OF e this, of ?r "()"] show ?thesis by (auto simp: m)
qed

section \<open>The handler that exports its checks\<close>

text \<open>
  A gauge is described by its options; its function runs the check and is 0 or 1. The
  Prometheus client documents what a registry refuses, which makes \<open>MustRegister\<close> panic
  (\<open>None\<close>): a metric or label name that is not one, a label value that is not UTF-8, and
  options that clash with what is registered. Two collectors with one fully qualified name
  clash if their help texts or label names differ, or if their label values are the same.
  Labels are listed in the order of their names.
\<close>

record gauge_opts =
  g_Namespace :: string
  g_Subsystem :: string
  g_Name :: string
  g_Help :: string
  g_ConstLabels :: "(string \<times> string) list"

type_synonym 'w gauge = "'w \<Rightarrow> nat \<times> 'w"

text \<open>A collector of another kind appears in a registry with the options that describe it.\<close>

type_synonym 'w gauges = "(gauge_opts \<times> 'w gauge) list"

definition BuildFQName :: "string \<Rightarrow> string \<Rightarrow> string \<Rightarrow> string" where
  "BuildFQName ns subsystem name =
     (if name = [] then []
      else (if ns = [] then [] else ns @ ''_'')
        @ (if subsystem = [] then [] else subsystem @ ''_'') @ name)"

definition g_fqName :: "gauge_opts \<Rightarrow> string" where
  "g_fqName o1 = BuildFQName (g_Namespace o1) (g_Subsystem o1) (g_Name o1)"

definition name_start :: "char \<Rightarrow> bool" where
  "name_start c \<longleftrightarrow> (let n = of_char c :: nat in 65 \<le> n \<and> n \<le> 90 \<or> 97 \<le> n \<and> n \<le> 122 \<or> n = 95 \<or> n = 58)"

definition name_char :: "char \<Rightarrow> bool" where
  "name_char c \<longleftrightarrow> name_start c \<or> (let n = of_char c :: nat in 48 \<le> n \<and> n \<le> 57)"

definition valid_metric_name :: "string \<Rightarrow> bool" where
  "valid_metric_name s \<longleftrightarrow> s \<noteq> [] \<and> name_start (hd s) \<and> list_all name_char s"

definition valid_label_name :: "string \<Rightarrow> bool" where
  "valid_label_name s \<longleftrightarrow> valid_metric_name s \<and> CHR '':'' \<notin> set s \<and> take 2 s \<noteq> ''__''"

text \<open>
  \<open>utf8.ValidString\<close>: the number of bytes that follow a first byte, and the range of the
  second one, which excludes overlong forms, surrogates and what is above U+10FFFF.
\<close>

definition utf8_rest :: "nat \<Rightarrow> nat option" where
  "utf8_rest n =
     (if n < 128 then Some 0 else if 194 \<le> n \<and> n < 224 then Some 1
      else if 224 \<le> n \<and> n < 240 then Some 2 else if 240 \<le> n \<and> n < 245 then Some 3 else None)"

definition utf8_second :: "nat \<Rightarrow> nat \<Rightarrow> bool" where
  "utf8_second n k \<longleftrightarrow> (if n = 224 then 160 else if n = 240 then 144 else 128) \<le> k
     \<and> k \<le> (if n = 237 then 159 else if n = 244 then 143 else 191)"

function utf8_valid :: "string \<Rightarrow> bool" where
  "utf8_valid [] = True"
| "utf8_valid (c # s) =
     (case utf8_rest (of_char c) of
        None \<Rightarrow> False
      | Some k \<Rightarrow>
          k \<le> length s \<and> (0 < k \<longrightarrow> utf8_second (of_char c) (of_char (hd s)))
          \<and> list_all (\<lambda>d. 128 \<le> (of_char d :: nat) \<and> (of_char d :: nat) \<le> 191) (take k s)
          \<and> utf8_valid (drop k s))"
  by pat_completeness auto
termination by (relation "measure length") auto

definition valid_opts :: "gauge_opts \<Rightarrow> bool" where
  "valid_opts o1 \<longleftrightarrow> valid_metric_name (g_fqName o1)
     \<and> list_all (\<lambda>(l, v). valid_label_name l \<and> utf8_valid v) (g_ConstLabels o1)"

definition clashes :: "gauge_opts \<Rightarrow> gauge_opts \<Rightarrow> bool" where
  "clashes o1 o2 \<longleftrightarrow> g_fqName o1 = g_fqName o2
     \<and> (g_Help o1 \<noteq> g_Help o2 \<or> map fst (g_ConstLabels o1) \<noteq> map fst (g_ConstLabels o2)
        \<or> map snd (g_ConstLabels o1) = map snd (g_ConstLabels o2))"

definition registrable :: "gauge_opts \<Rightarrow> 'w gauges \<Rightarrow> bool" where
  "registrable opts reg \<longleftrightarrow> valid_opts opts \<and> list_all (\<lambda>g. \<not> clashes opts (fst g)) reg"

definition MustRegister_gauge :: "gauge_opts \<Rightarrow> 'w gauge \<Rightarrow> 'w gauges \<Rightarrow> 'w gauges option" where
  "MustRegister_gauge opts f reg = (if registrable opts reg then Some (reg @ [(opts, f)]) else None)"

record 'w metricsHandler =
  handler :: "'w basicHandler"
  registry :: "'w gauges"
  namespace :: string

definition MakeProbe :: "'w gauges \<Rightarrow> string \<Rightarrow> 'w metricsHandler" where
  "MakeProbe reg ns = \<lparr>handler = NewHandler, registry = reg, namespace = ns\<rparr>"

definition wrap_opts :: "string \<Rightarrow> string \<Rightarrow> gauge_opts" where
  "wrap_opts ns name = \<lparr>g_Namespace = ns, g_Subsystem = ''healthcheck'', g_Name = ''status'',
     g_Help = ''Current check status (0 indicates success, 1 indicates failure)'',
     g_ConstLabels = [(''check'', name)]\<rparr>"

definition wrap_gauge :: "'w Check \<Rightarrow> 'w gauge" where
  "wrap_gauge check = (\<lambda>w. case check w of (None, w') \<Rightarrow> (0, w') | (Some _, w') \<Rightarrow> (1, w'))"

definition wrap :: "string \<Rightarrow> 'w Check \<Rightarrow> 'w metricsHandler \<Rightarrow> ('w Check \<times> 'w metricsHandler) option" where
  "wrap name check h =
     (case MustRegister_gauge (wrap_opts (namespace h) name) (wrap_gauge check) (registry h) of
        None \<Rightarrow> None
      | Some reg \<Rightarrow> Some (check, h\<lparr>registry := reg\<rparr>))"

definition AddLivenessCheck_m :: "string \<Rightarrow> 'w Check \<Rightarrow> 'w metricsHandler \<Rightarrow> 'w metricsHandler option" where
  "AddLivenessCheck_m name check h =
     (case wrap name check h of
        None \<Rightarrow> None
      | Some (check', h') \<Rightarrow> Some (h'\<lparr>handler := AddLivenessCheck name check' (handler h')\<rparr>))"

definition AddReadinessCheck_m :: "string \<Rightarrow> 'w Check \<Rightarrow> 'w metricsHandler \<Rightarrow> 'w metricsHandler option" where
  "AddReadinessCheck_m name check h =
     (case wrap name check h of
        None \<Rightarrow> None
      | Some (check', h') \<Rightarrow> Some (h'\<lparr>handler := AddReadinessCheck name check' (handler h')\<rparr>))"

definition LiveEndpoint_m :: "string list \<Rightarrow> probe_request \<Rightarrow> 'w metricsHandler \<Rightarrow> 'w \<Rightarrow> probe_response \<times> 'w" where
  "LiveEndpoint_m live_names r h w = LiveEndpoint live_names r (handler h) w"

definition ReadyEndpoint_m :: "string list \<Rightarrow> string list \<Rightarrow> probe_request \<Rightarrow> 'w metricsHandler \<Rightarrow> 'w \<Rightarrow>
    probe_response \<times> 'w" where
  "ReadyEndpoint_m ready_names live_names r h w = ReadyEndpoint ready_names live_names r (handler h) w"

definition ServeHTTP_m :: "((string \<times> endpoint) list \<Rightarrow> probe_request \<Rightarrow> endpoint option) \<Rightarrow>
    (probe_request \<Rightarrow> probe_response) \<Rightarrow> string list \<Rightarrow> string list \<Rightarrow> probe_request \<Rightarrow>
    'w metricsHandler \<Rightarrow> 'w \<Rightarrow> probe_response \<times> 'w" where
  "ServeHTTP_m pick not_found ready_names live_names r h w =
     ServeHTTP pick not_found ready_names live_names r (handler h) w"

section \<open>The interface of the handlers\<close>

text \<open>
  A program registers checks and serves the endpoints through the interface
  \<open>Handler\<close>: an addition that returns puts the check where it belongs and touches
  nothing else, and the endpoints answer from the checks registered.
\<close>

locale health_handler =
  fixes liveness :: "'s \<Rightarrow> (string \<rightharpoonup> 'w Check)"
    and readiness :: "'s \<Rightarrow> (string \<rightharpoonup> 'w Check)"
    and add_live :: "string \<Rightarrow> 'w Check \<Rightarrow> 's \<Rightarrow> 's option"
    and add_ready :: "string \<Rightarrow> 'w Check \<Rightarrow> 's \<Rightarrow> 's option"
    and live :: "string list \<Rightarrow> probe_request \<Rightarrow> 's \<Rightarrow> 'w \<Rightarrow> probe_response \<times> 'w"
    and ready :: "string list \<Rightarrow> string list \<Rightarrow> probe_request \<Rightarrow> 's \<Rightarrow> 'w \<Rightarrow> probe_response \<times> 'w"
  assumes add_live_checks: "add_live n c s = Some s' \<Longrightarrow>
      liveness s' = (liveness s)(n \<mapsto> c) \<and> readiness s' = readiness s"
    and add_ready_checks: "add_ready n c s = Some s' \<Longrightarrow>
      readiness s' = (readiness s)(n \<mapsto> c) \<and> liveness s' = liveness s"
    and live_answers: "live ln r s w = handle r [(liveness s, ln)] w"
    and ready_answers: "ready rn ln r s w = handle r [(readiness s, rn), (liveness s, ln)] w"
begin

text \<open>A program's registrations: the flag tells a liveness check.\<close>

primrec add_checks :: "(bool \<times> string \<times> 'w Check) list \<Rightarrow> 's \<Rightarrow> 's option" where
  "add_checks [] s = Some s"
| "add_checks (x # xs) s =
     (case x of (is_live, n, c) \<Rightarrow>
       (case (if is_live then add_live n c s else add_ready n c s) of
          None \<Rightarrow> None
        | Some s' \<Rightarrow> add_checks xs s'))"

lemma add_checks_maps:
  "add_checks xs s = Some s' \<Longrightarrow>
     liveness s' = liveness s ++ map_of (rev (map snd (filter fst xs)))
   \<and> readiness s' = readiness s ++ map_of (rev (map snd (filter (Not \<circ> fst) xs)))"
proof (induction xs arbitrary: s)
  case (Cons x xs)
  obtain b n c where x: "x = (b, n, c)" by (cases x)
  from Cons.prems obtain s1 where s1: "(if b then add_live n c s else add_ready n c s) = Some s1"
      "add_checks xs s1 = Some s'"
    by (auto simp: x split: option.splits)
  from Cons.IH [OF s1(2)] s1(1) show ?case
    by (cases b) (auto simp: x fun_eq_iff map_add_def dest!: add_live_checks add_ready_checks split: option.split)
qed simp

end

definition basic_add :: "(string \<Rightarrow> 'w Check \<Rightarrow> 'w basicHandler \<Rightarrow> 'w basicHandler) \<Rightarrow>
    string \<Rightarrow> 'w Check \<Rightarrow> 'w basicHandler \<Rightarrow> 'w basicHandler option" where
  "basic_add add n c s = Some (add n c s)"

interpretation basic: health_handler livenessChecks readinessChecks "basic_add AddLivenessCheck"
  "basic_add AddReadinessCheck" LiveEndpoint ReadyEndpoint
  by unfold_locales (auto simp: basic_add_def AddLivenessCheck_def AddReadinessCheck_def
      LiveEndpoint_def ReadyEndpoint_def)

lemma basic_add_total: "\<exists>b. basic.add_checks xs s = Some b"
  by (induction xs arbitrary: s) (auto simp: basic_add_def)

lemma wrap_eq:
  "wrap name check h = Some (check', h') \<longleftrightarrow>
     registrable (wrap_opts (namespace h) name) (registry h) \<and> check' = check
   \<and> h' = h\<lparr>registry := registry h @ [(wrap_opts (namespace h) name, wrap_gauge check)]\<rparr>"
  "wrap name check h = None \<longleftrightarrow> \<not> registrable (wrap_opts (namespace h) name) (registry h)"
  by (auto simp: wrap_def MustRegister_gauge_def)

lemma add_m_eq:
  "AddLivenessCheck_m n c h = Some h' \<longleftrightarrow>
     registrable (wrap_opts (namespace h) n) (registry h)
   \<and> h' = h\<lparr>registry := registry h @ [(wrap_opts (namespace h) n, wrap_gauge c)],
            handler := AddLivenessCheck n c (handler h)\<rparr>"
  "AddReadinessCheck_m n c h = Some h' \<longleftrightarrow>
     registrable (wrap_opts (namespace h) n) (registry h)
   \<and> h' = h\<lparr>registry := registry h @ [(wrap_opts (namespace h) n, wrap_gauge c)],
            handler := AddReadinessCheck n c (handler h)\<rparr>"
  "AddLivenessCheck_m n c h = None \<longleftrightarrow> \<not> registrable (wrap_opts (namespace h) n) (registry h)"
  "AddReadinessCheck_m n c h = None \<longleftrightarrow> \<not> registrable (wrap_opts (namespace h) n) (registry h)"
  by (auto simp: AddLivenessCheck_m_def AddReadinessCheck_m_def wrap_eq split: option.splits)

interpretation exporting: health_handler "livenessChecks \<circ> handler" "readinessChecks \<circ> handler"
  AddLivenessCheck_m AddReadinessCheck_m LiveEndpoint_m ReadyEndpoint_m
  by unfold_locales (auto simp: add_m_eq AddLivenessCheck_def AddReadinessCheck_def
      LiveEndpoint_m_def ReadyEndpoint_m_def LiveEndpoint_def ReadyEndpoint_def)

text \<open>
  What a registry takes of the handler's gauges: the namespace must be empty or a metric name,
  the name of the check UTF-8, and two checks of one handler clash if they share their name.
\<close>

lemma valid_metric_name_append:
  "valid_metric_name (s @ t) \<longleftrightarrow> (if s = [] then valid_metric_name t else valid_metric_name s \<and> list_all name_char t)"
  by (auto simp: valid_metric_name_def)

lemma wrap_fqName: "g_fqName (wrap_opts ns n) = (if ns = [] then [] else ns @ ''_'') @ ''healthcheck_status''"
  by (simp add: g_fqName_def BuildFQName_def wrap_opts_def)

lemma healthcheck_name: "valid_metric_name ''healthcheck_status''" "list_all name_char ''_healthcheck_status''"
  "valid_label_name ''check''"
  by (simp_all add: valid_label_name_def valid_metric_name_def name_char_def name_start_def)

lemma valid_wrap_opts: "valid_opts (wrap_opts ns n) \<longleftrightarrow> (ns = [] \<or> valid_metric_name ns) \<and> utf8_valid n"
proof -
  have "valid_metric_name (g_fqName (wrap_opts ns n)) \<longleftrightarrow> ns = [] \<or> valid_metric_name ns"
    using healthcheck_name(1,2) valid_metric_name_append [of ns "''_healthcheck_status''"]
    by (auto simp: wrap_fqName)
  then show ?thesis using healthcheck_name(3) by (simp add: valid_opts_def wrap_opts_def)
qed

lemma wrap_clash: "clashes (wrap_opts ns n) (wrap_opts ns n') \<longleftrightarrow> n = n'"
  by (simp add: clashes_def wrap_fqName) (simp add: wrap_opts_def)

lemma registrable_snoc:
  "registrable o1 (reg @ [(o2, f)]) \<longleftrightarrow> registrable o1 reg \<and> \<not> clashes o1 o2"
  by (auto simp: registrable_def)

text \<open>
  The registrations as one run over the exporting handler, and over the basic one.
\<close>

lemma exporting_add_checks:
  "exporting.add_checks xs h = Some h' \<longleftrightarrow>
     distinct (map (fst \<circ> snd) xs)
   \<and> (\<forall>x \<in> set xs. registrable (wrap_opts (namespace h) (fst (snd x))) (registry h))
   \<and> basic.add_checks xs (handler h) = Some (handler h')
   \<and> registry h' = registry h @ map (\<lambda>x. (wrap_opts (namespace h) (fst (snd x)), wrap_gauge (snd (snd x)))) xs
   \<and> namespace h' = namespace h"
proof (induction xs arbitrary: h)
  case Nil
  then show ?case by (auto intro: metricsHandler.equality)
next
  case (Cons x xs)
  obtain b n c where x: "x = (b, n, c)" by (cases x)
  let ?o = "wrap_opts (namespace h) n"
  let ?add = "if b then AddLivenessCheck n c else AddReadinessCheck n c"
  let ?h = "h\<lparr>registry := registry h @ [(?o, wrap_gauge c)], handler := ?add (handler h)\<rparr>"
  have "(if b then AddLivenessCheck_m n c h else AddReadinessCheck_m n c h) =
      (if registrable ?o (registry h) then Some ?h else None)"
    by (cases b) (auto simp: add_m_eq)
  moreover have "(if b then basic_add AddLivenessCheck n c (handler h)
      else basic_add AddReadinessCheck n c (handler h)) = Some (handler ?h)"
    by (simp add: basic_add_def)
  ultimately show ?case using Cons.IH [of ?h] by (auto simp: x registrable_snoc wrap_clash)
qed

lemma exporting_adds:
  assumes "distinct (map (fst \<circ> snd) xs)"
    and "\<forall>x \<in> set xs. registrable (wrap_opts ns (fst (snd x))) reg"
  shows "\<exists>h. exporting.add_checks xs (MakeProbe reg ns) = Some h"
proof -
  obtain b where "basic.add_checks xs NewHandler = Some b" using basic_add_total by blast
  with assms show ?thesis
    unfolding exporting_add_checks
    by (intro exI [of _ "\<lparr>handler = b, registry = reg @
        map (\<lambda>x. (wrap_opts ns (fst (snd x)), wrap_gauge (snd (snd x)))) xs, namespace = ns\<rparr>"])
      (simp add: MakeProbe_def)
qed

text \<open>
  C17. The exporting handler refines the basic one. A program's registrations go through
  exactly when no name is registered twice (not even once for liveness and once for
  readiness), the names are UTF-8, the namespace is empty or a metric name, and nothing
  registered before clashes with a gauge of the checks. Then the handler answers both
  endpoints as a basic handler with the same registrations does, and exports one gauge for
  each check. Any other registrations, which the basic handler takes, panic.
\<close>

theorem exporting_refines_basic:
  "(let ok = distinct (map (fst \<circ> snd) xs)
      \<and> (\<forall>(is_live, n, c) \<in> set xs. utf8_valid n \<and> (ns = [] \<or> valid_metric_name ns)
          \<and> (\<forall>(o2, g) \<in> set reg. \<not> clashes (wrap_opts ns n) o2))
    in case exporting.add_checks xs (MakeProbe reg ns) of
      None \<Rightarrow> \<not> ok
    | Some h \<Rightarrow> ok
        \<and> (\<exists>b. basic.add_checks xs NewHandler = Some b
            \<and> LiveEndpoint_m ln r h w = LiveEndpoint ln r b w
            \<and> ReadyEndpoint_m rn ln r h w = ReadyEndpoint rn ln r b w
            \<and> ServeHTTP_m pick not_found rn ln r h w = ServeHTTP pick not_found rn ln r b w)
        \<and> registry h = reg @ map (\<lambda>(is_live, n, c). (wrap_opts ns n, wrap_gauge c)) xs)"
proof -
  let ?ok = "distinct (map (fst \<circ> snd) xs) \<and> (\<forall>x \<in> set xs. registrable (wrap_opts ns (fst (snd x))) reg)"
  have ok: "(distinct (map (fst \<circ> snd) xs)
      \<and> (\<forall>(is_live, n, c) \<in> set xs. utf8_valid n \<and> (ns = [] \<or> valid_metric_name ns)
          \<and> (\<forall>(o2, g) \<in> set reg. \<not> clashes (wrap_opts ns n) o2))) = ?ok"
    unfolding registrable_def valid_wrap_opts list_all_iff case_prod_unfold by blast
  show ?thesis
  proof (cases "exporting.add_checks xs (MakeProbe reg ns)")
    case None
    with exporting_adds [of xs ns reg] show ?thesis unfolding Let_def ok by auto
  next
    case (Some h)
    from Some [unfolded exporting_add_checks] show ?thesis
      unfolding Some Let_def ok
      by (simp add: MakeProbe_def LiveEndpoint_m_def ReadyEndpoint_m_def ServeHTTP_m_def case_prod_unfold)
  qed
qed

text \<open>
  The witness: a check is taken under the namespace \<open>my_app\<close>; under \<open>my-app\<close> it panics, and
  so does a second check of the same name.
\<close>

theorem exporting_refines_basic_witness:
  "(\<exists>h. exporting.add_checks [(True, ''db'', \<lambda>w :: unit. (None, w))] (MakeProbe [] ''my_app'') = Some h)
   \<and> exporting.add_checks [(True, ''db'', \<lambda>w :: unit. (None, w))] (MakeProbe [] ''my-app'') = None
   \<and> exporting.add_checks [(True, ''db'', \<lambda>w :: unit. (None, w)), (False, ''db'', \<lambda>w. (None, w))]
       (MakeProbe [] ''my_app'') = None"
proof -
  let ?db = "(True, ''db'', \<lambda>w :: unit. (None, w)) :: bool \<times> string \<times> unit Check"
  have names: "valid_metric_name ''my_app''" "\<not> valid_metric_name ''my-app''" "utf8_valid ''db''"
    by (simp_all add: valid_metric_name_def name_char_def name_start_def utf8_rest_def)
  let ?db2 = "(False, ''db'', \<lambda>w :: unit. (None, w)) :: bool \<times> string \<times> unit Check"
  have "\<exists>h. exporting.add_checks [?db] (MakeProbe [] ''my_app'') = Some h"
    using names exporting_refines_basic [of "[?db]" "''my_app''" "[]"]
    by (cases "exporting.add_checks [?db] (MakeProbe [] ''my_app'')")
      (simp_all add: Let_def del: exporting.add_checks.simps)
  moreover have "exporting.add_checks [?db] (MakeProbe [] ''my-app'') = None"
    using names exporting_refines_basic [of "[?db]" "''my-app''" "[]"]
    by (cases "exporting.add_checks [?db] (MakeProbe [] ''my-app'')")
      (simp_all add: Let_def del: exporting.add_checks.simps)
  moreover have "exporting.add_checks [?db, ?db2] (MakeProbe [] ''my_app'') = None"
    using names exporting_refines_basic [of "[?db, ?db2]" "''my_app''" "[]"]
    by (cases "exporting.add_checks [?db, ?db2] (MakeProbe [] ''my_app'')")
      (simp_all add: Let_def del: exporting.add_checks.simps)
  ultimately show ?thesis by blast
qed

text \<open>
  What the endpoints of the exporting handler check: of each kind, the registrations of the
  program, the last one of a name.
\<close>

lemma exporting_maps:
  assumes "exporting.add_checks xs (MakeProbe reg ns) = Some h"
  shows "readinessChecks (handler h) = map_of (rev (map snd (filter (Not \<circ> fst) xs)))"
    and "livenessChecks (handler h) = map_of (rev (map snd (filter fst xs)))"
  using exporting.add_checks_maps [OF assms] by (simp_all add: MakeProbe_def NewHandler_def)

lemma exporting_answers:
  assumes "exporting.add_checks xs (MakeProbe reg ns) = Some h"
  shows "ReadyEndpoint_m rn ln r h w =
    handle r [(map_of (rev (map snd (filter (Not \<circ> fst) xs))), rn),
              (map_of (rev (map snd (filter fst xs))), ln)] w"
  unfolding exporting.ready_answers by (simp add: exporting_maps [OF assms])

end
