(* ===== verification/ProbeConc.thy ===== *)
theory ProbeConc
  imports Channels Probe
begin

text \<open>
  The health checks of \<open>instrument/probe/health.go\<close> that run goroutines: \<open>Async\<close>
  (\<open>AsyncWithContext\<close>), which keeps the last result of a check in a channel, and
  \<open>Timeout\<close>, which bounds the time a check takes. Both are step relations over the
  channels of \<open>Channels\<close>; a goroutine has one step for each operation another goroutine
  can see.
\<close>

section \<open>Async\<close>

text \<open>
  The updating goroutine runs the check, takes the old result from the channel, puts the
  new one, and waits for the ticker or the context. A reader (a call of the check that
  \<open>AsyncWithContext\<close> returns) takes the result and puts it back. \<open>published\<close> and
  \<open>returned\<close> record the history: the results put by updates, after \<open>ErrNoData\<close>, and what
  the finished calls of each reader returned, each with the number of results published by
  then.
\<close>

datatype updater = UCheck | URecv "string option" | USend "string option" | USelect | UReturned

datatype reader = RRecv | RSend "string option" | RReturned "string option"

record async =
  result :: "string option channel"
  interval :: int
  ctx_done :: bool
  upd :: updater
  readers :: "reader list"
  published :: "string option list"

text \<open>
  \<open>AsyncWithContext\<close> up to the start of the goroutine; the first send is into the empty
  channel of capacity one. \<open>Async\<close> is the case of a context that is never done.
\<close>

definition AsyncWithContext :: "int \<Rightarrow> async attempt" where
  "AsyncWithContext d =
     (case chan_send (Some ErrNoData) (make_chan 1) of
        Blocks \<Rightarrow> Blocks
      | Panics \<Rightarrow> Panics
      | Proceeds ch \<Rightarrow> Proceeds \<lparr>result = ch, interval = d, ctx_done = False, upd = UCheck,
          readers = [], published = [Some ErrNoData]\<rparr>)"

definition Async :: "int \<Rightarrow> async attempt" where
  "Async d = AsyncWithContext d"

text \<open>
  What a goroutine meets: the check returned this error, the ticker fired, the context is
  done, or (for the channel operations) nothing is asked.
\<close>

datatype wake = Checked "string option" | Ticked | Cancelled | Proceed

text \<open>
  \<open>time.Tick\<close> of an interval that is not positive is a nil channel, which never
  delivers.
\<close>

fun updater_step :: "wake \<Rightarrow> async \<Rightarrow> async attempt" where
  "updater_step ev s =
     (case (upd s, ev) of
        (UCheck, Checked err) \<Rightarrow> Proceeds (s\<lparr>upd := URecv err\<rparr>)
      | (URecv err, Proceed) \<Rightarrow>
          (case chan_recv (result s) of
             Proceeds (_, ch) \<Rightarrow> Proceeds (s\<lparr>result := ch, upd := USend err\<rparr>)
           | Blocks \<Rightarrow> Blocks
           | Panics \<Rightarrow> Panics)
      | (USend err, Proceed) \<Rightarrow>
          (case chan_send err (result s) of
             Proceeds ch \<Rightarrow> Proceeds (s\<lparr>result := ch, upd := USelect, published := published s @ [err]\<rparr>)
           | Blocks \<Rightarrow> Blocks
           | Panics \<Rightarrow> Panics)
      | (USelect, Ticked) \<Rightarrow> (if 0 < interval s then Proceeds (s\<lparr>upd := UCheck\<rparr>) else Blocks)
      | (USelect, Cancelled) \<Rightarrow> (if ctx_done s then Proceeds (s\<lparr>upd := UReturned\<rparr>) else Blocks)
      | _ \<Rightarrow> Blocks)"

fun reader_step :: "nat \<Rightarrow> async \<Rightarrow> async attempt" where
  "reader_step i s =
     (case readers s ! i of
        RRecv \<Rightarrow>
          (case chan_recv (result s) of
             Proceeds (Some err, ch) \<Rightarrow> Proceeds (s\<lparr>result := ch, readers := (readers s)[i := RSend err]\<rparr>)
           | Proceeds (None, ch) \<Rightarrow> Proceeds (s\<lparr>result := ch, readers := (readers s)[i := RSend None]\<rparr>)
           | Blocks \<Rightarrow> Blocks
           | Panics \<Rightarrow> Panics)
      | RSend err \<Rightarrow>
          (case chan_send err (result s) of
             Proceeds ch \<Rightarrow> Proceeds (s\<lparr>result := ch, readers := (readers s)[i := RReturned err]\<rparr>)
           | Blocks \<Rightarrow> Blocks
           | Panics \<Rightarrow> Panics)
      | RReturned _ \<Rightarrow> Blocks)"

declare updater_step.simps [simp del] reader_step.simps [simp del]

text \<open>
  Besides the goroutines' steps, the returned check may be called at any time and the
  context cancelled.
\<close>

inductive async_step :: "async \<Rightarrow> async \<Rightarrow> bool" where
  Update: "updater_step ev s = Proceeds s' \<Longrightarrow> async_step s s'"
| Read: "i < length (readers s) \<Longrightarrow> reader_step i s = Proceeds s' \<Longrightarrow> async_step s s'"
| Call: "async_step s (s\<lparr>readers := readers s @ [RRecv]\<rparr>)"
| Cancel: "async_step s (s\<lparr>ctx_done := True\<rparr>)"

text \<open>
  The single token: the last published result is in the channel, or one goroutine has it.
\<close>

definition holding :: "reader \<Rightarrow> bool" where
  "holding r \<longleftrightarrow> (\<exists>e. r = RSend e)"

definition updating :: "updater \<Rightarrow> bool" where
  "updating u \<longleftrightarrow> (\<exists>e. u = USend e)"

definition held :: "reader list \<Rightarrow> nat" where
  "held rs = length (filter holding rs)"

definition tokens :: "async \<Rightarrow> nat" where
  "tokens s = length (ch_buf (result s)) + (if updating (upd s) then 1 else 0)
     + held (readers s)"

definition async_inv :: "async \<Rightarrow> bool" where
  "async_inv s \<longleftrightarrow> ch_cap (result s) = 1 \<and> \<not> ch_closed (result s) \<and> tokens s = 1
   \<and> published s \<noteq> []
   \<and> (\<forall>e \<in> set (ch_buf (result s)). e = last (published s))
   \<and> (\<forall>e. RSend e \<in> set (readers s) \<longrightarrow> e = last (published s))
   \<and> (\<forall>e. RReturned e \<in> set (readers s) \<longrightarrow> e \<in> set (published s))"

lemma held_update:
  "i < length rs \<Longrightarrow> held (rs[i := r]) + (if holding (rs ! i) then 1 else 0)
     = held rs + (if holding r then 1 else 0)"
proof (induction rs arbitrary: i)
  case (Cons y rs)
  then show ?case by (cases i) (auto simp: held_def)
qed simp

lemma held_simps [simp]: "held [] = 0" "held (rs @ [RRecv]) = held rs"
  by (simp_all add: held_def holding_def)

lemma held_zero: "held rs = 0 \<longleftrightarrow> (\<forall>e. RSend e \<notin> set rs)"
  by (auto simp: held_def holding_def filter_empty_conv)

lemma holding_simps [simp]:
  "\<not> holding RRecv" "holding (RSend e)" "\<not> holding (RReturned e)"
  by (simp_all add: holding_def)

lemma updater_cases:
  assumes "updater_step ev s = Proceeds s'"
  obtains
    (check) e where "upd s = UCheck" "s' = s\<lparr>upd := URecv e\<rparr>"
  | (recv) e x ch where "upd s = URecv e" "chan_recv (result s) = Proceeds (x, ch)"
      "s' = s\<lparr>result := ch, upd := USend e\<rparr>"
  | (send) e ch where "upd s = USend e" "chan_send e (result s) = Proceeds ch"
      "s' = s\<lparr>result := ch, upd := USelect, published := published s @ [e]\<rparr>"
  | (tick) "upd s = USelect" "0 < interval s" "s' = s\<lparr>upd := UCheck\<rparr>"
  | (cancel) "upd s = USelect" "ctx_done s" "s' = s\<lparr>upd := UReturned\<rparr>"
  using assms
  by (auto simp: updater_step.simps split: updater.splits wake.splits attempt.splits prod.splits if_splits)

lemma reader_cases:
  assumes "reader_step i s = Proceeds s'"
  obtains
    (recv) e ch where "readers s ! i = RRecv" "chan_recv (result s) = Proceeds (Some e, ch)"
      "s' = s\<lparr>result := ch, readers := (readers s)[i := RSend e]\<rparr>"
  | (closed) ch where "readers s ! i = RRecv" "chan_recv (result s) = Proceeds (None, ch)"
      "s' = s\<lparr>result := ch, readers := (readers s)[i := RSend None]\<rparr>"
  | (send) e ch where "readers s ! i = RSend e" "chan_send e (result s) = Proceeds ch"
      "s' = s\<lparr>result := ch, readers := (readers s)[i := RReturned e]\<rparr>"
  using assms
  by (auto simp: reader_step.simps split: reader.splits attempt.splits prod.splits option.splits)

lemma async_inv_init: "AsyncWithContext d = Proceeds s \<Longrightarrow> async_inv s"
  by (auto simp: AsyncWithContext_def chan_send_def async_inv_def tokens_def updating_def)

lemma tokens_free: "async_inv s \<Longrightarrow> ch_buf (result s) = [x] \<Longrightarrow>
    \<not> updating (upd s) \<and> held (readers s) = 0"
  by (auto simp: async_inv_def tokens_def split: if_splits)

lemma tokens_held:
  assumes "async_inv s" and "updating (upd s) \<or> RSend e \<in> set (readers s)"
  shows "ch_buf (result s) = []"
proof -
  have "updating (upd s) \<or> 0 < held (readers s)"
    using assms(2) held_zero [of "readers s"] by (metis gr0I)
  with assms(1) show ?thesis by (cases "ch_buf (result s)") (auto simp: async_inv_def tokens_def)
qed

lemma updating_alone: "async_inv s \<Longrightarrow> updating (upd s) \<Longrightarrow> held (readers s) = 0"
  by (auto simp: async_inv_def tokens_def)

lemma buf_single: "async_inv s \<Longrightarrow> ch_buf (result s) = x # xs \<Longrightarrow> xs = []"
  by (auto simp: async_inv_def tokens_def)

lemma updater_step_inv:
  assumes "updater_step ev s = Proceeds s'" and inv: "async_inv s"
  shows "async_inv s'"
  using assms(1)
proof (cases rule: updater_cases)
  case (recv e x ch)
  then obtain y ys where "ch_buf (result s) = y # ys" "ch = (result s)\<lparr>ch_buf := ys\<rparr>"
    using inv by (cases x) (auto simp: chan_eqs async_inv_def)
  with buf_single [OF inv this(1)] inv recv show ?thesis
    by (auto simp: async_inv_def tokens_def updating_def)
next
  case (send e ch)
  then have "updating (upd s)" by (simp add: updating_def)
  with tokens_held [OF inv] updating_alone [OF inv] inv send show ?thesis
    by (auto simp: async_inv_def tokens_def updating_def chan_eqs held_zero)
qed (use inv in \<open>auto simp: async_inv_def tokens_def updating_def\<close>)

lemma reader_step_inv:
  assumes "reader_step i s = Proceeds s'" and inv: "async_inv s" and i: "i < length (readers s)"
  shows "async_inv s'"
  using assms(1)
proof (cases rule: reader_cases)
  case (recv e ch)
  then have b: "ch_buf (result s) = [e]" "ch = (result s)\<lparr>ch_buf := []\<rparr>"
    using buf_single [OF inv] by (auto simp: chan_eqs)
  with tokens_free [OF inv b(1)] held_update [OF i, of "RSend e"] inv recv show ?thesis
    by (auto simp: async_inv_def tokens_def held_zero dest!: set_update_subset_insert [THEN subsetD])
next
  case (closed ch)
  then show ?thesis using inv by (simp add: chan_eqs async_inv_def)
next
  case (send e ch)
  then have "RSend e \<in> set (readers s)" using i by (metis nth_mem)
  with tokens_held [OF inv] have b: "ch_buf (result s) = []" by blast
  have "held ((readers s)[i := RReturned e]) = 0 \<and> \<not> updating (upd s)"
    using held_update [OF i, of "RReturned e"] \<open>RSend e \<in> set (readers s)\<close> held_zero [of "readers s"] inv send b
    by (auto simp: async_inv_def tokens_def split: if_splits)
  with held_zero [of "(readers s)[i := RReturned e]"] \<open>RSend e \<in> set (readers s)\<close> inv send b show ?thesis
    by (auto simp: async_inv_def tokens_def chan_eqs dest!: set_update_subset_insert [THEN subsetD])
qed

lemma async_step_inv: "async_step s s' \<Longrightarrow> async_inv s \<Longrightarrow> async_inv s'"
proof (induction rule: async_step.induct)
  case (Update ev s s')
  then show ?case by (blast intro: updater_step_inv)
next
  case (Read i s s')
  then show ?case by (blast intro: reader_step_inv)
qed (auto simp: async_inv_def tokens_def holding_def)

interpretation async: transition_system "\<lambda>s. AsyncWithContext d = Proceeds s" async_step async_inv for d
  by unfold_locales (blast intro: async_inv_init async_step_inv)+

lemma async_reachable:
  "AsyncWithContext d = Proceeds s0 \<Longrightarrow> async_step\<^sup>*\<^sup>* s0 s \<Longrightarrow> async_inv s"
  by (rule async.reach_inv [of d]) (auto simp: reach_def)

text \<open>
  C16. The check that \<open>Async\<close> returns. However its calls interleave with each other, with
  the updates and with the cancellation of the context: a goroutine that is about to put a
  result back into the channel never blocks, so no call can be held up by one; a call about
  to return returns the result published last at that moment, which is \<open>ErrNoData\<close> before
  the first update; and no goroutine panics.
\<close>

theorem async_returns_latest:
  assumes "AsyncWithContext d = Proceeds s0" and "async_step\<^sup>*\<^sup>* s0 s"
  shows "(\<forall>e. upd s = USend e \<longrightarrow> (\<exists>s'. updater_step Proceed s = Proceeds s' \<and> last (published s') = e))
    \<and> (\<forall>i < length (readers s). \<forall>e. readers s ! i = RSend e \<longrightarrow>
        (\<exists>s'. reader_step i s = Proceeds s' \<and> readers s' ! i = RReturned (last (published s))))
    \<and> (\<forall>ev. updater_step ev s \<noteq> Panics) \<and> (\<forall>i. reader_step i s \<noteq> Panics)"
proof -
  have inv: "async_inv s" by (rule async_reachable [OF assms])
  have put: "\<exists>ch. chan_send e (result s) = Proceeds ch" if "ch_buf (result s) = []" for e
    using inv that by (simp add: async_inv_def chan_send_def)
  have opened: "chan_send e (result s) \<noteq> Panics" for e
    using inv by (simp add: async_inv_def chan_eqs)
  have "\<exists>s'. updater_step Proceed s = Proceeds s' \<and> last (published s') = e" if u: "upd s = USend e" for e
  proof -
    have "ch_buf (result s) = []" using tokens_held [OF inv] u by (simp add: updating_def)
    from put [OF this] obtain ch where "chan_send e (result s) = Proceeds ch" by blast
    with u show ?thesis by (simp add: updater_step.simps)
  qed
  moreover have "\<exists>s'. reader_step i s = Proceeds s' \<and> readers s' ! i = RReturned (last (published s))"
    if i: "i < length (readers s)" and r: "readers s ! i = RSend e" for i e
  proof -
    have m: "RSend e \<in> set (readers s)" using i r by (metis nth_mem)
    then have "ch_buf (result s) = []" using tokens_held [OF inv] by blast
    from put [OF this] obtain ch where "chan_send e (result s) = Proceeds ch" by blast
    moreover have "e = last (published s)" using inv m by (simp add: async_inv_def)
    ultimately show ?thesis using i r by (simp add: reader_step.simps)
  qed
  moreover have "updater_step ev s \<noteq> Panics" for ev
    using opened by (auto simp: updater_step.simps chan_eqs split: updater.split wake.split attempt.split)
  moreover have "reader_step i s \<noteq> Panics" for i
    using opened by (auto simp: reader_step.simps chan_eqs split: reader.split attempt.split option.split)
  ultimately show ?thesis by blast
qed

theorem async_returns_latest_witness:
  "\<exists>s0 s. AsyncWithContext 5 = Proceeds s0 \<and> async_step\<^sup>*\<^sup>* s0 s \<and> upd s = URecv None
    \<and> readers s ! 0 = RSend (Some ErrNoData)
    \<and> (\<exists>s'. reader_step 0 s = Proceeds s' \<and> readers s' ! 0 = RReturned (Some ErrNoData))"
proof -
  let ?ch = "(make_chan 1 :: string option channel)\<lparr>ch_buf := [Some ErrNoData]\<rparr>"
  let ?s0 = "\<lparr>result = ?ch, interval = 5, ctx_done = False, upd = UCheck, readers = [],
    published = [Some ErrNoData]\<rparr>"
  let ?s1 = "?s0\<lparr>upd := URecv None\<rparr>"
  let ?s2 = "?s1\<lparr>readers := readers ?s1 @ [RRecv]\<rparr>"
  let ?s3 = "?s2\<lparr>result := make_chan 1, readers := [RSend (Some ErrNoData)]\<rparr>"
  have 0: "AsyncWithContext 5 = Proceeds ?s0"
    by (simp add: AsyncWithContext_def chan_send_def)
  have "updater_step (Checked None) ?s0 = Proceeds ?s1" by (simp add: updater_step.simps)
  then have a: "async_step ?s0 ?s1" by (rule Update)
  have b: "async_step ?s1 ?s2" by (rule Call)
  have "reader_step 0 ?s2 = Proceeds ?s3"
    by (simp add: reader_step.simps chan_recv_def make_chan_def)
  then have c: "async_step ?s2 ?s3" by (intro Read [of 0]) simp_all
  have steps: "async_step\<^sup>*\<^sup>* ?s0 ?s3"
    by (rule converse_rtranclp_into_rtranclp [of async_step, OF a
        converse_rtranclp_into_rtranclp [of async_step, OF b r_into_rtranclp [of async_step, OF c]]])
  have "upd ?s3 = URecv None \<and> readers ?s3 ! 0 = RSend (Some ErrNoData)" by simp
  moreover have "\<exists>s'. reader_step 0 ?s3 = Proceeds s' \<and> readers s' ! 0 = RReturned (Some ErrNoData)"
    using async_returns_latest [OF 0 steps] by simp
  ultimately show ?thesis using 0 steps by blast
qed

text \<open>A call that has the result puts it back and returns it.\<close>

lemma reader_puts:
  assumes "async_inv s" and "i < length (readers s)" and "readers s ! i = RSend e"
  shows "\<exists>s'. async_step s s' \<and> readers s' = (readers s)[i := RReturned e]
    \<and> ch_buf (result s') = [e] \<and> upd s' = upd s \<and> published s' = published s
    \<and> e = last (published s)"
proof -
  have m: "RSend e \<in> set (readers s)" using assms(2,3) by (metis nth_mem)
  then have "ch_buf (result s) = []" using tokens_held [OF assms(1)] by blast
  with assms(1) have "chan_send e (result s) = Proceeds ((result s)\<lparr>ch_buf := [e]\<rparr>)"
    by (simp add: async_inv_def chan_send_def)
  with assms(3) have "reader_step i s = Proceeds (s\<lparr>result := (result s)\<lparr>ch_buf := [e]\<rparr>,
      readers := (readers s)[i := RReturned e]\<rparr>)"
    by (simp add: reader_step.simps)
  from Read [OF assms(2) this] m assms(1) show ?thesis by (force simp: async_inv_def)
qed

text \<open>If the result is not in the channel, the goroutine that has it can put it there.\<close>

lemma result_returns:
  assumes inv: "async_inv s" and "i < length (readers s)" and "readers s ! i = RRecv"
    and "ch_buf (result s) = []"
  shows "\<exists>s'. async_step s s' \<and> i < length (readers s') \<and> readers s' ! i = RRecv \<and> ch_buf (result s') \<noteq> []
    \<and> (upd s' = upd s \<or> updating (upd s) \<and> upd s' = USelect)"
proof (cases "updating (upd s)")
  case True
  then obtain e where u: "upd s = USend e" by (auto simp: updating_def)
  from inv assms(4) have "chan_send e (result s) = Proceeds ((result s)\<lparr>ch_buf := [e]\<rparr>)"
    by (simp add: async_inv_def chan_send_def)
  with u have "updater_step Proceed s = Proceeds (s\<lparr>result := (result s)\<lparr>ch_buf := [e]\<rparr>,
      upd := USelect, published := published s @ [e]\<rparr>)"
    by (simp add: updater_step.simps)
  from Update [OF this] assms True show ?thesis by force
next
  case False
  with inv assms(4) have "held (readers s) \<noteq> 0" by (simp add: async_inv_def tokens_def)
  then obtain e j where j: "j < length (readers s)" "readers s ! j = RSend e"
    unfolding held_zero by (auto simp: in_set_conv_nth)
  from reader_puts [OF inv j] obtain s' where
    "async_step s s'" "readers s' = (readers s)[j := RReturned e]" "ch_buf (result s') = [e]" "upd s' = upd s"
    by blast
  with j assms(2,3) show ?thesis by (intro exI [of _ s']) (auto simp: nth_list_update)
qed

text \<open>With the result in the channel a call takes it.\<close>

lemma reader_takes:
  assumes "async_inv s" and "i < length (readers s)" and "readers s ! i = RRecv"
    and "ch_buf (result s) \<noteq> []"
  shows "\<exists>s' e. async_step s s' \<and> i < length (readers s') \<and> readers s' ! i = RSend e \<and> upd s' = upd s"
proof -
  obtain e xs where "ch_buf (result s) = e # xs" using assms(4) by (cases "ch_buf (result s)") auto
  with assms(3) have "reader_step i s = Proceeds (s\<lparr>result := (result s)\<lparr>ch_buf := xs\<rparr>,
      readers := (readers s)[i := RSend e]\<rparr>)"
    by (simp add: reader_step.simps chan_recv_def)
  from Read [OF assms(2) this] assms(2) show ?thesis by force
qed

lemma call_from_send:
  assumes "async_inv s" and "i < length (readers s)" and "readers s ! i = RSend e"
  shows "\<exists>s'. async_step s s' \<and> readers s' ! i = RReturned (last (published s')) \<and> upd s' = upd s"
  using reader_puts [OF assms] assms(2) by force

text \<open>
  A call of the returned check comes back without waiting for a running check: from
  every reachable state in which a call is pending there is a continuation of at most three
  steps, in none of which the check is run, after which the call has returned the result
  published last.
\<close>

theorem async_call_returns:
  assumes "AsyncWithContext d = Proceeds s0" and "async_step\<^sup>*\<^sup>* s0 s"
    and "i < length (readers s)" and "\<forall>e. readers s ! i \<noteq> RReturned e"
  shows "\<exists>n s'. n \<le> 3 \<and> (async_step ^^ n) s s' \<and> readers s' ! i = RReturned (last (published s'))
    \<and> (upd s' = upd s \<or> updating (upd s) \<and> upd s' = USelect)"
proof -
  have inv: "async_inv s" by (rule async_reachable [OF assms(1,2)])
  have take: "\<exists>n s'. n \<le> 2 \<and> (async_step ^^ n) t s' \<and> readers s' ! i = RReturned (last (published s'))
      \<and> upd s' = upd t"
    if t: "async_inv t" "i < length (readers t)" "readers t ! i = RRecv" "ch_buf (result t) \<noteq> []" for t
  proof -
    from reader_takes [OF t] obtain t' e where 1: "async_step t t'" "i < length (readers t')"
        "readers t' ! i = RSend e" "upd t' = upd t" by blast
    from call_from_send [OF async_step_inv [OF 1(1) t(1)] 1(2,3)] obtain s' where
      2: "async_step t' s'" "readers s' ! i = RReturned (last (published s'))" "upd s' = upd t'" by blast
    from 1(1) 2(1) have "(async_step ^^ 2) t s'" by (auto simp: numeral_2_eq_2)
    with 1 2 show ?thesis by fastforce
  qed
  show ?thesis
  proof (cases "readers s ! i")
    case (RSend e)
    from call_from_send [OF inv assms(3) this] obtain s' where
      "(async_step ^^ 1) s s'" "readers s' ! i = RReturned (last (published s'))" "upd s' = upd s" by auto
    then show ?thesis by (intro exI [of _ 1] exI [of _ s']) simp
  next
    case RRecv
    show ?thesis
    proof (cases "ch_buf (result s) = []")
      case False
      from take [OF inv assms(3) RRecv False] obtain n s' where
        "n \<le> 2" "(async_step ^^ n) s s'" "readers s' ! i = RReturned (last (published s'))" "upd s' = upd s"
        by blast
      then show ?thesis by (intro exI [of _ n] exI [of _ s']) simp
    next
      case True
      from result_returns [OF inv assms(3) RRecv True] obtain t where t: "async_step s t"
          "i < length (readers t)" "readers t ! i = RRecv" "ch_buf (result t) \<noteq> []"
          "upd t = upd s \<or> updating (upd s) \<and> upd t = USelect" by blast
      from take [OF async_step_inv [OF t(1) inv] t(2,3,4)] obtain n s' where
        "n \<le> 2" "(async_step ^^ n) t s'" "readers s' ! i = RReturned (last (published s'))" "upd s' = upd t"
        by blast
      moreover from this t(1) have "(async_step ^^ Suc n) s s'" by (blast intro: relpowp_Suc_I2)
      ultimately show ?thesis
        using t(5) by (intro exI [of _ "Suc n"] exI [of _ s']) (auto simp del: relpowp.simps)
    qed
  qed (use assms(4) in simp)
qed

theorem async_call_returns_witness:
  "\<exists>s0 s s' n. AsyncWithContext 5 = Proceeds s0 \<and> async_step\<^sup>*\<^sup>* s0 s \<and> n \<le> 3
    \<and> (async_step ^^ n) s s' \<and> readers s' ! 0 = RReturned (last (published s'))"
proof -
  obtain s0 where 0: "AsyncWithContext 5 = Proceeds s0" "readers s0 = []"
    by (simp add: AsyncWithContext_def chan_send_def)
  let ?s = "s0\<lparr>readers := readers s0 @ [RRecv]\<rparr>"
  have r: "async_step\<^sup>*\<^sup>* s0 ?s" by (rule r_into_rtranclp, rule Call)
  have "0 < length (readers ?s)" "\<forall>e. readers ?s ! 0 \<noteq> RReturned e" using 0(2) by simp_all
  from async_call_returns [OF 0(1) r this] 0(1) r show ?thesis by blast
qed

section \<open>Timeout\<close>

text \<open>The error of a check that took too long; how a duration prints is a parameter.\<close>

datatype timeoutError = timeoutError int

fun timeoutError_Error :: "(int \<Rightarrow> string) \<Rightarrow> timeoutError \<Rightarrow> string" where
  "timeoutError_Error duration_String (timeoutError d) = ''timed out after '' @ duration_String d"

definition timeoutError_Timeout :: "timeoutError \<Rightarrow> bool" where
  "timeoutError_Timeout e = True"

definition timeoutError_Temporary :: "timeoutError \<Rightarrow> bool" where
  "timeoutError_Temporary e = True"

text \<open>
  One call of the check \<open>Timeout\<close> returns: its channel of capacity one, the goroutine that
  runs the check, and the caller, who selects between the channel and the timer.
\<close>

datatype runner = RunCheck | RunSend "string option" | RunReturned

datatype caller = CSelect | CReturned "(timeoutError + string) option"

record timed =
  t_chan :: "string option channel"
  t_timeout :: int
  t_fired :: bool
  t_run :: runner
  t_call :: caller

definition Timeout :: "int \<Rightarrow> timed" where
  "Timeout timeout = \<lparr>t_chan = make_chan 1, t_timeout = timeout, t_fired = False,
     t_run = RunCheck, t_call = CSelect\<rparr>"

text \<open>The goroutine's next operation; \<open>err\<close> is what the check returns if it runs now.\<close>

definition run_step :: "string option \<Rightarrow> timed \<Rightarrow> timed attempt" where
  "run_step err s =
     (case t_run s of
        RunCheck \<Rightarrow> Proceeds (s\<lparr>t_run := RunSend err\<rparr>)
      | RunSend e \<Rightarrow>
          (case chan_send e (t_chan s) of
             Proceeds ch \<Rightarrow> Proceeds (s\<lparr>t_chan := ch, t_run := RunReturned\<rparr>)
           | Blocks \<Rightarrow> Blocks
           | Panics \<Rightarrow> Panics)
      | RunReturned \<Rightarrow> Blocks)"

text \<open>The two cases of the caller's \<open>select\<close>; if both can proceed, either may.\<close>

definition select_result :: "timed \<Rightarrow> timed attempt" where
  "select_result s =
     (case t_call s of
        CReturned _ \<Rightarrow> Blocks
      | CSelect \<Rightarrow>
          (case chan_recv (t_chan s) of
             Proceeds (Some None, ch) \<Rightarrow> Proceeds (s\<lparr>t_chan := ch, t_call := CReturned None\<rparr>)
           | Proceeds (Some (Some e), ch) \<Rightarrow>
               Proceeds (s\<lparr>t_chan := ch, t_call := CReturned (Some (Inr e))\<rparr>)
           | Proceeds (None, ch) \<Rightarrow> Proceeds (s\<lparr>t_chan := ch, t_call := CReturned None\<rparr>)
           | Blocks \<Rightarrow> Blocks
           | Panics \<Rightarrow> Panics))"

definition select_timer :: "timed \<Rightarrow> timed attempt" where
  "select_timer s =
     (case t_call s of
        CReturned _ \<Rightarrow> Blocks
      | CSelect \<Rightarrow>
          if t_fired s then Proceeds (s\<lparr>t_call := CReturned (Some (Inl (timeoutError (t_timeout s))))\<rparr>)
          else Blocks)"

inductive timed_step :: "string option \<Rightarrow> timed \<Rightarrow> timed \<Rightarrow> bool" for err where
  Run: "run_step err s = Proceeds s' \<Longrightarrow> timed_step err s s'"
| Result: "select_result s = Proceeds s' \<Longrightarrow> timed_step err s s'"
| Timer: "select_timer s = Proceeds s' \<Longrightarrow> timed_step err s s'"
| Fire: "\<not> t_fired s \<Longrightarrow> timed_step err s (s\<lparr>t_fired := True\<rparr>)"

text \<open>
  A run of one call, as far as its outcome depends on it: where the result is.
\<close>

definition timed_inv :: "int \<Rightarrow> string option \<Rightarrow> timed \<Rightarrow> bool" where
  "timed_inv d err s \<longleftrightarrow> ch_cap (t_chan s) = 1 \<and> \<not> ch_closed (t_chan s) \<and> t_timeout s = d
   \<and> (t_run s \<noteq> RunReturned \<longrightarrow> ch_buf (t_chan s) = [])
   \<and> (\<forall>e. t_run s = RunSend e \<longrightarrow> e = err)
   \<and> (t_run s = RunReturned \<longrightarrow>
        ch_buf (t_chan s) = [err] \<or> ch_buf (t_chan s) = [] \<and> t_call s = CReturned (map_option Inr err))
   \<and> (\<forall>r. t_call s = CReturned r \<longrightarrow>
        t_run s = RunReturned \<and> r = map_option Inr err
      \<or> t_fired s \<and> r = Some (Inl (timeoutError d)))"

lemma timed_inv_step:
  assumes "timed_step err s s'" and "timed_inv d err s"
  shows "timed_inv d err s'"
  using assms
proof (induction rule: timed_step.induct)
  case (Run s s')
  then show ?case
    by (auto simp: run_step_def timed_inv_def chan_eqs split: runner.splits attempt.splits)
next
  case (Result s s')
  then show ?case
    by (cases err) (auto simp: select_result_def timed_inv_def chan_eqs
        split: caller.splits attempt.splits option.splits)
next
  case (Timer s s')
  then show ?case
    by (auto simp: select_timer_def timed_inv_def split: caller.splits if_splits)
next
  case (Fire s)
  then show ?case by (auto simp: timed_inv_def)
qed

interpretation timed: transition_system "\<lambda>s. s = Timeout d" "timed_step err" "timed_inv d err" for d err
proof (unfold_locales, goal_cases)
  case (1 s)
  then show ?case by (simp add: Timeout_def timed_inv_def)
qed (rule timed_inv_step)

lemma timed_reachable: "(timed_step err)\<^sup>*\<^sup>* (Timeout d) s \<Longrightarrow> timed_inv d err s"
  by (rule timed.reach_inv) (auto simp: reach_def)

text \<open>The work left in a call: each goroutine's operations and the timer.\<close>

definition timed_work :: "timed \<Rightarrow> nat" where
  "timed_work s = (case t_run s of RunCheck \<Rightarrow> 2 | RunSend _ \<Rightarrow> 1 | RunReturned \<Rightarrow> 0)
     + (case t_call s of CSelect \<Rightarrow> 1 | CReturned _ \<Rightarrow> 0) + (if t_fired s then 0 else 1)"

lemma timed_work_decreases: "timed_step err s s' \<Longrightarrow> timed_work s' < timed_work s"
  by (induction rule: timed_step.induct)
    (auto simp: timed_work_def run_step_def select_result_def select_timer_def
      split: runner.splits caller.splits attempt.splits option.splits if_splits)

text \<open>
  C22. A call of a check with a timeout takes at most four steps. It returns the check's own
  result, or the timeout error and only once the timer has fired; once the timer has fired
  it can return, whatever the check does; and the goroutine that runs the check never
  blocks on the channel, also after the caller has gone, so that a slow check ends with its
  goroutine.
\<close>

theorem timeout_bounds_check:
  assumes "(timed_step err)\<^sup>*\<^sup>* (Timeout d) s"
  shows "(\<forall>s'. timed_step err s s' \<longrightarrow> timed_work s' < timed_work s) \<and> timed_work (Timeout d) = 4
    \<and> (\<forall>r. t_call s = CReturned r \<longrightarrow>
        r = map_option Inr err \<or> t_fired s \<and> r = Some (Inl (timeoutError d)))
    \<and> (t_call s = CSelect \<and> t_fired s \<longrightarrow>
        select_timer s = Proceeds (s\<lparr>t_call := CReturned (Some (Inl (timeoutError d)))\<rparr>))
    \<and> (\<forall>e. t_run s = RunSend e \<longrightarrow> (\<exists>s'. run_step err s = Proceeds s' \<and> t_run s' = RunReturned))"
proof -
  have inv: "timed_inv d err s" by (rule timed_reachable [OF assms])
  have "\<exists>s'. run_step err s = Proceeds s' \<and> t_run s' = RunReturned" if r: "t_run s = RunSend e" for e
    using inv r by (auto simp: timed_inv_def run_step_def chan_send_def)
  moreover have "t_call s = CSelect \<and> t_fired s \<Longrightarrow>
      select_timer s = Proceeds (s\<lparr>t_call := CReturned (Some (Inl (timeoutError d)))\<rparr>)"
    using inv by (simp add: select_timer_def timed_inv_def)
  moreover have "timed_work (Timeout d) = 4" by (simp add: timed_work_def Timeout_def)
  ultimately show ?thesis
    using inv by (auto simp: timed_inv_def dest: timed_work_decreases)
qed

theorem timeout_bounds_check_witness:
  "\<exists>s s'. (timed_step (Some ''down''))\<^sup>*\<^sup>* (Timeout 7) s \<and> t_run s = RunSend (Some ''down'')
    \<and> t_call s = CReturned (Some (Inl (timeoutError 7)))
    \<and> run_step (Some ''down'') s = Proceeds s' \<and> t_run s' = RunReturned"
proof -
  let ?e = "Some ''down''"
  let ?s1 = "(Timeout 7)\<lparr>t_fired := True\<rparr>"
  let ?s2 = "?s1\<lparr>t_call := CReturned (Some (Inl (timeoutError 7)))\<rparr>"
  let ?s3 = "?s2\<lparr>t_run := RunSend ?e\<rparr>"
  have a: "timed_step ?e (Timeout 7) ?s1" by (rule Fire) (simp add: Timeout_def)
  have b: "timed_step ?e ?s1 ?s2" by (rule Timer) (simp add: select_timer_def Timeout_def)
  have c: "timed_step ?e ?s2 ?s3" by (rule Run) (simp add: run_step_def Timeout_def)
  have steps: "(timed_step ?e)\<^sup>*\<^sup>* (Timeout 7) ?s3"
    by (rule converse_rtranclp_into_rtranclp [of "timed_step ?e", OF a
        converse_rtranclp_into_rtranclp [of "timed_step ?e", OF b r_into_rtranclp [of "timed_step ?e", OF c]]])
  moreover have "\<exists>s'. run_step ?e ?s3 = Proceeds s' \<and> t_run s' = RunReturned"
    using timeout_bounds_check [OF steps] by simp
  ultimately show ?thesis by (force intro: exI [of _ ?s3])
qed

end
