(* ===== verification/Wiring.thy ===== *)
theory Wiring
  imports ServerUtil Utilz
begin

text \<open>
  How the repository puts its libraries together: the two gRPC servers of
  \<open>rpc/server.go\<close> with their interceptor chains, the client of \<open>rpc/client.go\<close>, the
  logger of \<open>instrument/zapper/zapper.go\<close> and the tracer of
  \<open>instrument/tracer/tracing.go\<close>. The libraries' own functions are parameters.
\<close>

section \<open>Interceptor chains\<close>

text \<open>
  A call is answered or panics. An interceptor gets the context, the request and the
  handler inside it; in a chain the first interceptor is the outermost, as
  \<open>grpc_middleware\<close> documents.
\<close>

datatype 'v call = Panicked | Answered "'v outcome"

type_synonym ('q, 'v) unary_handler = "rpc_ctx \<Rightarrow> 'q \<Rightarrow> 'v call"

type_synonym ('q, 'v) unary_icpt = "rpc_ctx \<Rightarrow> 'q \<Rightarrow> ('q, 'v) unary_handler \<Rightarrow> 'v call"

fun ChainUnaryServer :: "('q, 'v) unary_icpt list \<Rightarrow> ('q, 'v) unary_icpt" where
  "ChainUnaryServer [] ctx req h = h ctx req"
| "ChainUnaryServer (i # is) ctx req h = i ctx req (\<lambda>ctx' req'. ChainUnaryServer is ctx' req' h)"

text \<open>The unary interceptor of \<open>NewServerInterceptors\<close> in a chain: its handler is not nil.\<close>

definition metadata_icpt :: "('q, 'v) unary_icpt" where
  "metadata_icpt ctx req h =
     (case unaryInterceptor ctx req (Some h) of
        Handled r \<Rightarrow> r
      | NilResult \<Rightarrow> Answered NilResult
      | StatusErr c msg \<Rightarrow> Answered (StatusErr c msg))"

text \<open>The interceptors of the libraries; the monitoring one belongs to the server's own.\<close>

record ('q, 'v, 'p) icpt_lib =
  ctxtags_icpt :: "('q, 'v) unary_icpt"
  zap_icpt :: "('q, 'v) unary_icpt"
  validator_icpt :: "('q, 'v) unary_icpt"
  prom_icpt :: "'p \<Rightarrow> ('q, 'v) unary_icpt"
  recovery_icpt :: "('q, 'v) unary_icpt"

record ('q, 'v, 'p, 'tls) grpc_server =
  gs_stats :: 'p
  gs_creds :: "'tls option"
  gs_unary :: "('q, 'v) unary_icpt"
  gs_health :: bool
  gs_prom_registered :: bool

text \<open>\<open>RegGrpcServerMetrics\<close> makes the interceptor of the zero options.\<close>

definition RegGrpcServerMetrics :: "('opts \<Rightarrow> 'p) \<Rightarrow> 'opts \<Rightarrow> bool \<Rightarrow> 'p" where
  "RegGrpcServerMetrics NewInterceptor zero_opts trackpeers = NewInterceptor zero_opts"

definition MakeGrpcTLSServer :: "('q, 'v, 'p) icpt_lib \<Rightarrow> 'p \<Rightarrow> 'tls \<Rightarrow> ('q, 'v, 'p, 'tls) grpc_server" where
  "MakeGrpcTLSServer lib icpt tls =
     \<lparr>gs_stats = icpt, gs_creds = Some tls,
      gs_unary = ChainUnaryServer [metadata_icpt, ctxtags_icpt lib, zap_icpt lib,
        validator_icpt lib, prom_icpt lib icpt, recovery_icpt lib],
      gs_health = False, gs_prom_registered = False\<rparr>"

text \<open>
  \<open>MakeGrpcServer\<close> also registers the interceptor with the default registry, whose error
  it drops (\<open>register\<close> gives the registry after it), and with the server, and adds the
  health service.
\<close>

definition MakeGrpcServer :: "('q, 'v, 'p) icpt_lib \<Rightarrow> ('p \<Rightarrow> 'reg \<Rightarrow> string option \<times> 'reg) \<Rightarrow> 'p \<Rightarrow> 'reg \<Rightarrow>
    ('q, 'v, 'p, 'tls) grpc_server \<times> 'reg" where
  "MakeGrpcServer lib register icpt reg =
     (\<lparr>gs_stats = icpt, gs_creds = None,
       gs_unary = ChainUnaryServer [metadata_icpt, ctxtags_icpt lib, zap_icpt lib,
         validator_icpt lib, prom_icpt lib icpt],
       gs_health = True, gs_prom_registered = True\<rparr>,
      snd (register icpt reg))"

text \<open>
  What the libraries document: tagging, logging and monitoring interceptors answer what the
  handler answers under a context with the same metadata; the validator passes the call on
  or answers it; the recovery interceptor turns a panic of the handler into an error.
\<close>

definition observes :: "('q, 'v) unary_icpt \<Rightarrow> bool" where
  "observes i \<longleftrightarrow> (\<forall>ctx req h. \<exists>ctx'. incoming_md ctx' = incoming_md ctx \<and> i ctx req h = h ctx' req)"

definition passes_or_answers :: "('q, 'v) unary_icpt \<Rightarrow> bool" where
  "passes_or_answers i \<longleftrightarrow>
     (\<forall>ctx req. (\<forall>h. i ctx req h = h ctx req) \<or> (\<exists>a. \<forall>h. i ctx req h = Answered a))"

definition recovers :: "('q, 'v) unary_icpt \<Rightarrow> bool" where
  "recovers i \<longleftrightarrow> (\<forall>ctx req h. (h ctx req \<noteq> Panicked \<longrightarrow> i ctx req h = h ctx req)
     \<and> (h ctx req = Panicked \<longrightarrow> (\<exists>c msg. i ctx req h = Answered (StatusErr c msg))))"

definition documented :: "('q, 'v, 'p) icpt_lib \<Rightarrow> bool" where
  "documented lib \<longleftrightarrow> observes (ctxtags_icpt lib) \<and> observes (zap_icpt lib)
     \<and> passes_or_answers (validator_icpt lib) \<and> (\<forall>p. observes (prom_icpt lib p))
     \<and> recovers (recovery_icpt lib)"

lemma metadata_icpt_eq:
  "metadata_icpt ctx req h =
     (if incoming_md ctx = None then Answered (StatusErr Unauthenticated ''missing context metadata'')
      else h ctx req)"
  by (auto simp: metadata_icpt_def unaryInterceptor_def split: option.split)

lemma observesD: "observes i \<Longrightarrow> (\<And>ctx'. h ctx' req \<noteq> Panicked) \<Longrightarrow> i ctx req h \<noteq> Panicked"
  unfolding observes_def by metis

lemma observes_const: "observes i \<Longrightarrow> (\<And>ctx'. h ctx' req = a) \<Longrightarrow> i ctx req h = a"
  unfolding observes_def by metis

lemma passesD: "passes_or_answers i \<Longrightarrow> (\<And>ctx'. h ctx' req \<noteq> Panicked) \<Longrightarrow> i ctx req h \<noteq> Panicked"
  unfolding passes_or_answers_def by (metis call.distinct(1))

lemma recoversD: "recovers i \<Longrightarrow> i ctx req h \<noteq> Panicked"
  unfolding recovers_def by (metis call.distinct(1))

text \<open>
  C33. The two servers. Both refuse a call without metadata before anything else sees it. A
  panic of a handler never leaves the chain of the TLS server; the plain server has no
  recovery, so there a call that the validator lets through panics if its handler does.
\<close>

theorem grpc_servers_panic:
  assumes "documented lib"
  shows "gs_unary (MakeGrpcTLSServer lib icpt tls) ctx req h \<noteq> Panicked
    \<and> (incoming_md ctx = None \<longrightarrow>
        gs_unary (MakeGrpcTLSServer lib icpt tls) ctx req h
          = Answered (StatusErr Unauthenticated ''missing context metadata'')
      \<and> gs_unary (fst (MakeGrpcServer lib register icpt reg)) ctx req h
          = Answered (StatusErr Unauthenticated ''missing context metadata''))
    \<and> (incoming_md ctx \<noteq> None \<and> (\<forall>ctx' h'. validator_icpt lib ctx' req h' = h' ctx' req)
        \<and> (\<forall>ctx'. h ctx' req = Panicked) \<longrightarrow>
        gs_unary (fst (MakeGrpcServer lib register icpt reg)) ctx req h = Panicked)"
proof -
  have lib: "observes (ctxtags_icpt lib)" "observes (zap_icpt lib)" "passes_or_answers (validator_icpt lib)"
    "observes (prom_icpt lib icpt)" "recovers (recovery_icpt lib)"
    using assms by (simp_all add: documented_def)
  have "gs_unary (MakeGrpcTLSServer lib icpt tls) ctx req h \<noteq> Panicked"
    by (simp add: MakeGrpcTLSServer_def metadata_icpt_eq)
      (intro impI observesD [OF lib(1)] observesD [OF lib(2)] passesD [OF lib(3)]
        observesD [OF lib(4)] recoversD [OF lib(5)])
  moreover have "gs_unary (fst (MakeGrpcServer lib register icpt reg)) ctx req h = Panicked"
    if "incoming_md ctx \<noteq> None" "\<And>ctx' h'. validator_icpt lib ctx' req h' = h' ctx' req"
      "\<And>ctx'. h ctx' req = Panicked"
    using that(1)
    by (simp add: MakeGrpcServer_def metadata_icpt_eq)
      (intro observes_const [OF lib(1)] observes_const [OF lib(2)] trans [OF that(2)]
        observes_const [OF lib(4)] that(3))
  ultimately show ?thesis
    by (auto simp: MakeGrpcTLSServer_def MakeGrpcServer_def metadata_icpt_eq)
qed

definition sample_lib :: "('q, 'v, unit) icpt_lib" where
  "sample_lib = \<lparr>ctxtags_icpt = (\<lambda>ctx req h. h ctx req), zap_icpt = (\<lambda>ctx req h. h ctx req),
     validator_icpt = (\<lambda>ctx req h. h ctx req), prom_icpt = (\<lambda>p ctx req h. h ctx req),
     recovery_icpt = (\<lambda>ctx req h. case h ctx req of
       Panicked \<Rightarrow> Answered (StatusErr Canceled ''recovered'') | Answered a \<Rightarrow> Answered a)\<rparr>"

lemma sample_lib_documented: "documented sample_lib"
  by (auto simp: documented_def observes_def passes_or_answers_def recovers_def sample_lib_def
      split: call.split)

theorem grpc_servers_panic_witness:
  "gs_unary (MakeGrpcTLSServer (sample_lib :: (unit, nat, unit) icpt_lib) () ()) \<lparr>incoming_md = Some (\<lambda>_. None), rpc_peer = None\<rparr> ()
     (\<lambda>_ _. Panicked) \<noteq> Panicked
   \<and> gs_unary (fst (MakeGrpcServer (sample_lib :: (unit, nat, unit) icpt_lib) (\<lambda>_ reg. (None, reg)) () ()))
       \<lparr>incoming_md = Some (\<lambda>_. None), rpc_peer = None\<rparr> () (\<lambda>_ _. Panicked) = Panicked"
proof -
  from grpc_servers_panic [OF sample_lib_documented, of "()" "()" "\<lparr>incoming_md = Some (\<lambda>_. None), rpc_peer = None\<rparr>" "()"
      "\<lambda>_ _. Panicked" "\<lambda>_ reg. (None, reg)" "()"]
  show ?thesis by (simp add: sample_lib_def)
qed

section \<open>The client\<close>

text \<open>The options the client dials with, in the order they are given.\<close>

datatype ('tr, 'p) client_icpt = OpenTracingClient 'tr | PromUnaryClient 'p | PromStreamClient 'p

datatype ('tr, 'p) dial_option =
    WithInsecure
  | WithStatsHandler 'p
  | WithDialer 'p
  | WithUnaryChain "('tr, 'p) client_icpt list"
  | WithStreamChain "('tr, 'p) client_icpt list"

definition MakeGrpcClient :: "(string \<Rightarrow> ('tr, 'p) dial_option list \<Rightarrow> string + 'conn) \<Rightarrow>
    string \<Rightarrow> 'tr \<Rightarrow> 'p \<Rightarrow> string + 'conn" where
  "MakeGrpcClient Dial port tracer interceptor =
     (case Dial ('':'' @ port)
         [WithInsecure, WithStatsHandler interceptor, WithDialer interceptor,
          WithUnaryChain [OpenTracingClient tracer, PromUnaryClient interceptor],
          WithStreamChain [PromStreamClient interceptor]] of
        Inl err \<Rightarrow> Inl err
      | Inr conn \<Rightarrow> Inr conn)"

section \<open>The logger\<close>

text \<open>
  What making a logger leaves behind: the global logger and the debug messages written.
\<close>

record 'l zap_world =
  zap_global :: "'l option"
  zap_debugs :: "('l \<times> string) list"

definition MakeZapper :: "(string + 'l) \<Rightarrow> bool \<Rightarrow> 'l zap_world \<Rightarrow> (string + 'l) \<times> 'l zap_world" where
  "MakeZapper NewDevelopment glob w =
     (case NewDevelopment of
        Inl err \<Rightarrow> (Inl err, w)
      | Inr logger \<Rightarrow>
          (Inr logger,
           if glob = True
           then w\<lparr>zap_global := Some logger,
                  zap_debugs := zap_debugs w @ [(logger, ''global zap logging enabled'')]\<rparr>
           else w\<lparr>zap_debugs := zap_debugs w @ [(logger, ''zap logging enabled'')]\<rparr>))"

text \<open>\<open>With\<close> is the logger's own operation of that name, on fields of a key and a value.\<close>

definition ZapMetaData :: "((string \<times> string) list \<Rightarrow> 'l \<Rightarrow> 'l) \<Rightarrow> rpc_ctx \<Rightarrow> 'l \<Rightarrow>
    (string \<times> string) list \<Rightarrow> 'l" where
  "ZapMetaData With ctx logger fs =
     (let l = With fs logger
      in case incoming_md ctx of
           None \<Rightarrow> l
         | Some md \<Rightarrow>
             (case md ''request_id'' of
                None \<Rightarrow> l
              | Some rid \<Rightarrow> if length rid \<ge> 1 then With [(''request_id'', rid ! 0)] l else l))"

text \<open>
  \<open>ZapErr\<close> does nothing on a nil error; otherwise it logs at fatal level, with the error as
  a field, which ends the program at once. The logger is a pointer, and \<open>Fatal\<close> reads the
  logger's core: on a nil one it panics.
\<close>

datatype zap_end = GoesOn | FatalExit string string | NilLogger

definition ZapErr :: "'l option \<Rightarrow> string \<Rightarrow> string option \<Rightarrow> zap_end" where
  "ZapErr logger msg err =
     (case err of
        None \<Rightarrow> GoesOn
      | Some e \<Rightarrow> (case logger of None \<Rightarrow> NilLogger | Some l \<Rightarrow> FatalExit msg e))"

text \<open>
  The request id of a call's metadata is logged: a value that the metadata carrier set
  under any capitalisation of \<open>request_id\<close> is the field added to the logger, unless the
  metadata had one before, which is then kept.
\<close>

theorem request_id_logged:
  assumes "ToLower key = ''request_id''" and "incoming_md ctx = Some m'"
    and "MD_Set key val (Some m) = Some (Some m')"
  shows "ZapMetaData With ctx logger fs =
    With [(''request_id'', hd (md_lookup m ''request_id'' @ [val]))] (With fs logger)"
proof -
  from assms(1,3) have "m' ''request_id'' = Some (md_lookup m ''request_id'' @ [val])"
    by (auto simp: MD_Set_def Let_def)
  with assms(2) show ?thesis by (simp add: ZapMetaData_def hd_conv_nth)
qed

theorem request_id_logged_witness:
  "ZapMetaData (\<lambda>fs l. l @ fs)
     \<lparr>incoming_md = Some [''request_id'' \<mapsto> [''42'']], rpc_peer = None\<rparr> [] [(''k'', ''v'')]
   = [(''k'', ''v''), (''request_id'', ''42'')]"
proof -
  have l: "ToLower ''Request_ID'' = ''request_id''" by code_simp
  have "MD_Set ''Request_ID'' ''42'' (Some Map.empty) = Some (Some [''request_id'' \<mapsto> [''42'']])"
    by (simp add: MD_Set_def l md_lookup_def)
  from request_id_logged [OF l _ this, of "\<lparr>incoming_md = Some [''request_id'' \<mapsto> [''42'']], rpc_peer = None\<rparr>"
      "\<lambda>fs l. l @ fs" "[]" "[(''k'', ''v'')]"]
  show ?thesis by (simp add: md_lookup_def)
qed

section \<open>The tracer\<close>

text \<open>
  The fields of the tracer's configuration that the code sets; the sampler is a pointer,
  and setting a field of a nil one panics (\<open>None\<close>).
\<close>

record sampler_config =
  smp_Type :: string
  smp_Param :: int

record tracer_config =
  Sampler :: "sampler_config option"
  ServiceName :: string
  RPCMetrics :: bool

definition MakeTracer :: "(string + tracer_config) \<Rightarrow> (tracer_config \<Rightarrow> 'l \<Rightarrow> string + 'tracer) \<Rightarrow>
    string \<Rightarrow> 'l \<Rightarrow> (string + 'tracer) option" where
  "MakeTracer FromEnv NewTracer name logger =
     (case FromEnv of
        Inl err \<Rightarrow> Some (Inl err)
      | Inr cfg \<Rightarrow>
          (case Sampler cfg of
             None \<Rightarrow> None
           | Some sam \<Rightarrow>
               Some (NewTracer (cfg\<lparr>Sampler := Some (sam\<lparr>smp_Type := ''const'', smp_Param := 1\<rparr>),
                 ServiceName := name, RPCMetrics := True\<rparr>) logger)))"

end
