(* ===== verification/SilentPeer.thy ===== *)
theory SilentPeer
  imports MuxConc
begin

text \<open>
  Peers that keep their connection open and send nothing more. A matcher of a prefix tree reads
  as many bytes as its tree is deep: if the peer has sent them it answers, whether or not the
  peer goes on; if it has not, and no deadline is set, the matcher does not return.
\<close>

section \<open>Reading what has arrived\<close>

text \<open>What arrives of such a peer's bytes arrives without an error.\<close>

definition arrives :: "net_conn \<Rightarrow> bool" where
  "arrives c \<longleftrightarrow> \<not> c_waits c \<and> (\<forall>d \<in> set (c_src c). snd d = None)"

definition starved :: "net_conn \<Rightarrow> bool" where
  "starved c \<longleftrightarrow> c_silent c \<and> c_deadline c = None"

definition patient :: "MuxConn \<Rightarrow> bool" where
  "patient s \<longleftrightarrow> br_inv (\<lambda>_. True) s \<and> lastErr s = None \<and> arrives (source s)"

lemma deliver_arrives:
  "deliver src n = ((bs, e), src') \<Longrightarrow> src \<noteq> [] \<Longrightarrow> \<forall>d \<in> set src. snd d = None \<Longrightarrow>
     e = None \<and> (\<forall>d \<in> set src'. snd d = None)"
  by (cases src) (fastforce split: if_splits)+

lemma conn_read_arrives:
  assumes "conn_read c n = ((bs, e), c')" and "arrives c" and "0 < n"
  shows "if e = None then arrives c' \<and> starved c' = starved c
    else bs = [] \<and> conn_pend c = [] \<and> (starved c \<longrightarrow> c_waits c')"
  using assms(1)
proof (cases rule: conn_read_cases)
  case silent
  with assms(2,3) show ?thesis by (auto simp: conn_pend_def starved_def)
next
  case (delivers src)
  show ?thesis
  proof (cases "c_src c = []")
    case True
    with delivers assms(1) have "\<not> c_silent c" using assms(3) by (auto simp: conn_read_def split: if_splits)
    with True delivers show ?thesis by (auto simp: conn_pend_def starved_def)
  next
    case False
    with deliver_arrives [OF delivers(1)] assms(2) delivers(2) show ?thesis
      by (simp add: arrives_def starved_def)
  qed
qed

lemma patient_read:
  assumes "bufferedReader_Read conn_read s n = ((bs, e), t)" and "patient s" and "0 < n"
  shows "if e = None then patient t \<and> starved (source t) = starved (source s)
    else bs = [] \<and> br_pend conn_pend s = [] \<and> (starved (source s) \<longrightarrow> c_waits (source t))"
proof -
  have inv: "br_inv (\<lambda>_. True) s" "br_inv (\<lambda>_. True) t"
    using assms(2) mux_conn.read_inv [OF _ assms(1)] by (simp_all add: patient_def)
  from inv(1) assms(1) show ?thesis
  proof (cases rule: conn.buffered_cases)
    case replay
    with assms(2) inv(2) show ?thesis by (simp add: patient_def)
  next
    case (source src)
    from conn_read_arrives [OF source(2) _ assms(3)] assms(2) source inv(2) show ?thesis
      by (auto simp: patient_def br_pend_def br_replay_empty split: if_splits)
  qed
qed

text \<open>A full read succeeds on what has arrived and waits for what has not.\<close>

lemma readFull_loop_patient:
  "patient s \<Longrightarrow> length buf \<le> len \<Longrightarrow>
     \<exists>r e t. readFull_loop (bufferedReader_Read conn_read) len buf s = Some ((r, e), t)
       \<and> (len \<le> length (buf @ br_pend conn_pend s) \<longrightarrow> r = take len (buf @ br_pend conn_pend s) \<and> patient t)
       \<and> (\<not> len \<le> length (buf @ br_pend conn_pend s) \<and> starved (source s) \<longrightarrow> c_waits (source t))"
proof (induction "br_budget conn_budget s" arbitrary: s buf rule: less_induct)
  case less
  note loop = readFull_loop.simps [of "bufferedReader_Read conn_read" len buf s]
  have inv: "br_inv (\<lambda>_. True) s" using less.prems(1) by (simp add: patient_def)
  show ?case
  proof (cases "length buf < len")
    case True
    obtain bs e t where read: "bufferedReader_Read conn_read s (len - length buf) = ((bs, e), t)"
      by (metis surj_pair)
    note step = patient_read [OF read less.prems(1)]
    have pend: "br_pend conn_pend s = bs @ br_pend conn_pend t" and len: "length (buf @ bs) \<le> len"
      using mux_conn.read_pend [OF inv read] mux_conn.read_length [OF inv read] True by auto
    show ?thesis
    proof (cases e)
      case None
      then have "br_budget conn_budget t < br_budget conn_budget s"
        using mux_conn.read_budget [OF inv] read True by simp
      from less.hyps [OF this _ len] step None True pend read show ?thesis by (simp add: loop)
    next
      case (Some err)
      with step True read show ?thesis by (simp add: loop)
    qed
  next
    case False
    with less.prems show ?thesis by (simp add: loop)
  qed
qed

section \<open>Prefix matchers\<close>

lemma patient_start: "arrives c \<Longrightarrow> patient (startSniffing (newMuxConn c))"
  by (simp add: patient_def startSniffing_def newMuxConn_def bufferedReader_reset_def br_inv_def)

lemma pend_start: "br_pend conn_pend (startSniffing (newMuxConn c)) = conn_pend c"
  by (simp add: startSniffing_def br_pend_reset br_total_def newMuxConn_def)

text \<open>A prefix matcher that is the first to look at a connection.\<close>

lemma prefix_matcher_patient:
  assumes "arrives c"
  shows "if maxDepth (newTreeString strs) \<le> length (conn_pend c)
    then \<exists>t. run_matcher (PrefixMatcher (bufferedReader_Read conn_read) strs) (startSniffing (newMuxConn c))
      = Some (recognises (map bytes_of strs) True (conn_pend c), t)
    else starved c \<longrightarrow>
      run_matcher (PrefixMatcher (bufferedReader_Read conn_read) strs) (startSniffing (newMuxConn c)) = None"
proof -
  have source: "source (startSniffing (newMuxConn c)) = c" by (simp add: newMuxConn_def)
  let ?s = "startSniffing (newMuxConn c)" and ?d = "maxDepth (newTreeString strs)"
  obtain r e t where loop: "readFull_loop (bufferedReader_Read conn_read) ?d [] ?s = Some ((r, e), t)"
    and full: "?d \<le> length (conn_pend c) \<Longrightarrow> r = take ?d (conn_pend c) \<and> patient t"
    and hang: "\<not> ?d \<le> length (conn_pend c) \<Longrightarrow> starved c \<Longrightarrow> c_waits (source t)"
    using readFull_loop_patient [OF patient_start [OF assms], of "[]" ?d] source
    unfolding pend_start append_Nil by auto
  have run: "PrefixMatcher (bufferedReader_Read conn_read) strs ?s =
      Some (match (root (newTreeString strs)) r True, t)"
    by (simp add: PrefixMatcher_def Tree_matchPrefix_def readFull_def loop)
  show ?thesis
  proof (cases "?d \<le> length (conn_pend c)")
    case True
    from full [OF this] run match_newTree [of "map bytes_of strs" "conn_pend c" True] True show ?thesis
      by (auto simp: run_matcher_def patient_def arrives_def newTreeString_def)
  next
    case False
    with hang run show ?thesis by (simp add: run_matcher_def)
  qed
qed

text \<open>
  The first matcher of a multiplexer without a read timeout: it takes a connection by what has
  arrived, and waits for ever if that is too little.
\<close>

lemma serve_prefix_first:
  assumes "sls m \<noteq> []" and "ss (hd (sls m)) = PrefixMatcher (bufferedReader_Read conn_read) strs # mws"
    and "readTimeout m \<le> noTimeout" and "arrives c"
  shows "maxDepth (newTreeString strs) \<le> length (conn_pend c) \<Longrightarrow>
      recognises (map bytes_of strs) True (conn_pend c) \<Longrightarrow> \<exists>muc. serve m now c = Some (Enqueue 0 muc)"
    and "length (conn_pend c) < maxDepth (newTreeString strs) \<Longrightarrow> starved c \<Longrightarrow> serve m now c = None"
  using prefix_matcher_patient [OF assms(4), of strs] assms(1-3)
  by (cases "sls m"; auto simp: serve_eq serve_conn_def)+

text \<open>The methods of \<open>HTTP1Fast\<close> are at most seven bytes long; it reads eight.\<close>

lemma http_depth: "maxDepth (newTreeString defaultHTTPMethods) = 8"
  by (simp add: newTreeString_def maxDepth_newTree defaultHTTPMethods_def bytes_of_def)

definition silent_client :: net_conn where
  "silent_client = sample_conn\<lparr>c_src := [(bytes_of ''GET /'', None)], c_silent := True\<rparr>"

lemma silent_client: "arrives silent_client" "starved silent_client" "length (conn_pend silent_client) = 5"
  by (simp_all add: silent_client_def arrives_def starved_def conn_pend_def bytes_of_def)

definition http_mux :: rpcMux where
  "http_mux = snd (Match [HTTP1Fast (bufferedReader_Read conn_read) []] (New False))"

lemma http_mux: "configured http_mux" "serve http_mux now silent_client = None" "\<not> root_closed http_mux"
proof -
  show "configured http_mux" unfolding http_mux_def by (intro configured.intros)
  show "serve http_mux now silent_client = None"
    using silent_client
    by (intro serve_prefix_first(2) [of _ defaultHTTPMethods "[]"])
      (simp_all add: http_mux_def Match_def MatchWithWriters_def New_def Let_def HTTP1Fast_def http_depth)
  show "\<not> root_closed http_mux"
    by (simp add: http_mux_def Match_def MatchWithWriters_def New_def Let_def)
qed

end
