(* ===== verification/ServeGroup.thy ===== *)
theory ServeGroup
  imports SilentPeer StartServe Syncer
begin

text \<open>
  A server as the repository puts it together (\<open>example/gotil-serve/main.go\<close>, end of
  \<open>main\<close>): an error group of three goroutines, one in \<open>StartDebugger\<close>, one in
  \<open>StartRpcServer\<close> and one in the multiplexer's \<open>Serve\<close>, and \<open>main\<close> in \<open>Wait\<close>.
  The parts are the models of \<open>StartServe\<close>, \<open>MuxConc\<close> and \<open>Syncer\<close>; this theory
  couples them by the context and the root listener, shows that the whole implements the
  error group, and what its \<open>Wait\<close> returns and when.
\<close>

section \<open>The composed system\<close>

text \<open>
  The three members of the group, in the order \<open>main\<close> starts them. A member's goroutine
  is in its call, has the call's result, or has reported it.
\<close>

datatype member = Debugger | RpcServer | Multiplexer

datatype go_state = Unstarted | InCall | Got "string option" | Reported

text \<open>
  \<open>sv_ctx\<close> is whether the group's context is done, \<open>sv_results\<close> the history of the
  results reported, \<open>sv_waited\<close> what \<open>Wait\<close> returned.
\<close>

record serving =
  sv_mux :: mux_sys
  sv_dbg :: starter
  sv_rpc :: starter
  sv_ctx :: bool
  sv_grp :: Group
  sv_go :: "member \<Rightarrow> go_state"
  sv_results :: "string option list"
  sv_waited :: "string option option"

definition serving_start :: "rpcMux \<Rightarrow> serving" where
  "serving_start m = \<lparr>sv_mux = mux_start m, sv_dbg = starter_start, sv_rpc = starter_start,
     sv_ctx = False, sv_grp = WithContext, sv_go = (\<lambda>_. Unstarted), sv_results = [], sv_waited = None\<rparr>"

text \<open>What the function given to \<open>Go\<close> has returned, if it has.\<close>

fun starter_result :: "starter_pc \<Rightarrow> string option option" where
  "starter_result Selecting = None"
| "starter_result (StarterReturned err) = Some err"

fun mux_result :: "serve_pc \<Rightarrow> string option option" where
  "mux_result (Returned err) = Some (Some (Error err))"
| "mux_result _ = None"

fun call_result :: "serving \<Rightarrow> member \<Rightarrow> string option option" where
  "call_result s Debugger = starter_result (st_main (sv_dbg s))"
| "call_result s RpcServer = starter_result (st_main (sv_rpc s))"
| "call_result s Multiplexer = mux_result (main (sv_mux s))"

text \<open>\<open>main\<close> starts the members one after the other.\<close>

fun may_start :: "(member \<Rightarrow> go_state) \<Rightarrow> member \<Rightarrow> bool" where
  "may_start g Debugger = True"
| "may_start g RpcServer = (g Debugger \<noteq> Unstarted)"
| "may_start g Multiplexer = (g RpcServer \<noteq> Unstarted)"

text \<open>
  The listeners of the two servers are the multiplexer's, whose \<open>Close\<close> is that of the
  root listener. An HTTP server closes its listener when it is shut down, and both kinds
  of server close theirs when \<open>Serve\<close> returns.
\<close>

definition listener_closed :: "starter \<Rightarrow> bool" where
  "listener_closed d \<longleftrightarrow> HttpShutdown \<in> set (stops d) \<or> st_go d \<noteq> GoServing"

definition close_root :: "bool \<Rightarrow> mux_sys \<Rightarrow> mux_sys" where
  "close_root b s = (if b then s\<lparr>mux := (mux s)\<lparr>root_closed := True\<rparr>\<rparr> else s)"

text \<open>
  The steps of the program itself, in whatever order its goroutines run. A goroutine that
  waits for the network makes none: not \<open>Serve\<close> in the \<open>Accept\<close> of the open root
  listener, not a server in its own \<open>Serve\<close>.
\<close>

inductive serving_own :: "serving \<Rightarrow> serving \<Rightarrow> bool" where
  sv_start: "sv_go s k = Unstarted \<Longrightarrow> may_start (sv_go s) k \<Longrightarrow>
    serving_own s (s\<lparr>sv_go := (sv_go s)(k := InCall),
      sv_grp := (sv_grp s)\<lparr>g_wg := Suc (g_wg (sv_grp s))\<rparr>\<rparr>)"
| sv_serve: "sv_go s Multiplexer \<noteq> Unstarted \<Longrightarrow> own_step (sv_mux s) x \<Longrightarrow>
    serving_own s (s\<lparr>sv_mux := x\<rparr>)"
| sv_debugger: "sv_go s Debugger \<noteq> Unstarted \<Longrightarrow> StartDebugger (sv_dbg s) d \<Longrightarrow>
    \<not> server_returns (sv_dbg s) d \<Longrightarrow> (ctx_done d \<longrightarrow> sv_ctx s) \<Longrightarrow>
    serving_own s (s\<lparr>sv_dbg := d, sv_mux := close_root (listener_closed d) (sv_mux s)\<rparr>)"
| sv_rpcserver: "sv_go s RpcServer \<noteq> Unstarted \<Longrightarrow> StartRpcServer (sv_rpc s) d \<Longrightarrow>
    \<not> server_returns (sv_rpc s) d \<Longrightarrow> (ctx_done d \<longrightarrow> sv_ctx s) \<Longrightarrow>
    serving_own s (s\<lparr>sv_rpc := d, sv_mux := close_root (listener_closed d) (sv_mux s)\<rparr>)"
| sv_returns: "sv_go s k = InCall \<Longrightarrow> call_result s k = Some r \<Longrightarrow>
    serving_own s (s\<lparr>sv_go := (sv_go s)(k := Got r)\<rparr>)"
| sv_reports: "sv_go s k = Got r \<Longrightarrow> Group_report r (sv_grp s) = (g, cancels) \<Longrightarrow>
    serving_own s (s\<lparr>sv_go := (sv_go s)(k := Reported), sv_grp := g, sv_ctx := sv_ctx s \<or> cancels,
      sv_results := sv_results s @ [r]\<rparr>)"
| sv_wait: "sv_go s Multiplexer \<noteq> Unstarted \<Longrightarrow> g_wg (sv_grp s) = 0 \<Longrightarrow>
    serving_own s (s\<lparr>sv_ctx := sv_ctx s \<or> has_cancel (sv_grp s), sv_waited := Some (g_err (sv_grp s))\<rparr>)"

text \<open>
  What comes from outside: the deadline of the context, connections and errors on the root
  listener, and the end of a server's \<open>Serve\<close>; and the clients of the multiplexer's
  listeners.
\<close>

inductive serving_env :: "serving \<Rightarrow> serving \<Rightarrow> bool" where
  ev_deadline: "serving_env s (s\<lparr>sv_ctx := True\<rparr>)"
| ev_listener: "sv_go s Multiplexer \<noteq> Unstarted \<Longrightarrow> awaits_listener (sv_mux s) \<Longrightarrow> main_step (sv_mux s) x \<Longrightarrow>
    serving_env s (s\<lparr>sv_mux := x\<rparr>)"
| ev_debugger: "sv_go s Debugger \<noteq> Unstarted \<Longrightarrow> StartDebugger (sv_dbg s) d \<Longrightarrow>
    server_returns (sv_dbg s) d \<Longrightarrow> (ctx_done d \<longrightarrow> sv_ctx s) \<Longrightarrow>
    serving_env s (s\<lparr>sv_dbg := d, sv_mux := close_root (listener_closed d) (sv_mux s)\<rparr>)"
| ev_rpcserver: "sv_go s RpcServer \<noteq> Unstarted \<Longrightarrow> StartRpcServer (sv_rpc s) d \<Longrightarrow>
    server_returns (sv_rpc s) d \<Longrightarrow> (ctx_done d \<longrightarrow> sv_ctx s) \<Longrightarrow>
    serving_env s (s\<lparr>sv_rpc := d, sv_mux := close_root (listener_closed d) (sv_mux s)\<rparr>)"

inductive serving_step :: "serving \<Rightarrow> serving \<Rightarrow> bool" where
  sv_own: "serving_own s t \<Longrightarrow> serving_step s t"
| sv_env: "serving_env s t \<Longrightarrow> serving_step s t"
| sv_client: "client_step (sv_mux s) x \<Longrightarrow> serving_step s (s\<lparr>sv_mux := x\<rparr>)"

inductive_cases serving_stepE: "serving_step s t"

lemmas serving_elims = serving_stepE serving_own.cases serving_env.cases

lemma serve_step_iff: "serve_step s t \<longleftrightarrow> own_step s t \<or> awaits_listener s \<and> main_step s t"
  by (auto simp: serve_step_def own_step_def)

section \<open>The whole implements the error group\<close>

text \<open>The group as \<open>Syncer\<close> sees it: the goroutines that have not reported.\<close>

fun group_go_of :: "go_state \<Rightarrow> group_go list" where
  "group_go_of InCall = [Running]"
| "group_go_of (Got r) = [GotResult r]"
| "group_go_of _ = []"

definition started :: "(member \<Rightarrow> go_state) \<Rightarrow> nat" where
  "started g = length (filter (\<lambda>k. g k \<noteq> Unstarted) [Debugger, RpcServer, Multiplexer])"

definition as_group :: "serving \<Rightarrow> group_sys" where
  "as_group s = \<lparr>grp = sv_grp s, ctx_cancelled = sv_ctx s,
     g_gos = concat (map (group_go_of \<circ> sv_go s) [Debugger, RpcServer, Multiplexer]),
     g_started = started (sv_go s), g_results = sv_results s\<rparr>"

text \<open>The members start in order.\<close>

definition in_order :: "serving \<Rightarrow> bool" where
  "in_order s \<longleftrightarrow> (\<forall>k. sv_go s k \<noteq> Unstarted \<longrightarrow> may_start (sv_go s) k)"

lemma all_members: "(\<forall>k. P k) \<longleftrightarrow> P Debugger \<and> P RpcServer \<and> P Multiplexer"
  by (metis member.exhaust)

lemma in_order_step: "serving_step s t \<Longrightarrow> in_order s \<Longrightarrow> in_order t"
proof (erule serving_stepE)
  assume "serving_own s t" and "in_order s"
  then show "in_order t"
  proof (induction rule: serving_own.induct)
    case (sv_start s k)
    then show ?case by (cases k) (auto simp: in_order_def all_members)
  next
    case (sv_returns s k r)
    then show ?case by (cases k) (auto simp: in_order_def all_members)
  next
    case (sv_reports s k r g cancels)
    then show ?case by (cases k) (auto simp: in_order_def all_members)
  qed (simp_all add: in_order_def)
qed (auto simp: in_order_def elim: serving_env.cases)

interpretation ordered: transition_system "\<lambda>s. s = serving_start m" serving_step in_order for m
proof (unfold_locales, goal_cases)
  case (1 s)
  then show ?case by (simp add: serving_start_def in_order_def)
qed (rule in_order_step)

text \<open>Replacing the state of one member splits the abstract list around it.\<close>

lemma group_gos_split:
  "\<exists>xs ys. \<forall>x. concat (map (group_go_of \<circ> g(k := x)) [Debugger, RpcServer, Multiplexer]) =
     xs @ group_go_of x @ ys"
proof (cases k)
  case Debugger
  then show ?thesis
    by (intro exI [of _ "[]"] exI [of _ "group_go_of (g RpcServer) @ group_go_of (g Multiplexer)"]) simp
next
  case RpcServer
  then show ?thesis
    by (intro exI [of _ "group_go_of (g Debugger)"] exI [of _ "group_go_of (g Multiplexer)"]) simp
next
  case Multiplexer
  then show ?thesis
    by (intro exI [of _ "group_go_of (g Debugger) @ group_go_of (g RpcServer)"] exI [of _ "[]"]) simp
qed

lemma as_group_simps [simp]:
  "grp (as_group s) = sv_grp s" "ctx_cancelled (as_group s) = sv_ctx s"
  "g_started (as_group s) = started (sv_go s)" "g_results (as_group s) = sv_results s"
  by (simp_all add: as_group_def)

lemma started_update:
  "g k \<noteq> Unstarted \<Longrightarrow> x \<noteq> Unstarted \<Longrightarrow> started (g(k := x)) = started g"
  by (cases k) (simp_all add: started_def)

lemma started_one:
  "sv_go s k = Unstarted \<Longrightarrow> may_start (sv_go s) k \<Longrightarrow> in_order s \<Longrightarrow>
     started ((sv_go s)(k := InCall)) = Suc (started (sv_go s))
   \<and> g_gos (as_group (s\<lparr>sv_go := (sv_go s)(k := InCall)\<rparr>)) = g_gos (as_group s) @ [Running]"
  by (cases k) (auto simp: started_def as_group_def in_order_def all_members)

lemma as_group_step:
  assumes "serving_step s t" and "in_order s"
  shows "group_step\<^sup>=\<^sup>= (as_group s) (as_group t)"
  using assms(1)
proof (cases rule: serving_step.cases)
  case sv_own
  then show ?thesis
  proof (cases rule: serving_own.cases)
    case (sv_start k)
    from started_one [OF this(2,3) assms(2)] group_Go [of "as_group s"] show ?thesis
      by (simp add: sv_start(1) as_group_def)
  next
    case (sv_returns k r)
    obtain xs ys where gos: "\<And>x. concat (map (group_go_of \<circ> (sv_go s)(k := x))
        [Debugger, RpcServer, Multiplexer]) = xs @ group_go_of x @ ys"
      using group_gos_split [of "sv_go s" k] by metis
    from gos [of InCall] sv_returns(2) have "g_gos (as_group s) = xs @ Running # ys"
      by (simp add: as_group_def fun_upd_idem)
    from group_returns [OF this, of r] gos [of "Got r"] show ?thesis
      using started_update [of "sv_go s" k "Got r"] sv_returns(2)
      by (simp add: sv_returns(1) as_group_def)
  next
    case (sv_reports k r g cancels)
    obtain xs ys where gos: "\<And>x. concat (map (group_go_of \<circ> (sv_go s)(k := x))
        [Debugger, RpcServer, Multiplexer]) = xs @ group_go_of x @ ys"
      using group_gos_split [of "sv_go s" k] by metis
    from gos [of "Got r"] sv_reports(2) have "g_gos (as_group s) = xs @ GotResult r # ys"
      by (simp add: as_group_def fun_upd_idem)
    from group_reports [OF this, of g cancels] gos [of Reported] show ?thesis
      using started_update [of "sv_go s" k Reported] sv_reports(2,3)
      by (simp add: sv_reports(1) as_group_def)
  next
    case sv_wait
    have "Group_Wait (as_group s) (g_err (sv_grp s)) (as_group t)"
      using sv_wait by (simp add: Group_Wait_iff as_group_def)
    then show ?thesis by (blast intro: group_waited)
  qed (simp_all add: as_group_def)
next
  case sv_env
  then show ?thesis
    using group_parent_cancels [of "as_group s"] by cases (simp_all add: as_group_def)
qed (simp add: as_group_def)

lemma serving_in_order: "serving_step\<^sup>*\<^sup>* (serving_start m) s \<Longrightarrow> in_order s"
  by (rule ordered.reach_inv) (auto simp: reach_def)

lemma as_group_start [simp]: "as_group (serving_start m) = group_start WithContext"
  by (simp add: as_group_def serving_start_def group_start_def started_def)

lemma as_group_reach:
  "serving_step\<^sup>*\<^sup>* (serving_start m) s \<Longrightarrow> group_step\<^sup>*\<^sup>* (group_start WithContext) (as_group s)"
proof (induction rule: rtranclp_induct)
  case (step s t)
  from as_group_step [OF step(2) serving_in_order [OF step(1)]] step(3) show ?case
    by (auto intro: rtranclp.rtrancl_into_rtrancl)
qed simp

lemma waited_step:
  "serving_step s t \<Longrightarrow> sv_waited t \<noteq> sv_waited s \<Longrightarrow>
     \<exists>r. sv_waited t = Some r \<and> Group_Wait (as_group s) r (as_group t)"
  by (auto elim!: serving_elims simp: Group_Wait_iff as_group_def)

text \<open>
  C8. The composed server implements the error group. It starts as a new group, and each of
  its steps (starting a member, a step inside one of the three calls or of a client, a
  result, a report, the deadline) is at most one step of the group as \<open>Syncer\<close> has it; the
  step in which \<open>main\<close>'s \<open>Wait\<close> returns is the group's \<open>Wait\<close> with that result.
\<close>

theorem serving_refines_group:
  assumes "serving_step\<^sup>*\<^sup>* (serving_start m) s" and "serving_step s t"
  shows "as_group (serving_start m) = group_start WithContext
    \<and> group_step\<^sup>=\<^sup>= (as_group s) (as_group t)
    \<and> (sv_waited t \<noteq> sv_waited s \<longrightarrow>
        (\<exists>r. sv_waited t = Some r \<and> Group_Wait (as_group s) r (as_group t)))"
  using as_group_step [OF assms(2) serving_in_order [OF assms(1)]] waited_step [OF assms(2)] by simp

theorem serving_refines_group_witness:
  "\<exists>s. serving_step (serving_start any_mux) s \<and> group_step\<^sup>=\<^sup>= (group_start WithContext) (as_group s)
    \<and> as_group s \<noteq> group_start WithContext"
proof -
  let ?s = "(serving_start any_mux)\<lparr>sv_ctx := True\<rparr>"
  have s: "serving_step (serving_start any_mux) ?s" by (rule sv_env, rule ev_deadline)
  have "as_group ?s \<noteq> group_start WithContext" by (simp add: as_group_def group_start_def)
  with s serving_refines_group [of any_mux, OF rtranclp.rtrancl_refl s] show ?thesis
    by (intro exI [of _ ?s]) (simp only: as_group_start simp_thms)
qed

section \<open>The parts inside the whole\<close>

text \<open>A run of the whole is, for each part, a run of that part.\<close>

lemma close_root_step: "mux_step\<^sup>*\<^sup>* s (close_root b s)"
  by (simp add: close_root_def mux_step_def client_closes r_into_rtranclp)

lemma serving_mux_step: "serving_step s t \<Longrightarrow> mux_step\<^sup>*\<^sup>* (sv_mux s) (sv_mux t)"
  by (auto elim!: serving_elims intro: close_root_step
      simp: mux_step_def serve_step_iff r_into_rtranclp)

lemma serving_dbg_step: "serving_step s t \<Longrightarrow> StartDebugger\<^sup>*\<^sup>* (sv_dbg s) (sv_dbg t)"
  by (auto elim!: serving_elims)

lemma serving_rpc_step: "serving_step s t \<Longrightarrow> StartRpcServer\<^sup>*\<^sup>* (sv_rpc s) (sv_rpc t)"
  by (auto elim!: serving_elims)

lemma serving_parts:
  "serving_step\<^sup>*\<^sup>* s t \<Longrightarrow> mux_step\<^sup>*\<^sup>* (sv_mux s) (sv_mux t)
    \<and> StartDebugger\<^sup>*\<^sup>* (sv_dbg s) (sv_dbg t) \<and> StartRpcServer\<^sup>*\<^sup>* (sv_rpc s) (sv_rpc t)"
proof (induction rule: rtranclp_induct)
  case (step t u)
  with serving_mux_step [OF step(2)] serving_dbg_step [OF step(2)] serving_rpc_step [OF step(2)]
  show ?case by (meson rtranclp_trans)
qed simp

lemma serving_parts_start:
  assumes "serving_step\<^sup>*\<^sup>* (serving_start m) s"
  shows "mux_step\<^sup>*\<^sup>* (mux_start m) (sv_mux s)"
    and "starter_inv [HttpShutdown] (sv_dbg s)" and "starter_inv [] (sv_rpc s)"
  using serving_parts [OF assms] starter_reach_inv
  by (simp_all add: serving_start_def StartDebugger_def StartRpcServer_def)

text \<open>Results do not change.\<close>

lemma starter_step_result:
  "starter_step acts d e \<Longrightarrow> starter_result (st_main d) = Some r \<Longrightarrow> starter_result (st_main e) = Some r"
  by (erule starter_stepE) auto

lemma mux_result_eq: "mux_result pc = Some r \<longleftrightarrow> (\<exists>err. pc = Returned err \<and> r = Some (Error err))"
  by (cases pc) auto

lemma mux_steps_result:
  "mux_step\<^sup>*\<^sup>* s t \<Longrightarrow> mux_result (main s) = Some r \<Longrightarrow> mux_result (main t) = Some r"
  by (induction rule: rtranclp_induct) (auto simp: mux_result_eq dest: mux_step_returned)

lemma call_result_stable:
  assumes "serving_step s t" and "call_result s k = Some r"
  shows "call_result t k = Some r"
proof (cases k)
  case Multiplexer
  with assms mux_steps_result [OF serving_mux_step [OF assms(1)]] show ?thesis by simp
qed (use assms in \<open>auto elim!: serving_elims
    simp: StartDebugger_def StartRpcServer_def intro: starter_step_result\<close>)

text \<open>What has been reported, and what \<open>Wait\<close> said.\<close>

definition reported :: "serving \<Rightarrow> string option list" where
  "reported s = map (the \<circ> call_result s)
     (filter (\<lambda>k. sv_go s k = Reported) [Debugger, RpcServer, Multiplexer])"

definition serving_links :: "serving \<Rightarrow> bool" where
  "serving_links s \<longleftrightarrow>
     (\<forall>k r. sv_go s k = Got r \<longrightarrow> call_result s k = Some r)
   \<and> (\<forall>k. sv_go s k = Reported \<longrightarrow> call_result s k \<noteq> None)
   \<and> mset (sv_results s) = mset (reported s)
   \<and> (\<forall>r. sv_waited s = Some r \<longrightarrow> (\<forall>k. sv_go s k = Reported) \<and> r = g_err (sv_grp s) \<and> sv_ctx s)"

lemma reported_cong:
  assumes "sv_go t = sv_go s" and "\<And>k. sv_go s k = Reported \<Longrightarrow> call_result t k = call_result s k"
  shows "reported t = reported s"
  using assms by (simp add: reported_def del: call_result.simps)

lemma reported_one:
  assumes "sv_go s k \<noteq> Reported" and "call_result s k = Some r"
    and "sv_go t = (sv_go s)(k := Reported)" and "\<And>j. call_result t j = call_result s j"
  shows "mset (reported t) = add_mset r (mset (reported s))"
  using assms by (cases k) (auto simp: reported_def simp del: call_result.simps)

lemma call_result_upd [simp]:
  "call_result (s\<lparr>sv_go := g\<rparr>) k = call_result s k" "call_result (s\<lparr>sv_grp := gr\<rparr>) k = call_result s k"
  "call_result (s\<lparr>sv_ctx := b\<rparr>) k = call_result s k" "call_result (s\<lparr>sv_results := rs\<rparr>) k = call_result s k"
  "call_result (s\<lparr>sv_waited := w\<rparr>) k = call_result s k"
  by (cases k; simp)+

lemma all_reported:
  assumes "group_inv True (as_group s)" and "in_order s"
    and "sv_go s Multiplexer \<noteq> Unstarted" and "g_wg (sv_grp s) = 0"
  shows "sv_go s k = Reported"
proof -
  have empty: "group_go_of (sv_go s j) = []" for j
    using assms(1,4) by (cases j) (simp_all add: group_inv_def as_group_def)
  have "\<forall>j. sv_go s j \<noteq> Unstarted" using assms(2,3) by (auto simp: in_order_def all_members)
  then show ?thesis using empty [of k] by (cases "sv_go s k") auto
qed

lemma serving_links_step:
  assumes "serving_step s t" and "serving_links s" and "group_inv True (as_group s)" and "in_order s"
  shows "serving_links t"
proof -
  note stable = call_result_stable [OF assms(1)]
  have kept: "call_result t k = call_result s k" if "sv_go s k = Reported" for k
    using that assms(2) stable by (force simp: serving_links_def)
  have same: "serving_links t" if "sv_go t = sv_go s" "sv_grp t = sv_grp s" "sv_results t = sv_results s"
    "sv_waited t = sv_waited s" "sv_ctx s \<longrightarrow> sv_ctx t"
    using that assms(2) reported_cong [OF that(1)] kept stable by (auto simp: serving_links_def)
  from assms(1) show ?thesis
  proof (cases rule: serving_step.cases)
    case sv_own
    then show ?thesis
    proof (cases rule: serving_own.cases)
      case (sv_start k)
      have "reported t = reported s"
        using sv_start(2) by (cases k) (auto simp: sv_start(1) reported_def)
      with sv_start assms(2) show ?thesis by (auto simp: serving_links_def)
    next
      case (sv_returns k r)
      have "reported t = reported s"
        using sv_returns(2) by (cases k) (auto simp: sv_returns(1) reported_def)
      with sv_returns assms(2) show ?thesis by (auto simp: serving_links_def)
    next
      case (sv_reports k r g cancels)
      then have r: "call_result s k = Some r" using assms(2) by (simp add: serving_links_def)
      have "mset (reported t) = add_mset r (mset (reported s))"
        by (rule reported_one [OF _ r]) (simp_all add: sv_reports(1,2))
      with sv_reports r assms(2) show ?thesis by (auto simp: serving_links_def)
    next
      case sv_wait
      have "\<forall>k. sv_go s k = Reported" using all_reported [OF assms(3,4) sv_wait(2,3)] by blast
      moreover have "reported t = reported s" by (simp add: sv_wait(1) reported_def)
      moreover have "has_cancel (sv_grp s)" using assms(3) by (simp add: group_inv_def)
      ultimately show ?thesis using assms(2) by (auto simp: serving_links_def sv_wait(1))
    qed (rule same; simp)+
  next
    case sv_env
    then show ?thesis by cases (rule same; simp)+
  qed (rule same; simp)
qed

lemma serving_reach_inv:
  assumes "serving_step\<^sup>*\<^sup>* (serving_start m) s"
  shows "group_inv True (as_group s) \<and> serving_links s"
  using assms
proof (induction rule: rtranclp_induct)
  case base
  have "serving_links (serving_start m)"
    by (simp add: serving_links_def serving_start_def reported_def)
  then show ?case using group_reach_inv [OF rtranclp.rtrancl_refl] by simp
next
  case (step t u)
  then have "group_inv True (as_group u)"
    using as_group_reach [of m u] by (meson group_reach_inv rtranclp.rtrancl_into_rtrancl)
  with step serving_links_step serving_in_order show ?case by blast
qed

section \<open>Closing the root listener\<close>

lemma mux_step_root: "mux_step s t \<Longrightarrow> root_closed (mux s) \<Longrightarrow> root_closed (mux t)"
  by (auto simp: step_defs elim!: main_step.cases go_step.cases client_step.cases)

lemma serving_root_step:
  "serving_step s t \<Longrightarrow> root_closed (mux (sv_mux s)) \<Longrightarrow> root_closed (mux (sv_mux t))"
proof -
  have "mux_step\<^sup>*\<^sup>* x y \<Longrightarrow> root_closed (mux x) \<Longrightarrow> root_closed (mux y)" for x y
    by (induction rule: rtranclp_induct) (auto intro: mux_step_root)
  then show "serving_step s t \<Longrightarrow> root_closed (mux (sv_mux s)) \<Longrightarrow> ?thesis"
    by (blast dest: serving_mux_step)
qed

lemma close_root_closed: "b \<Longrightarrow> root_closed (mux (close_root b s))"
  by (simp add: close_root_def)

definition root_follows :: "serving \<Rightarrow> bool" where
  "root_follows s \<longleftrightarrow> (listener_closed (sv_dbg s) \<or> listener_closed (sv_rpc s) \<longrightarrow> root_closed (mux (sv_mux s)))"

interpretation closing: transition_system "\<lambda>s. s = serving_start m" serving_step root_follows for m
proof (unfold_locales, goal_cases)
  case (1 s)
  then show ?case
    by (simp add: root_follows_def serving_start_def listener_closed_def starter_start_def)
next
  case (2 s t)
  note root = serving_root_step [OF 2(1)]
  from 2(1) show ?case
  proof (cases rule: serving_step.cases)
    case sv_own
    then show ?thesis
      using 2(2) root
      by (cases rule: serving_own.cases)
        (auto simp: root_follows_def close_root_closed)
  next
    case sv_env
    then show ?thesis
      using 2(2) root
      by (cases rule: serving_env.cases)
        (auto simp: root_follows_def close_root_closed)
  qed (use 2(2) root in \<open>auto simp: root_follows_def\<close>)
qed

lemma serving_root: "serving_step\<^sup>*\<^sup>* (serving_start m) s \<Longrightarrow> root_follows s"
  by (rule closing.reach_inv) (auto simp: reach_def)

text \<open>Once \<open>StartDebugger\<close> has returned the root listener is closed.\<close>

lemma debugger_closes:
  assumes "serving_step\<^sup>*\<^sup>* (serving_start m) s" and "st_main (sv_dbg s) = StarterReturned err"
  shows "root_closed (mux (sv_mux s))"
proof -
  from serving_parts_start(2) [OF assms(1)] assms(2) have "listener_closed (sv_dbg s)"
    by (auto simp: starter_inv_def listener_closed_def)
  with serving_root [OF assms(1)] show ?thesis by (simp add: root_follows_def)
qed

section \<open>The work left\<close>

definition starter_work :: "starter \<Rightarrow> nat" where
  "starter_work d = (case st_main d of Selecting \<Rightarrow> 1 | StarterReturned _ \<Rightarrow> 0)
     + (case st_go d of GoServing \<Rightarrow> 2 | GoSending _ \<Rightarrow> 1 | GoEnded \<Rightarrow> 0) + (if ctx_done d then 0 else 1)"

fun go_state_work :: "go_state \<Rightarrow> nat" where
  "go_state_work Unstarted = 3"
| "go_state_work InCall = 2"
| "go_state_work (Got r) = 1"
| "go_state_work Reported = 0"

definition members_work :: "(member \<Rightarrow> go_state) \<Rightarrow> nat" where
  "members_work g = go_state_work (g Debugger) + go_state_work (g RpcServer) + go_state_work (g Multiplexer)"

definition serving_work :: "serving \<Rightarrow> nat" where
  "serving_work s = shutdown_work (sv_mux s) + starter_work (sv_dbg s) + starter_work (sv_rpc s)
     + members_work (sv_go s) + (if sv_waited s = None then 1 else 0)"

lemma members_work_less:
  "go_state_work x < go_state_work (g k) \<Longrightarrow> members_work (g(k := x)) < members_work g"
  by (cases k) (simp_all add: members_work_def)

lemma starter_step_work: "starter_step acts d e \<Longrightarrow> e \<noteq> d \<Longrightarrow> starter_work e < starter_work d"
  by (erule starter_stepE) (auto simp: starter_work_def)

lemma close_root_same: "root_closed (mux s) \<Longrightarrow> close_root b s = s"
  by (simp add: close_root_def)

lemma serve_step_work:
  assumes "serve_step s t" and "mux_ctl m s" and "root_closed (mux s)" and "t \<noteq> s"
  shows "shutdown_work t < shutdown_work s"
proof (cases "main_step s t \<and> main s = Accepting")
  case True
  then have "main_step s t" by simp
  then show ?thesis
    using True assms(3,4) by (cases rule: main_step.cases) (auto simp: shutdown_work_def)
next
  case False
  with assms(1,2) show ?thesis by (auto simp: serve_step_def intro: main_step_work go_step_work)
qed

lemma serving_own_work:
  assumes "serving_own s t" and "t \<noteq> s" and "mux_ctl m (sv_mux s)" and "serving_links s"
    and "sv_ctx s" and "root_closed (mux (sv_mux s))"
  shows "serving_work t < serving_work s"
  using assms(1)
proof (cases rule: serving_own.cases)
  case (sv_start k)
  with members_work_less [of InCall "sv_go s" k] show ?thesis by (simp add: serving_work_def)
next
  case (sv_serve x)
  with assms(2) have "x \<noteq> sv_mux s" by auto
  moreover have "serve_step (sv_mux s) x" using sv_serve(3) by (simp add: serve_step_iff)
  ultimately show ?thesis
    using serve_step_work [OF _ assms(3,6)] by (simp add: serving_work_def sv_serve(1))
next
  case (sv_debugger d)
  with assms(2) close_root_same [OF assms(6)] have "d \<noteq> sv_dbg s" by auto
  with starter_step_work sv_debugger(3) have "starter_work d < starter_work (sv_dbg s)"
    by (auto simp: StartDebugger_def)
  then show ?thesis by (simp add: serving_work_def sv_debugger(1) close_root_same [OF assms(6)])
next
  case (sv_rpcserver d)
  with assms(2) close_root_same [OF assms(6)] have "d \<noteq> sv_rpc s" by auto
  with starter_step_work sv_rpcserver(3) have "starter_work d < starter_work (sv_rpc s)"
    by (auto simp: StartRpcServer_def)
  then show ?thesis by (simp add: serving_work_def sv_rpcserver(1) close_root_same [OF assms(6)])
next
  case (sv_returns k r)
  with members_work_less [of "Got r" "sv_go s" k] show ?thesis by (simp add: serving_work_def)
next
  case (sv_reports k r g cancels)
  with members_work_less [of Reported "sv_go s" k] show ?thesis by (simp add: serving_work_def)
next
  case sv_wait
  have "sv_waited s = None"
  proof (rule ccontr)
    assume "sv_waited s \<noteq> None"
    then have "sv_waited s = Some (g_err (sv_grp s))" using assms(4) by (auto simp: serving_links_def)
    with sv_wait assms(2,5) show False by auto
  qed
  then show ?thesis by (simp add: serving_work_def sv_wait(1))
qed

text \<open>After that nothing from outside adds to it.\<close>

lemma serving_env_work:
  assumes "serving_env s t" and "sv_ctx s" and "root_closed (mux (sv_mux s))"
  shows "serving_work t \<le> serving_work s"
  using assms(1)
proof (cases rule: serving_env.cases)
  case ev_deadline
  then show ?thesis by (simp add: serving_work_def)
next
  case (ev_listener x)
  with assms(3) show ?thesis by (simp add: awaits_listener_def)
next
  case (ev_debugger d)
  then have "d \<noteq> sv_dbg s" by (auto simp: server_returns_def)
  with starter_step_work ev_debugger(3) have "starter_work d < starter_work (sv_dbg s)"
    by (auto simp: StartDebugger_def)
  then show ?thesis by (simp add: serving_work_def ev_debugger(1) close_root_same [OF assms(3)])
next
  case (ev_rpcserver d)
  then have "d \<noteq> sv_rpc s" by (auto simp: server_returns_def)
  with starter_step_work ev_rpcserver(3) have "starter_work d < starter_work (sv_rpc s)"
    by (auto simp: StartRpcServer_def)
  then show ?thesis by (simp add: serving_work_def ev_rpcserver(1) close_root_same [OF assms(3)])
qed

section \<open>There is always a step\<close>

lemma own_reach: "serving_step\<^sup>*\<^sup>* (serving_start m) s \<Longrightarrow> serving_own s t \<Longrightarrow> serving_step\<^sup>*\<^sup>* (serving_start m) t"
  by (meson rtranclp.rtrancl_into_rtrancl sv_own)

lemma step_by: "serving_own s t \<Longrightarrow> f t \<noteq> f s \<Longrightarrow> \<exists>t. serving_own s t \<and> t \<noteq> s"
  by auto

text \<open>A starter that is still selecting notices that the context is done and returns.\<close>

lemma debugger_returns:
  assumes "sv_go s Debugger \<noteq> Unstarted" and "st_main (sv_dbg s) = Selecting"
    and "sv_ctx s" and "ctx_done (sv_dbg s)"
  shows "\<exists>t. serving_own s t \<and> t \<noteq> s \<and> root_closed (mux (sv_mux t))"
proof -
  let ?d = "(sv_dbg s)\<lparr>st_main := StarterReturned None, stops := [HttpShutdown]\<rparr>"
  let ?t = "s\<lparr>sv_dbg := ?d, sv_mux := close_root (listener_closed ?d) (sv_mux s)\<rparr>"
  have "StartDebugger (sv_dbg s) ?d"
    using select_done [OF assms(2,4)] by (simp add: StartDebugger_def)
  from serving_own.sv_debugger [OF assms(1) this] have "serving_own s ?t"
    using assms(3,4) by (simp add: server_returns_def)
  moreover have "root_closed (mux (sv_mux ?t))" by (simp add: close_root_def listener_closed_def)
  moreover have "?t \<noteq> s"
  proof
    assume "?t = s"
    then have "st_main (sv_dbg ?t) = st_main (sv_dbg s)" by simp
    with assms(2) show False by simp
  qed
  ultimately show ?thesis by blast
qed

lemma starter_notices:
  assumes "sv_ctx s"
  shows "sv_go s Debugger \<noteq> Unstarted \<Longrightarrow> \<not> ctx_done (sv_dbg s) \<Longrightarrow>
      \<exists>t. serving_own s t \<and> t \<noteq> s \<and> ctx_done (sv_dbg t) \<and> st_main (sv_dbg t) = st_main (sv_dbg s)
        \<and> sv_go t = sv_go s \<and> sv_ctx t"
    and "sv_go s RpcServer \<noteq> Unstarted \<Longrightarrow> \<not> ctx_done (sv_rpc s) \<Longrightarrow> \<exists>t. serving_own s t \<and> t \<noteq> s"
proof -
  assume a: "sv_go s Debugger \<noteq> Unstarted" "\<not> ctx_done (sv_dbg s)"
  let ?d = "(sv_dbg s)\<lparr>ctx_done := True\<rparr>"
  let ?t = "s\<lparr>sv_dbg := ?d, sv_mux := close_root (listener_closed ?d) (sv_mux s)\<rparr>"
  have "StartDebugger (sv_dbg s) ?d" using cancelled by (simp add: StartDebugger_def)
  from serving_own.sv_debugger [OF a(1) this] assms have "serving_own s ?t" by (simp add: server_returns_def)
  moreover from a(2) have "?t \<noteq> s" by (auto dest: arg_cong [where f = "ctx_done \<circ> sv_dbg"])
  ultimately show "\<exists>t. serving_own s t \<and> t \<noteq> s \<and> ctx_done (sv_dbg t) \<and> st_main (sv_dbg t) = st_main (sv_dbg s)
      \<and> sv_go t = sv_go s \<and> sv_ctx t"
    using assms by (intro exI [of _ ?t]) simp
next
  assume a: "sv_go s RpcServer \<noteq> Unstarted" "\<not> ctx_done (sv_rpc s)"
  have "StartRpcServer (sv_rpc s) ((sv_rpc s)\<lparr>ctx_done := True\<rparr>)"
    using cancelled by (simp add: StartRpcServer_def)
  from serving_own.sv_rpcserver [OF a(1) this] assms a(2) show "\<exists>t. serving_own s t \<and> t \<noteq> s"
    by (intro step_by [where f = "ctx_done \<circ> sv_rpc"]) (auto simp: server_returns_def)
qed

lemma rpcserver_progress:
  assumes "sv_go s RpcServer \<noteq> Unstarted" and "st_main (sv_rpc s) = Selecting" and "sv_ctx s"
  shows "\<exists>t. serving_own s t \<and> t \<noteq> s"
proof (cases "ctx_done (sv_rpc s)")
  case True
  have "StartRpcServer (sv_rpc s) ((sv_rpc s)\<lparr>st_main := StarterReturned None, stops := []\<rparr>)"
    using select_done [OF assms(2) True] by (simp add: StartRpcServer_def)
  from serving_own.sv_rpcserver [OF assms(1) this] assms(2,3) show ?thesis
    by (intro step_by [where f = "st_main \<circ> sv_rpc"]) (auto simp: server_returns_def True)
qed (rule starter_notices(2) [OF assms(3,1)])

text \<open>
  Once the root listener is closed, the multiplexer's \<open>Serve\<close> goes on by itself, if the
  matching of its connections returns.
\<close>

lemma multiplexer_progress:
  assumes "sv_go s Multiplexer \<noteq> Unstarted" and "mux_result (main (sv_mux s)) = None"
    and "mux_ctl m (sv_mux s)" and "matching_returns m (sv_mux s)" and "root_closed (mux (sv_mux s))"
  shows "\<exists>t. serving_own s t \<and> t \<noteq> s"
proof (cases "main (sv_mux s) = Accepting")
  case True
  have "accept_error (mux (sv_mux s)) ErrNetClosing" and "\<not> handleErr (mux (sv_mux s)) ErrNetClosing"
    by (simp_all add: accept_error_def handleErr_def ErrNetClosing_def)
  from accept_fail [OF True this] assms(5) have
    "own_step (sv_mux s) ((sv_mux s)\<lparr>main := Deferred ErrNetClosing\<rparr>)"
    by (simp add: own_step_def awaits_listener_def)
  from serving_own.sv_serve [OF assms(1) this] show ?thesis
    by (rule step_by [where f = "main \<circ> sv_mux"]) (simp add: True)
next
  case False
  moreover have "\<nexists>err. main (sv_mux s) = Returned err" using assms(2) by auto
  ultimately obtain x where x: "serve_step (sv_mux s) x"
    using shutdown_progress [OF assms(3,4)] by blast
  then have "shutdown_work x < shutdown_work (sv_mux s)"
    using False assms(3) by (auto simp: serve_step_def intro: main_step_work go_step_work)
  moreover have "own_step (sv_mux s) x"
    using x False by (auto simp: serve_step_iff awaits_listener_def)
  ultimately show ?thesis
    using serving_own.sv_serve [OF assms(1), of x]
    by (intro step_by [where f = "shutdown_work \<circ> sv_mux"]) auto
qed

lemma member_progress:
  assumes "sv_go s k = InCall" and "sv_ctx s" and "mux_ctl m (sv_mux s)"
    and "matching_returns m (sv_mux s)" and "root_closed (mux (sv_mux s))"
  shows "\<exists>t. serving_own s t \<and> t \<noteq> s"
proof (cases "call_result s k")
  case (Some r)
  from serving_own.sv_returns [OF assms(1) Some] show ?thesis
    by (rule step_by [where f = "\<lambda>s. sv_go s k"]) (simp add: assms(1))
next
  case None
  show ?thesis
  proof (cases k)
    case Debugger
    with None assms(1) have d: "sv_go s Debugger \<noteq> Unstarted" "st_main (sv_dbg s) = Selecting"
      by (auto elim: starter_result.elims)
    show ?thesis
      using debugger_returns [OF d assms(2)] starter_notices(1) [OF assms(2) d(1)] by blast
  next
    case RpcServer
    with None assms(1) have "sv_go s RpcServer \<noteq> Unstarted" "st_main (sv_rpc s) = Selecting"
      by (auto elim: starter_result.elims)
    then show ?thesis using assms(2) by (rule rpcserver_progress)
  next
    case Multiplexer
    with None assms(1) have "sv_go s Multiplexer \<noteq> Unstarted" "mux_result (main (sv_mux s)) = None"
      by simp_all
    then show ?thesis using assms(3-5) by (rule multiplexer_progress)
  qed
qed

lemma start_progress:
  assumes "sv_go s k = Unstarted"
  shows "\<exists>t. serving_own s t \<and> t \<noteq> s"
proof -
  obtain j where j: "sv_go s j = Unstarted" "may_start (sv_go s) j"
    using assms by (metis may_start.simps member.exhaust)
  from serving_own.sv_start [OF j] show ?thesis
    by (rule step_by [where f = "\<lambda>s. sv_go s j"]) (simp add: j(1))
qed

lemma serving_progress:
  assumes "group_inv True (as_group s)" and "mux_ctl m (sv_mux s)" and "matching_returns m (sv_mux s)"
    and "root_closed (mux (sv_mux s))" and "sv_ctx s" and "sv_waited s = None"
  shows "\<exists>t. serving_own s t \<and> t \<noteq> s"
proof (cases "\<exists>k. sv_go s k \<noteq> Reported")
  case True
  then obtain k where "sv_go s k \<noteq> Reported" by blast
  then show ?thesis
  proof (cases "sv_go s k")
    case (Got r)
    obtain g cancels where "Group_report r (sv_grp s) = (g, cancels)" by force
    from serving_own.sv_reports [OF Got this] show ?thesis
      by (rule step_by [where f = "\<lambda>s. sv_go s k"]) (simp add: Got)
  qed (use start_progress member_progress [OF _ assms(5,2-4)] in blast)+
next
  case False
  then have all: "sv_go s k = Reported" for k by blast
  then have "g_wg (sv_grp s) = 0" using assms(1) by (simp add: group_inv_def as_group_def)
  from serving_own.sv_wait [OF _ this] all assms(6) show ?thesis
    by (intro step_by [where f = sv_waited]) auto
qed

section \<open>The shutdown of the whole\<close>

definition serving_ready :: "rpcMux \<Rightarrow> serving \<Rightarrow> bool" where
  "serving_ready m s \<longleftrightarrow> serving_step\<^sup>*\<^sup>* (serving_start m) s \<and> sv_ctx s"

lemma own_steps: "serving_own\<^sup>*\<^sup>* s t \<Longrightarrow> serving_step\<^sup>*\<^sup>* s t"
  by (induction rule: rtranclp_induct) (auto intro: sv_own rtranclp.rtrancl_into_rtrancl)

lemma own_ctx: "serving_own s t \<Longrightarrow> sv_ctx s \<Longrightarrow> sv_ctx t"
  by (auto elim: serving_own.cases)

lemma serving_ready_own: "serving_own s t \<Longrightarrow> serving_ready m s \<Longrightarrow> serving_ready m t"
  unfolding serving_ready_def by (blast intro: own_reach own_ctx)

lemma serving_ready_ctl: "configured m \<Longrightarrow> serving_ready m s \<Longrightarrow> mux_ctl m (sv_mux s)"
  unfolding serving_ready_def by (blast intro: mux_ctl_reach serving_parts_start(1))

text \<open>The program's own steps start no matching.\<close>

lemma own_step_matching: "own_step s t \<Longrightarrow> matching_returns m s \<Longrightarrow> matching_returns m t"
  unfolding own_step_def awaits_listener_def matching_returns_def
  by (elim disjE conjE main_step.cases go_step.cases) auto

lemma close_root_gos [simp]: "gos (close_root b s) = gos s"
  by (simp add: close_root_def)

lemma own_matching:
  "serving_own s t \<Longrightarrow> matching_returns m (sv_mux s) \<Longrightarrow> matching_returns m (sv_mux t)"
proof -
  assume own: "serving_own s t" and m: "matching_returns m (sv_mux s)"
  from own show "matching_returns m (sv_mux t)"
  proof (cases rule: serving_own.cases)
    case (sv_serve x)
    with own_step_matching [OF sv_serve(3) m] show ?thesis by simp
  qed (use m in \<open>simp_all add: matching_returns_def\<close>)
qed

lemma own_steps_matching:
  "serving_own\<^sup>*\<^sup>* s t \<Longrightarrow> matching_returns m (sv_mux s) \<Longrightarrow> matching_returns m (sv_mux t)"
  by (induction rule: rtranclp_induct) (auto intro: own_matching)

lemma serving_closed_finishes:
  assumes "configured m" and "serving_ready m s"
    and "matching_returns m (sv_mux s)" and "root_closed (mux (sv_mux s))"
  shows "\<exists>t. serving_own\<^sup>*\<^sup>* s t \<and> sv_waited t \<noteq> None"
  using assms(2-4)
proof (induction "serving_work s" arbitrary: s rule: less_induct)
  case less
  then have reach: "serving_step\<^sup>*\<^sup>* (serving_start m) s" and ctx: "sv_ctx s"
    by (simp_all add: serving_ready_def)
  note ctl = serving_ready_ctl [OF assms(1) less.prems(1)]
  from serving_reach_inv [OF reach] have inv: "group_inv True (as_group s)" "serving_links s" by blast+
  show ?case
  proof (cases "sv_waited s = None")
    case True
    from serving_progress [OF inv(1) ctl less.prems(2,3) ctx this]
    obtain t where t: "serving_own s t" "t \<noteq> s" by blast
    have "\<exists>u. serving_own\<^sup>*\<^sup>* t u \<and> sv_waited u \<noteq> None"
      using less.hyps [OF serving_own_work [OF t ctl inv(2) ctx less.prems(3)]]
        serving_ready_own [OF t(1) less.prems(1)] own_matching [OF t(1) less.prems(2)]
        serving_root_step [OF sv_own [OF t(1)] less.prems(3)]
      by blast
    with t(1) show ?thesis by (blast intro: converse_rtranclp_into_rtranclp)
  qed blast
qed

lemma debugger_started:
  assumes "serving_ready m s"
  shows "\<exists>t. serving_own\<^sup>*\<^sup>* s t \<and> sv_go t Debugger \<noteq> Unstarted"
proof (cases "sv_go s Debugger = Unstarted")
  case True
  let ?t = "s\<lparr>sv_go := (sv_go s)(Debugger := InCall), sv_grp := (sv_grp s)\<lparr>g_wg := Suc (g_wg (sv_grp s))\<rparr>\<rparr>"
  from serving_own.sv_start [OF True] have "serving_own s ?t" by simp
  then show ?thesis by (intro exI [of _ ?t]) auto
qed blast

text \<open>When the context is done the debug server's end closes the root listener.\<close>

lemma root_closes:
  assumes "serving_ready m s" and "sv_go s Debugger \<noteq> Unstarted"
  shows "\<exists>t. serving_own\<^sup>*\<^sup>* s t \<and> root_closed (mux (sv_mux t))"
proof (cases "st_main (sv_dbg s)")
  case Selecting
  have ctx: "sv_ctx s" using assms(1) by (simp add: serving_ready_def)
  show ?thesis
  proof (cases "ctx_done (sv_dbg s)")
    case True
    from debugger_returns [OF assms(2) Selecting ctx this] show ?thesis by blast
  next
    case False
    from starter_notices(1) [OF ctx assms(2) this] Selecting assms(2) obtain t where t:
      "serving_own s t" "ctx_done (sv_dbg t)" "st_main (sv_dbg t) = Selecting"
      "sv_go t Debugger \<noteq> Unstarted" "sv_ctx t" by auto
    from debugger_returns [OF t(4,3,5,2)] t(1) show ?thesis
      by (blast intro: converse_rtranclp_into_rtranclp r_into_rtranclp)
  qed
next
  case (StarterReturned err)
  with assms(1) debugger_closes show ?thesis by (auto simp: serving_ready_def)
qed

lemma serving_finishes:
  assumes "configured m" and "serving_ready m s" and "matching_returns m (sv_mux s)"
  shows "\<exists>t. serving_own\<^sup>*\<^sup>* s t \<and> sv_waited t \<noteq> None"
proof -
  have ready: "serving_own\<^sup>*\<^sup>* a b \<Longrightarrow> serving_ready m a \<Longrightarrow> serving_ready m b" for a b
    by (induction rule: rtranclp_induct) (auto intro: serving_ready_own)
  from debugger_started [OF assms(2)] obtain a where a: "serving_own\<^sup>*\<^sup>* s a" "sv_go a Debugger \<noteq> Unstarted"
    by blast
  from root_closes [OF ready [OF a(1) assms(2)] a(2)] obtain b where
    b: "serving_own\<^sup>*\<^sup>* a b" "root_closed (mux (sv_mux b))" by blast
  have sb: "serving_own\<^sup>*\<^sup>* s b" using a(1) b(1) by (rule rtranclp_trans)
  from serving_closed_finishes [OF assms(1) ready [OF sb assms(2)] own_steps_matching [OF sb assms(3)] b(2)] sb
  show ?thesis by (meson rtranclp_trans)
qed

text \<open>
  C6. The shutdown of the whole. Suppose the group's context is done (its deadline, or the
  first error), and the matching of the connections in the multiplexer's goroutines returns.
  Then the program finishes by its own steps, without a new connection, an error of the root
  listener or the end of a server: the debug server is shut down, which closes the listener
  they all share, \<open>Serve\<close> notices and drains, and the members report until \<open>Wait\<close> returns.
  Once the root listener is closed, every step of the program that changes anything decreases
  the work left, neither clients nor anything from outside add to it, and there is such a
  step until \<open>Wait\<close> has returned.
\<close>

theorem serving_shutdown_ends:
  assumes "configured m" and "serving_step\<^sup>*\<^sup>* (serving_start m) s" and "sv_ctx s"
    and "matching_returns m (sv_mux s)"
  shows "(\<exists>t. serving_own\<^sup>*\<^sup>* s t \<and> sv_waited t \<noteq> None)
    \<and> (root_closed (mux (sv_mux s)) \<longrightarrow>
        (\<forall>t. serving_own s t \<and> t \<noteq> s \<longrightarrow> serving_work t < serving_work s)
      \<and> (\<forall>t. serving_env s t \<longrightarrow> serving_work t \<le> serving_work s)
      \<and> (\<forall>x. client_step (sv_mux s) x \<longrightarrow> serving_work (s\<lparr>sv_mux := x\<rparr>) \<le> serving_work s)
      \<and> (sv_waited s \<noteq> None \<or> (\<exists>t. serving_own s t \<and> t \<noteq> s)))"
proof -
  have ready: "serving_ready m s" using assms(2,3) by (simp add: serving_ready_def)
  note ctl = serving_ready_ctl [OF assms(1) ready]
  from serving_reach_inv [OF assms(2)] have inv: "group_inv True (as_group s)" "serving_links s" by blast+
  have "serving_work (s\<lparr>sv_mux := x\<rparr>) \<le> serving_work s" if "client_step (sv_mux s) x" for x
    using client_step_work [OF that] by (simp add: serving_work_def)
  with serving_finishes [OF assms(1) ready assms(4)] serving_own_work [OF _ _ ctl inv(2) assms(3)]
    serving_env_work [OF _ assms(3)] serving_progress [OF inv(1) ctl assms(4) _ assms(3)]
  show ?thesis by blast
qed

text \<open>
  The witness: the deadline passes while the three goroutines have not even started.
\<close>

lemma late_start: "serving_step\<^sup>*\<^sup>* (serving_start m) ((serving_start m)\<lparr>sv_ctx := True\<rparr>)"
  by (rule r_into_rtranclp, rule sv_env, rule ev_deadline)

lemma late_matching: "matching_returns m (sv_mux ((serving_start m)\<lparr>sv_ctx := True\<rparr>))"
  by (simp add: matching_returns_def serving_start_def mux_start_def)

theorem serving_shutdown_ends_witness:
  "\<exists>t. serving_own\<^sup>*\<^sup>* ((serving_start any_mux)\<lparr>sv_ctx := True\<rparr>) t \<and> sv_waited t \<noteq> None"
  using serving_shutdown_ends [OF any_mux_configured late_start _ late_matching] by simp

section \<open>What Wait returns\<close>

lemma starter_result_eq: "starter_result pc = Some r \<longleftrightarrow> pc = StarterReturned r"
  by (cases pc) simp_all

lemma waited_members:
  assumes "serving_links s" and "sv_waited s = Some r"
  obtains e1 e2 err where "st_main (sv_dbg s) = StarterReturned e1"
    and "st_main (sv_rpc s) = StarterReturned e2" and "main (sv_mux s) = Returned err"
    and "mset (sv_results s) = {#e1, e2, Some (Error err)#}" and "r = g_err (sv_grp s)" and "sv_ctx s"
proof -
  from assms have all: "sv_go s k = Reported" "call_result s k \<noteq> None" for k
    by (auto simp: serving_links_def)
  from all(2) [of Debugger] all(2) [of RpcServer] all(2) [of Multiplexer]
  obtain e1 e2 err where "st_main (sv_dbg s) = StarterReturned e1"
    "st_main (sv_rpc s) = StarterReturned e2" "main (sv_mux s) = Returned err"
    by (auto simp: starter_result_eq mux_result_eq)
  moreover from this all(1) assms(1) have "mset (sv_results s) = {#e1, e2, Some (Error err)#}"
    by (simp add: serving_links_def reported_def)
  ultimately show thesis using that assms by (auto simp: serving_links_def)
qed

lemma serving_waited_error:
  assumes "serving_step\<^sup>*\<^sup>* (serving_start m) s" and "sv_waited s = Some r"
  shows "r \<noteq> None" and "r = first_error (sv_results s)"
proof -
  from serving_reach_inv [OF assms(1)] have inv: "group_inv True (as_group s)" "serving_links s" by blast+
  from inv(2) assms(2) obtain e1 e2 err where w: "mset (sv_results s) = {#e1, e2, Some (Error err)#}"
    "r = g_err (sv_grp s)" by (rule waited_members)
  show r: "r = first_error (sv_results s)" using w(2) inv(1) by (simp add: group_inv_def)
  have "Some (Error err) \<in> set (sv_results s)"
    using w(1) by (metis add_mset_commute set_mset_mset union_single_eq_member)
  with r show "r \<noteq> None" using first_error_None [of "sv_results s"] by auto
qed

text \<open>
  C7. What \<open>Wait\<close> returns, and that nothing is left behind. When it returns, the two
  starters and the multiplexer's \<open>Serve\<close> have returned, the result is the first error of
  the three that was reported, and it is never nil: \<open>Serve\<close> always has an error, so
  that \<open>main\<close> ends with its fatal message on a regular end too. Every connection the
  multiplexer accepted has been delivered or closed.
\<close>

theorem serving_wait_returns:
  assumes "configured m" and "matchers_ok m" and "serving_step\<^sup>*\<^sup>* (serving_start m) s"
    and "sv_waited s = Some r"
  shows "r \<noteq> None \<and> r = first_error (sv_results s) \<and> sv_ctx s
    \<and> (\<exists>e1 e2 err. st_main (sv_dbg s) = StarterReturned e1 \<and> st_main (sv_rpc s) = StarterReturned e2
        \<and> main (sv_mux s) = Returned err \<and> mset (sv_results s) = {#e1, e2, Some (Error err)#})
    \<and> image_mset (\<lambda>c. (c_id c, c_closed c)) (mset (accepted (sv_mux s))) =
        image_mset (\<lambda>(i, muc). (c_id (source muc), c_closed (source muc))) (mset (delivered (sv_mux s)))
        + image_mset (\<lambda>c. (c_id c, c_closed c - 1)) (mset (dropped (sv_mux s)))"
proof -
  from serving_reach_inv [OF assms(3)] have "serving_links s" by blast
  from this assms(4) obtain e1 e2 err where w: "st_main (sv_dbg s) = StarterReturned e1"
    "st_main (sv_rpc s) = StarterReturned e2" "main (sv_mux s) = Returned err"
    "mset (sv_results s) = {#e1, e2, Some (Error err)#}" "sv_ctx s"
    by (rule waited_members)
  with serving_waited_error [OF assms(3,4)]
    mux_conserved_returned [OF assms(1,2) serving_parts_start(1) [OF assms(3)] w(3)]
  show ?thesis by blast
qed

lemma any_mux_waits: "\<exists>s r. serving_step\<^sup>*\<^sup>* (serving_start any_mux) s \<and> sv_waited s = Some r"
proof -
  from serving_finishes [OF any_mux_configured _ late_matching] late_start [of any_mux]
  obtain t where t: "serving_own\<^sup>*\<^sup>* ((serving_start any_mux)\<lparr>sv_ctx := True\<rparr>) t" "sv_waited t \<noteq> None"
    by (auto simp: serving_ready_def)
  have "serving_step\<^sup>*\<^sup>* (serving_start any_mux) t"
    using late_start own_steps [OF t(1)] by (rule rtranclp_trans)
  with t(2) show ?thesis by blast
qed

theorem serving_wait_returns_witness:
  "\<exists>s r. serving_step\<^sup>*\<^sup>* (serving_start any_mux) s \<and> sv_waited s = Some r \<and> r \<noteq> None"
  using any_mux_waits serving_wait_returns [OF any_mux_configured any_mux_ok(1)] by blast

section \<open>A matcher that does not return\<close>

lemma stuck_goroutine:
  assumes "mux_step s t" and "mux_ctl m s" and "Started c \<in> set (gos s)"
    and "\<And>now. serve m now c = None"
  shows "Started c \<in> set (gos t)"
proof -
  have none: "serve (mux s) now c = None" for now
    using assms(2,4) serve_cong [of "mux s" m now c] by (simp add: mux_ctl_def)
  have "main_step s t \<Longrightarrow> ?thesis" using assms(3) by (auto elim: main_step.cases)
  moreover have "client_step s t \<Longrightarrow> ?thesis" using assms(3) by (auto elim: client_step.cases)
  moreover have "go_step s t \<Longrightarrow> ?thesis"
    using assms(3) none by (auto elim!: go_step.cases)
  ultimately show ?thesis using assms(1) by (auto simp: step_defs)
qed

lemma stuck_forever:
  assumes "configured m" and "serving_step\<^sup>*\<^sup>* (serving_start m) s"
    and "Started c \<in> set (gos (sv_mux s))" and "\<And>now. serve m now c = None"
    and "serving_step\<^sup>*\<^sup>* s t"
  shows "sv_waited t = None \<and> (\<nexists>err. main (sv_mux t) = Returned err)"
proof -
  have reach: "serving_step\<^sup>*\<^sup>* (serving_start m) t" using assms(2,5) by (rule rtranclp_trans)
  have ctl: "mux_ctl m (sv_mux u)" if "serving_step\<^sup>*\<^sup>* (serving_start m) u" for u
    using serving_parts_start(1) [OF that] assms(1) by (rule mux_ctl_reach)
  have "mux_step\<^sup>*\<^sup>* (sv_mux s) x \<Longrightarrow> Started c \<in> set (gos x) \<and> mux_ctl m x" for x
  proof (induction rule: rtranclp_induct)
    case base
    show ?case using assms(3) ctl [OF assms(2)] by simp
  next
    case (step x y)
    then show ?case using stuck_goroutine [OF step(2) _ _ assms(4)] ctl.step_inv by blast
  qed
  with serving_parts [OF assms(5)] have "Started c \<in> set (gos (sv_mux t))" by blast
  with ctl [OF reach] have main: "\<nexists>err. main (sv_mux t) = Returned err" by (auto simp: mux_ctl_def)
  with serving_reach_inv [OF reach] waited_members [of t] show ?thesis by (metis option.exhaust)
qed

text \<open>
  C26. A connection whose matching does not return holds up the whole program: the error
  group's \<open>Wait\<close> does not return any more, in no continuation, deadline or not.
\<close>

theorem serving_stuck:
  assumes "configured m" and "serving_step\<^sup>*\<^sup>* (serving_start m) s"
    and "Started c \<in> set (gos (sv_mux s))" and "\<And>now. serve m now c = None"
    and "serving_step\<^sup>*\<^sup>* s t"
  shows "sv_waited t = None \<and> (\<nexists>err. main (sv_mux t) = Returned err)"
  by (rule stuck_forever [OF assms])

text \<open>
  The witness: a client of a server for HTTP/1 that sends the first five bytes of its request
  and then nothing.
\<close>

theorem serving_stuck_witness:
  "\<exists>s. serving_step\<^sup>*\<^sup>* (serving_start http_mux) s \<and> Started silent_client \<in> set (gos (sv_mux s))
    \<and> (\<nexists>t. serving_step\<^sup>*\<^sup>* s t \<and> sv_waited t \<noteq> None)"
proof -
  let ?go = "\<lambda>k s. s\<lparr>sv_go := (sv_go s)(k := InCall), sv_grp := (sv_grp s)\<lparr>g_wg := Suc (g_wg (sv_grp s))\<rparr>\<rparr>"
  let ?s0 = "serving_start http_mux"
  let ?s3 = "?go Multiplexer (?go RpcServer (?go Debugger ?s0))"
  let ?x = "(mux_start http_mux)\<lparr>gos := [Started silent_client], wg := 1, accepted := [silent_client]\<rparr>"
  have a: "serving_step ?s0 (?go Debugger ?s0)"
    by (intro sv_own serving_own.sv_start) (simp_all add: serving_start_def)
  have b: "serving_step (?go Debugger ?s0) (?go RpcServer (?go Debugger ?s0))"
    by (intro sv_own serving_own.sv_start) (simp_all add: serving_start_def)
  have c: "serving_step (?go RpcServer (?go Debugger ?s0)) ?s3"
    by (intro sv_own serving_own.sv_start) (simp_all add: serving_start_def)
  have "main_step (mux_start http_mux) ?x" and "awaits_listener (mux_start http_mux)"
    using accept_conn [of "mux_start http_mux" silent_client] http_mux(3)
    by (simp_all add: mux_start_def awaits_listener_def)
  then have d: "serving_step ?s3 (?s3\<lparr>sv_mux := ?x\<rparr>)"
    by (intro sv_env serving_env.ev_listener) (simp_all add: serving_start_def)
  have run: "serving_step\<^sup>*\<^sup>* ?s0 (?s3\<lparr>sv_mux := ?x\<rparr>)"
    by (rule converse_rtranclp_into_rtranclp [of serving_step, OF a
        converse_rtranclp_into_rtranclp [of serving_step, OF b
        converse_rtranclp_into_rtranclp [of serving_step, OF c r_into_rtranclp [of serving_step, OF d]]]])
  have st: "Started silent_client \<in> set (gos (sv_mux (?s3\<lparr>sv_mux := ?x\<rparr>)))" by simp
  obtain s where s: "serving_step\<^sup>*\<^sup>* ?s0 s" "Started silent_client \<in> set (gos (sv_mux s))"
    using run st by (rule that)
  have "\<nexists>t. serving_step\<^sup>*\<^sup>* s t \<and> sv_waited t \<noteq> None"
  proof clarify
    fix t r
    assume "serving_step\<^sup>*\<^sup>* s t" and "sv_waited t = Some r"
    with serving_stuck [OF http_mux(1) s http_mux(2) this(1)] show False by simp
  qed
  with s show ?thesis by (intro exI [of _ s] conjI)
qed

end
