(* ===== verification/GotilServe.thy ===== *)
theory GotilServe
  imports ServeGroup ProbeConc Wiring Http2 Metrics
begin

unbundle bit_operations_syntax

text \<open>
  The example server \<open>example/gotil-serve/main.go\<close>: its service, its health checks, the
  setup with its fatal exits and deferred calls, the multiplexer it configures and the end of
  \<open>main\<close>. The example takes the multiplexer and the health checks from the packages
  that \<open>rpc/mux.go\<close> and \<open>instrument/probe/health.go\<close> are copies of; here they are the
  repository's own.
\<close>

section \<open>The service\<close>

record HelloRequest =
  req_Name :: string

record HelloResponse =
  resp_Message :: string

text \<open>The request is a pointer whose field is read: a nil one panics.\<close>

definition SayHello :: "(HelloRequest option, HelloResponse) unary_handler" where
  "SayHello ctx request =
     (case request of
        None \<Rightarrow> Panicked
      | Some r \<Rightarrow> Answered (Handled \<lparr>resp_Message = ''Hello '' @ req_Name r\<rparr>))"

text \<open>
  The service behind the plain server the example makes. A call without metadata is
  refused before the service sees it. Any other call reaches the validator with its metadata
  unchanged, which answers it itself or lets the client be greeted by name; no panic can
  come of a request that is not nil.
\<close>

theorem demo_service_answers:
  assumes "documented lib"
  shows "(incoming_md ctx = None \<longrightarrow>
      gs_unary (fst (MakeGrpcServer lib register icpt reg)) ctx (Some r) SayHello
        = Answered (StatusErr Unauthenticated ''missing context metadata''))
    \<and> (incoming_md ctx \<noteq> None \<longrightarrow>
      (\<exists>ctx' a. incoming_md ctx' = incoming_md ctx
        \<and> gs_unary (fst (MakeGrpcServer lib register icpt reg)) ctx (Some r) SayHello = Answered a
        \<and> (a = Handled \<lparr>resp_Message = ''Hello '' @ req_Name r\<rparr>
            \<or> (\<forall>h. validator_icpt lib ctx' (Some r) h = Answered a))))"
proof -
  have lib: "observes (ctxtags_icpt lib)" "observes (zap_icpt lib)" "passes_or_answers (validator_icpt lib)"
    "observes (prom_icpt lib icpt)"
    using assms by (simp_all add: documented_def)
  let ?hello = "Handled \<lparr>resp_Message = ''Hello '' @ req_Name r\<rparr>"
  have prom: "prom_icpt lib icpt c (Some r) SayHello = Answered ?hello" for c
    by (rule observes_const [OF lib(4)]) (simp add: SayHello_def)
  let ?zap = "\<lambda>c q. zap_icpt lib c q (\<lambda>c q. validator_icpt lib c q (\<lambda>c q. prom_icpt lib icpt c q SayHello))"
  obtain c1 where c1: "incoming_md c1 = incoming_md ctx"
    "ctxtags_icpt lib ctx (Some r) ?zap = ?zap c1 (Some r)"
    using lib(1) unfolding observes_def by blast
  obtain c2 where c2: "incoming_md c2 = incoming_md c1"
    "?zap c1 (Some r) = validator_icpt lib c2 (Some r) (\<lambda>c q. prom_icpt lib icpt c q SayHello)"
    using lib(2) unfolding observes_def by blast
  from lib(3) have "(\<forall>h. validator_icpt lib c2 (Some r) h = h c2 (Some r))
      \<or> (\<exists>a. \<forall>h. validator_icpt lib c2 (Some r) h = Answered a)"
    unfolding passes_or_answers_def by blast
  then obtain a where "?zap c1 (Some r) = Answered a"
    and a': "a = ?hello \<or> (\<forall>h. validator_icpt lib c2 (Some r) h = Answered a)"
    using c2(2) prom by (elim disjE exE) auto
  with c1 c2 have a: "gs_unary (fst (MakeGrpcServer lib register icpt reg)) ctx (Some r) SayHello = Answered a"
    if "incoming_md ctx \<noteq> None"
    using that by (auto simp: MakeGrpcServer_def metadata_icpt_eq)
  have "gs_unary (fst (MakeGrpcServer lib register icpt reg)) ctx (Some r) SayHello
      = Answered (StatusErr Unauthenticated ''missing context metadata'')" if "incoming_md ctx = None"
    using that by (simp add: MakeGrpcServer_def metadata_icpt_eq)
  moreover have "incoming_md c2 = incoming_md ctx" using c1(1) c2(1) by simp
  ultimately show ?thesis using a a' by blast
qed

theorem demo_service_answers_witness:
  "gs_unary (fst (MakeGrpcServer sample_lib (\<lambda>_ reg. (None, reg)) () ()))
     \<lparr>incoming_md = Some (\<lambda>_. None), rpc_peer = None\<rparr> (Some \<lparr>req_Name = ''Test''\<rparr>) SayHello
   = Answered (Handled \<lparr>resp_Message = ''Hello Test''\<rparr>)"
proof -
  have v: "validator_icpt sample_lib c q (\<lambda>_ _. Panicked) = Panicked" for c q
    by (simp add: sample_lib_def)
  from demo_service_answers [OF sample_lib_documented, of "\<lparr>incoming_md = Some (\<lambda>_. None), rpc_peer = None\<rparr>"
      "\<lambda>_ reg. (None, reg)" "()" "()" "\<lparr>req_Name = ''Test''\<rparr>"]
  show ?thesis by (auto dest: spec [of _ "\<lambda>_ _. Panicked"] simp: v)
qed

section \<open>The health checks\<close>

text \<open>
  The registrations of \<open>main\<close>; the flag tells a liveness check. What the checks call is a
  parameter, as in \<open>Probe\<close>, with \<open>Timeout\<close> as far as its caller sees it; the function of the
  third readiness check reads \<open>main\<close>'s variable \<open>err\<close>. Durations are nanoseconds.
\<close>

definition demo_checks :: "('w \<Rightarrow> int) \<Rightarrow> (string \<Rightarrow> int \<Rightarrow> 'w \<Rightarrow> (string + string list) \<times> 'w) \<Rightarrow>
    (string \<Rightarrow> int \<Rightarrow> 'w \<Rightarrow> (string + int) \<times> 'w) \<Rightarrow> ('w Check \<Rightarrow> int \<Rightarrow> 'w Check) \<Rightarrow>
    ('w \<Rightarrow> string option) \<Rightarrow> (bool \<times> string \<times> 'w Check) list" where
  "demo_checks NumGoroutine LookupHost client_get timed main_err =
     [(True, ''routine_threshold'', GoroutineCountCheck NumGoroutine 500),
      (False, ''google-dnscheck'', DNSResolveCheck LookupHost ''google.com'' (500 * 1000000)),
      (False, ''google-httpcheck'', HTTPGetCheck client_get ''google.com'' (500 * 1000000)),
      (False, ''grpc'', timed (\<lambda>w. (main_err w, w)) (1000000000 * 10))]"

definition demo_probe :: "('w \<Rightarrow> int) \<Rightarrow> (string \<Rightarrow> int \<Rightarrow> 'w \<Rightarrow> (string + string list) \<times> 'w) \<Rightarrow>
    (string \<Rightarrow> int \<Rightarrow> 'w \<Rightarrow> (string + int) \<times> 'w) \<Rightarrow> ('w Check \<Rightarrow> int \<Rightarrow> 'w Check) \<Rightarrow>
    ('w \<Rightarrow> string option) \<Rightarrow> 'w gauges \<Rightarrow> 'w metricsHandler option" where
  "demo_probe NumGoroutine LookupHost client_get timed main_err reg =
     exporting.add_checks (demo_checks NumGoroutine LookupHost client_get timed main_err)
       (MakeProbe reg ''demo'')"

lemma demo_probe_fresh:
  assumes "\<And>n. list_all (\<lambda>g. \<not> clashes (wrap_opts ''demo'' n) (fst g)) reg"
  shows "\<exists>h. demo_probe NumGoroutine LookupHost client_get timed main_err reg = Some h"
  unfolding demo_probe_def
proof (rule exporting_adds)
  show "distinct (map (fst \<circ> snd) (demo_checks NumGoroutine LookupHost client_get timed main_err))"
    by (simp add: demo_checks_def)
  have "valid_metric_name ''demo''"
    by (simp add: valid_metric_name_def name_char_def name_start_def)
  then show "\<forall>x \<in> set (demo_checks NumGoroutine LookupHost client_get timed main_err).
      registrable (wrap_opts ''demo'' (fst (snd x))) reg"
    using assms by (simp add: demo_checks_def registrable_def valid_wrap_opts utf8_rest_def)
qed

text \<open>
  C27. The example is never ready. On a registry where nothing clashes with its gauges the
  registrations go through, and as the HTTP client refuses a URL without a scheme, a GET of the readiness
  endpoint is answered 503 at all times, whatever the order of the checks, while the
  liveness endpoint is answered 200 up to 500 goroutines.
\<close>

theorem demo_never_ready:
  assumes "\<And>d w. \<exists>err w'. client_get ''google.com'' d w = (Inl err, w')"
    and "\<And>n. list_all (\<lambda>g. \<not> clashes (wrap_opts ''demo'' n) (fst g)) reg" and "Method r = ''GET''"
  shows "\<exists>h. demo_probe NumGoroutine LookupHost client_get timed main_err reg = Some h
    \<and> (enumerates rn (readinessChecks (handler h)) \<and> enumerates ln (livenessChecks (handler h)) \<longrightarrow>
        r_status (fst (ReadyEndpoint_m rn ln r h w)) = 503
      \<and> r_status (fst (LiveEndpoint_m ln r h w)) = (if NumGoroutine w > 500 then 503 else 200))"
proof -
  let ?xs = "demo_checks NumGoroutine LookupHost client_get timed main_err"
  let ?get = "HTTPGetCheck client_get ''google.com'' (500 * 1000000)"
  from demo_probe_fresh [OF assms(2)]
  obtain h where h: "exporting.add_checks ?xs (MakeProbe reg ''demo'') = Some h"
    unfolding demo_probe_def by blast
  note maps = exporting_maps [OF h]
  have get: "readinessChecks (handler h) ''google-httpcheck'' = Some ?get"
    and live: "livenessChecks (handler h) = [''routine_threshold'' \<mapsto> GoroutineCountCheck NumGoroutine 500]"
    by (simp_all add: maps demo_checks_def)
  have fails: "fst (?get w) \<noteq> None" for w
    using assms(1) [of "500 * 1000000" w] by (auto simp: HTTPGetCheck_def)
  have "r_status (fst (ReadyEndpoint_m rn ln r h w)) = 503
      \<and> r_status (fst (LiveEndpoint_m ln r h w)) = (if NumGoroutine w > 500 then 503 else 200)"
    if en: "enumerates rn (readinessChecks (handler h))" "enumerates ln (livenessChecks (handler h))"
  proof
    let ?ncs = "named (readinessChecks (handler h)) rn @ named (livenessChecks (handler h)) ln"
    obtain rs w' where o: "outcomes ?ncs w = (rs, w')" by force
    from en(1) get have "''google-httpcheck'' \<in> set rn" by (auto simp: enumerates_def)
    then have "(''google-httpcheck'', ?get) \<in> set ?ncs"
      using get by (force simp: named_def)
    from outcomes_failing [OF this fails o] collect_ready [OF en o] assms(3)
    show "r_status (fst (ReadyEndpoint_m rn ln r h w)) = 503"
      by (simp add: ReadyEndpoint_m_def ReadyEndpoint_def handle_def)
    from en(2) have "ln = [''routine_threshold'']"
      unfolding live by (rule enumerates_single)
    with assms(3) show "r_status (fst (LiveEndpoint_m ln r h w)) = (if NumGoroutine w > 500 then 503 else 200)"
      by (simp add: LiveEndpoint_m_def LiveEndpoint_def handle_def live GoroutineCountCheck_def Let_def)
  qed
  with h show ?thesis by (auto simp: demo_probe_def)
qed

text \<open>An HTTP client that knows that a URL needs a scheme, on a network that answers all.\<close>

definition sample_get :: "string \<Rightarrow> int \<Rightarrow> int \<Rightarrow> (string + int) \<times> int" where
  "sample_get url d w = (if strings_HasPrefix url ''http://'' then Inr 200
     else Inl (''Get '' @ url @ '': unsupported protocol scheme''), w)"

lemma demo_probe_names:
  assumes "demo_probe NumGoroutine LookupHost client_get timed main_err reg = Some h"
  shows "enumerates [''grpc'', ''google-httpcheck'', ''google-dnscheck''] (readinessChecks (handler h))
    \<and> enumerates [''routine_threshold''] (livenessChecks (handler h))"
  by (auto simp: exporting_maps [OF assms [unfolded demo_probe_def]] demo_checks_def enumerates_def
      split: if_splits)

theorem demo_never_ready_witness:
  "\<exists>h. demo_probe id (\<lambda>host d w. (Inr [''192.0.2.1''], w)) sample_get (\<lambda>c d. c) (\<lambda>w. None) [] = Some h
    \<and> r_status (fst (ReadyEndpoint_m [''grpc'', ''google-httpcheck'', ''google-dnscheck'']
        [''routine_threshold''] \<lparr>Method = ''GET'', query_full = ''1''\<rparr> h 12)) = 503
    \<and> r_status (fst (LiveEndpoint_m [''routine_threshold''] \<lparr>Method = ''GET'', query_full = ''1''\<rparr> h 12)) = 200"
proof -
  have get: "\<exists>err w'. sample_get ''google.com'' d w = (Inl err, w')" for d w
    by (simp add: sample_get_def strings_HasPrefix_def)
  from demo_never_ready [where client_get = sample_get and reg = "[]" and NumGoroutine = id
      and r = "\<lparr>Method = ''GET'', query_full = ''1''\<rparr>" and w = 12
      and LookupHost = "\<lambda>host d w. (Inr [''192.0.2.1''], w)" and timed = "\<lambda>c d. c" and main_err = "\<lambda>w. None"
      and rn = "[''grpc'', ''google-httpcheck'', ''google-dnscheck'']" and ln = "[''routine_threshold'']", OF get]
  show ?thesis using demo_probe_names by force
qed

section \<open>The multiplexer of the example\<close>

definition demo_mux :: "('f, 'd, MuxConn) http2_lib \<Rightarrow> rpcMux" where
  "demo_mux lib =
     (let rd = bufferedReader_Read conn_read;
          (httpLis, m1) = Match [HTTP1Fast rd []] (New False);
          (grpcLis, m2) = Match [HTTP2HeaderFieldPrefix lib rd ''content-type'' ''application/grpc''] m1
      in m2)"

text \<open>
  What the framer does on one stream: called in turn it yields the frames given, by reading
  from the reader it was made on.
\<close>

fun plays :: "('f, 'd, MuxConn) http2_lib \<Rightarrow> 'f \<Rightarrow> MuxConn \<Rightarrow> http2_frame list \<Rightarrow> bool" where
  "plays lib fr s [] \<longleftrightarrow> True"
| "plays lib fr s (x # xs) \<longleftrightarrow>
     (\<exists>fr' t. readFrame lib fr s = (Inr x, fr', t) \<and> mux_access\<^sup>*\<^sup>* s t \<and> plays lib fr' t xs)"

fun quiet :: "http2_frame \<Rightarrow> bool" where
  "quiet (SettingsFrame ack) = True"
| "quiet OtherFrame = True"
| "quiet _ = False"

lemma h2_waiting_trans:
  "h2_waiting lib ws b c \<Longrightarrow> h2_waiting lib ws a b \<Longrightarrow> h2_waiting lib ws a c"
  by (induction rule: h2_waiting.induct) (auto intro: h2_waiting.intros)

lemma plays_waiting:
  assumes "plays lib (h2_framer st) (h2_reader st) (fs @ [x])" and "\<forall>f \<in> set fs. quiet f"
  shows "\<exists>st' fr t. h2_waiting lib discardSettings st st'
    \<and> readFrame lib (h2_framer st') (h2_reader st') = (Inr x, fr, t) \<and> mux_access\<^sup>*\<^sup>* (h2_reader st) t"
  using assms
proof (induction fs arbitrary: st)
  case Nil
  then show ?case by (auto intro: h2_waiting.start)
next
  case (Cons f fs)
  then obtain fr t where f: "readFrame lib (h2_framer st) (h2_reader st) = (Inr f, fr, t)"
    "mux_access\<^sup>*\<^sup>* (h2_reader st) t" "plays lib fr t (fs @ [x])" by auto
  let ?st = "st\<lparr>h2_framer := fr, h2_reader := t\<rparr>"
  from Cons.prems(2) consider "f = SettingsFrame False" | "f = OtherFrame \<or> f = SettingsFrame True"
    by (cases f) auto
  then have "h2_waiting lib discardSettings st ?st"
  proof cases
    case 1
    with f(1) show ?thesis
      by (intro h2_waiting.settings [OF h2_waiting.start]) (simp_all add: discardSettings_def)
  next
    case 2
    from h2_waiting.other [OF h2_waiting.start f(1) 2] show ?thesis .
  qed
  with Cons.IH [of ?st] Cons.prems(2) f show ?case
    by (auto intro: h2_waiting_trans rtranclp_trans)
qed

text \<open>
  The first header block of a stream after the preface: frames without headers, then a
  HEADERS frame that decodes to \<open>hfs\<close> and ends the block or has the field asked for.
\<close>

definition first_headers :: "('f, 'd, MuxConn) http2_lib \<Rightarrow> bytes \<Rightarrow> string \<Rightarrow> HeaderField list \<Rightarrow> bool" where
  "first_headers lib st name hfs \<longleftrightarrow> (\<exists>fs flags frag d. (\<forall>f \<in> set fs. quiet f)
     \<and> (\<forall>s. br_clean conn_clean s \<and> br_pend conn_pend s = st \<longrightarrow>
          plays lib (newFramer lib) s (fs @ [HeadersFrame flags frag]))
     \<and> decoderWrite lib (newDecoder lib) frag = ((hfs, None), d)
     \<and> (flags AND FlagHeadersEndHeaders lib \<noteq> 0 \<or> (\<exists>hf \<in> set hfs. hf_Name hf = name)))"

lemma preface_at:
  assumes "br_clean conn_clean s" and "ClientPreface lib \<noteq> []"
  obtains t where "hasHTTP2Preface (bufferedReader_Read conn_read) (ClientPreface lib) s
      = Some (prefix (ClientPreface lib) (br_pend conn_pend s), t)"
    and "mux_access\<^sup>*\<^sup>* s t" and "br_clean conn_clean t"
    and "prefix (ClientPreface lib) (br_pend conn_pend s) \<Longrightarrow>
      br_pend conn_pend t = drop (length (ClientPreface lib)) (br_pend conn_pend s)"
proof -
  obtain t where t: "hasHTTP2Preface (bufferedReader_Read conn_read) (ClientPreface lib) s
      = Some (prefix (ClientPreface lib) (br_pend conn_pend s), t)"
    "reads (bufferedReader_Read conn_read) s t"
    "prefix (ClientPreface lib) (br_pend conn_pend s) \<longrightarrow>
      br_pend conn_pend s = ClientPreface lib @ br_pend conn_pend t"
    using clean_mux_conn.preface_loop [OF assms(1), of "[]" "ClientPreface lib"] assms(2)
    by (auto simp: hasHTTP2Preface_def)
  from t(3) have "prefix (ClientPreface lib) (br_pend conn_pend s) \<Longrightarrow>
      br_pend conn_pend t = drop (length (ClientPreface lib)) (br_pend conn_pend s)" by simp
  with t(1) reads_mux_access [OF t(2)] clean_mux_conn.reads_inv [OF t(2) assms(1)] show thesis
    by (rule that)
qed

lemma h2_declines:
  assumes "\<not> prefix (ClientPreface lib) st" and "ClientPreface lib \<noteq> []"
  shows "decides_at st (matchHTTP2Field lib (bufferedReader_Read conn_read) discardSettings name matches) False"
proof (unfold decides_at_def, intro allI impI)
  fix s
  assume s: "br_clean conn_clean s" "br_pend conn_pend s = st"
  from preface_at [OF s(1) assms(2)] obtain t where
    "hasHTTP2Preface (bufferedReader_Read conn_read) (ClientPreface lib) s
      = Some (prefix (ClientPreface lib) (br_pend conn_pend s), t)" "mux_access\<^sup>*\<^sup>* s t" by blast
  with assms(1) s(2) show "\<exists>t. matchHTTP2Field lib (bufferedReader_Read conn_read) discardSettings
      name matches s = Some (False, t) \<and> mux_access\<^sup>*\<^sup>* s t"
    by (simp add: matchHTTP2Field_def)
qed

lemma h2_decides:
  assumes "prefix (ClientPreface lib) st" and "ClientPreface lib \<noteq> []"
    and "first_headers lib (drop (length (ClientPreface lib)) st) name hfs"
  shows "decides_at st (matchHTTP2Field lib (bufferedReader_Read conn_read) discardSettings name matches)
    (\<exists>hf \<in> set hfs. hf_Name hf = name \<and> matches (hf_Value hf))"
proof (unfold decides_at_def, intro allI impI)
  fix s
  assume s: "br_clean conn_clean s" "br_pend conn_pend s = st"
  from preface_at [OF s(1) assms(2)] assms(1) s(2) obtain r0 where
    pre: "hasHTTP2Preface (bufferedReader_Read conn_read) (ClientPreface lib) s = Some (True, r0)"
    "mux_access\<^sup>*\<^sup>* s r0" "br_clean conn_clean r0"
    "br_pend conn_pend r0 = drop (length (ClientPreface lib)) st" by (metis (full_types))
  from assms(3) obtain fs flags frag d where law: "\<forall>f \<in> set fs. quiet f"
    "\<forall>s. br_clean conn_clean s \<and> br_pend conn_pend s = drop (length (ClientPreface lib)) st \<longrightarrow>
       plays lib (newFramer lib) s (fs @ [HeadersFrame flags frag])"
    "decoderWrite lib (newDecoder lib) frag = ((hfs, None), d)"
    "flags AND FlagHeadersEndHeaders lib \<noteq> 0 \<or> (\<exists>hf \<in> set hfs. hf_Name hf = name)"
    unfolding first_headers_def by blast
  from law(2) pre(3,4) have "plays lib (h2_framer (h2_init lib r0)) (h2_reader (h2_init lib r0))
      (fs @ [HeadersFrame flags frag])" by (simp add: h2_init_def)
  from plays_waiting [OF this law(1)] obtain st' fr t where run:
    "h2_waiting lib discardSettings (h2_init lib r0) st'"
    "readFrame lib (h2_framer st') (h2_reader st') = (Inr (HeadersFrame flags frag), fr, t)"
    "mux_access\<^sup>*\<^sup>* r0 t" by (auto simp: h2_init_def)
  from first_block [OF pre(1) run(1,2) law(3,4), of matches] rtranclp_trans [OF pre(2) run(3)]
  show "\<exists>t. matchHTTP2Field lib (bufferedReader_Read conn_read) discardSettings name matches s
      = Some (\<exists>hf \<in> set hfs. hf_Name hf = name \<and> matches (hf_Value hf), t) \<and> mux_access\<^sup>*\<^sup>* s t"
    by blast
qed

lemma method_not_preface:
  "s \<in> set defaultHTTPMethods \<Longrightarrow> prefix (bytes_of s) st \<Longrightarrow> \<not> prefix rfc7540_preface st"
  by (auto simp: defaultHTTPMethods_def rfc7540_preface_def bytes_of_def prefix_def byte_of_def)

abbreviation http_method :: "bytes \<Rightarrow> bool" where
  "http_method st \<equiv> \<exists>s \<in> set defaultHTTPMethods. prefix (bytes_of s) st"

lemma demo_mux_answers:
  assumes "decides_at st (HTTP2HeaderFieldPrefix lib (bufferedReader_Read conn_read)
    ''content-type'' ''application/grpc'') b"
  shows "answers st (sls (demo_mux lib)) [[http_method st], [b]]"
proof -
  have "decides_at st (HTTP1Fast (bufferedReader_Read conn_read) [])
      (recognises (map bytes_of defaultHTTPMethods) True st)"
    using decides_stream_at [OF decider_decides_stream [OF prefix_matcher.decider_axioms], of st defaultHTTPMethods]
    by (simp add: HTTP1Fast_def)
  moreover have "recognises (map bytes_of defaultHTTPMethods) True st = http_method st"
    by (rule sample_preds_eval(2))
  ultimately show ?thesis
    using assms by (simp add: demo_mux_def Match_def MatchWithWriters_def New_def Let_def)
qed

text \<open>What becomes of a connection: queued untouched for a listener, or closed and reported.\<close>

abbreviation sent_to :: "nat \<Rightarrow> net_conn \<Rightarrow> serve_result option \<Rightarrow> bool" where
  "sent_to i c r \<equiv> \<exists>muc. r = Some (Enqueue i muc) \<and> br_pend conn_pend muc = conn_pend c
     \<and> c_id (source muc) = c_id c \<and> c_closed (source muc) = c_closed c"

abbreviation turned_away :: "net_conn \<Rightarrow> serve_result option \<Rightarrow> bool" where
  "turned_away c r \<equiv> \<exists>muc err. r = Some (Unmatched muc err) \<and> c_id (source muc) = c_id c
     \<and> c_closed (source muc) = Suc (c_closed c) \<and> net_Temporary err = Some True"

lemma demo_mux_serves:
  assumes "conn_clean c" and "decides_at (conn_pend c) (HTTP2HeaderFieldPrefix lib
    (bufferedReader_Read conn_read) ''content-type'' ''application/grpc'') b"
  shows "if http_method (conn_pend c) then sent_to 0 c (serve (demo_mux lib) now c)
    else if b then sent_to 1 c (serve (demo_mux lib) now c) else turned_away c (serve (demo_mux lib) now c)"
proof -
  note served = serve_enqueues_at [OF assms(1) demo_mux_answers [OF assms(2)], of _ now]
  have "turned_away c (serve (demo_mux lib) now c)" if "\<not> http_method (conn_pend c)" "\<not> b"
    using serve_refuses_at [OF assms(1) demo_mux_answers [OF assms(2)], of now] that by auto
  moreover have "sent_to 0 c (serve (demo_mux lib) now c)" if "http_method (conn_pend c)"
    using served [of 0] that by auto
  moreover have "sent_to 1 c (serve (demo_mux lib) now c)" if "\<not> http_method (conn_pend c)" "b"
    using served [of 1] that by auto
  ultimately show ?thesis by simp
qed


text \<open>The witness: a gRPC call behind two frames without headers.\<close>

lemma scripted_plays: "plays (scripted_lib frames) fs s fs"
  by (induction fs) (auto simp: scripted_lib_def)


section \<open>Setting up\<close>

text \<open>
  How far \<open>main\<close> gets: it is ended by a fatal message, which runs no deferred call; it
  panics, which runs those deferred so far, last one first, and ends the program; or it goes
  on.
\<close>

datatype deferred = Cancel | LoggerSync | CloserClose | ConnClose

datatype 'r main_run = Exits string string | Crashes "deferred list" | Goes 'r "deferred list"

fun after :: "zap_end \<Rightarrow> deferred list \<Rightarrow> 'r main_run \<Rightarrow> 'r main_run" where
  "after GoesOn defers rest = rest"
| "after (FatalExit msg err) defers rest = Exits msg err"
| "after NilLogger defers rest = Crashes defers"

text \<open>A Go pair of a value and an error, of which one is nil.\<close>

fun err_of :: "string + 'a \<Rightarrow> string option" where
  "err_of (Inl err) = Some err"
| "err_of (Inr v) = None"

fun val_of :: "string + 'a \<Rightarrow> 'a option" where
  "val_of (Inl err) = None"
| "val_of (Inr v) = Some v"

text \<open>The libraries, the environment and the registries as \<open>main\<close> finds them.\<close>

record ('l, 'tr, 'w, 'p, 'reg, 'f, 'd, 'h) demo_env =
  grpc_collectors :: "string list"
  NewDevelopment :: "string + 'l"
  FromEnv :: "string + tracer_config"
  NewTracer :: "tracer_config \<Rightarrow> 'l \<Rightarrow> string + 'tr"
  NumGoroutine :: "'w \<Rightarrow> int"
  LookupHost :: "string \<Rightarrow> int \<Rightarrow> 'w \<Rightarrow> (string + string list) \<times> 'w"
  client_Get :: "string \<Rightarrow> int \<Rightarrow> 'w \<Rightarrow> (string + int) \<times> 'w"
  probe_Timeout :: "'w Check \<Rightarrow> int \<Rightarrow> 'w Check"
  main_err :: "'w \<Rightarrow> string option"
  default_gauges :: "'w gauges"
  icpts :: "(HelloRequest option, HelloResponse, 'p) icpt_lib"
  prom_interceptor :: 'p
  prom_Register :: "'p \<Rightarrow> 'reg \<Rightarrow> string option \<times> 'reg"
  default_registry :: 'reg
  net_Listen :: "string \<Rightarrow> string \<Rightarrow> string + tlistener"
  h2 :: "('f, 'd, MuxConn) http2_lib"
  debug_handler :: "string \<Rightarrow> 'h"

record ('l, 'tr, 'w, 'p, 'tls, 'h) demo_server =
  ds_reg :: registry
  ds_group :: "int \<times> Group"
  ds_logger :: 'l
  ds_zap :: "'l zap_world"
  ds_tracer :: 'tr
  ds_probe :: "'w metricsHandler"
  ds_grpc :: "(HelloRequest option, HelloResponse, 'p, 'tls) grpc_server"
  ds_conn :: connTrackListener
  ds_mux :: rpcMux
  ds_debug :: "string \<rightharpoonup> 'h"

text \<open>
  \<open>main\<close> up to the start of the group. The registry \<open>reg\<close> is new, and \<open>MustRegister\<close>
  registers the collectors of \<open>grpcMetrics\<close> with it, known by their names. The call of \<open>MakeGrpcServer\<close> lacks the
  interceptor, its third argument; it is taken from the environment here. What serves under
  a pattern of the debug server is a parameter.
\<close>

definition demo_setup :: "('l, 'tr, 'w, 'p, 'reg, 'f, 'd, 'h) demo_env \<Rightarrow> 'l zap_world \<Rightarrow>
    ('l, 'tr, 'w, 'p, 'tls, 'h) demo_server main_run" where
  "demo_setup env w =
     (case register_all (grpc_collectors env) [] of
        None \<Rightarrow> Crashes []
      | Some reg \<Rightarrow>
         (case MakeZapper (NewDevelopment env) True w of
           (z, w1) \<Rightarrow>
             after (ZapErr (val_of z) ''failed to create logger'' (err_of z)) [Cancel]
              (case val_of z of None \<Rightarrow> Crashes [Cancel] | Some logger \<Rightarrow>
               (case MakeTracer (FromEnv env) (NewTracer env) ''demo'' logger of
                  None \<Rightarrow> Crashes [LoggerSync, Cancel]
                | Some t \<Rightarrow>
                    after (ZapErr (Some logger) ''failed to create tracer'' (err_of t)) [LoggerSync, Cancel]
                     (case val_of t of None \<Rightarrow> Crashes [LoggerSync, Cancel] | Some tracer \<Rightarrow>
                      (case demo_probe (NumGoroutine env) (LookupHost env) (client_Get env) (probe_Timeout env)
                          (main_err env) (default_gauges env) of
                         None \<Rightarrow> Crashes [CloserClose, LoggerSync, Cancel]
                       | Some probe \<Rightarrow>
                           (let grpcServer = fst (MakeGrpcServer (icpts env) (prom_Register env)
                                  (prom_interceptor env) (default_registry env));
                                lis = net_Listen env ''tcp'' ('':'' @ ''8080'')
                            in after (ZapErr (Some logger) ''failed to create listener'' (err_of lis))
                                 [CloserClose, LoggerSync, Cancel]
                                (case val_of lis of None \<Rightarrow> Crashes [CloserClose, LoggerSync, Cancel] | Some conn \<Rightarrow>
                                 (case MakeDebugServer (debug_handler env) Map.empty of
                                    None \<Rightarrow> Crashes [CloserClose, LoggerSync, Cancel]
                                  | Some m \<Rightarrow>
                                      Goes \<lparr>ds_reg = reg, ds_group = MakeErrGrpWithDeadline 120,
                                        ds_logger = logger, ds_zap = w1, ds_tracer = tracer,
                                        ds_probe = probe, ds_grpc = grpcServer,
                                        ds_conn = WrapListener conn ''IAM:cert'' True True,
                                        ds_mux = demo_mux (h2 env), ds_debug = m\<rparr>
                                        [CloserClose, LoggerSync, Cancel])))))))))"

text \<open>The goroutine that \<open>WrapListener\<close> starts on that registry; \<open>None\<close> is its panic.\<close>

definition demo_listener_go :: "('l, 'tr, 'w, 'p, 'tls, 'h) demo_server \<Rightarrow> track \<Rightarrow> (registry \<times> track) option" where
  "demo_listener_go s w = WrapListener_go ''IAM:cert'' (ds_reg s) w"

text \<open>The end of \<open>main\<close>, with the result of \<open>Wait\<close>: its own return runs the deferred calls.\<close>

definition demo_end :: "'l \<Rightarrow> string option \<Rightarrow> deferred list \<Rightarrow> unit main_run" where
  "demo_end logger err defers =
     (if err \<noteq> None
      then after (ZapErr (Some logger) ''error sync problem: failed to close server'' err) defers
             (Goes () defers)
      else Goes () defers)"

lemma debug_server_fresh: "MakeDebugServer hs Map.empty = Some m \<Longrightarrow> dom m = set debug_patterns"
  using mux_handle_all_dom [of "map (\<lambda>p. (p, hs p)) debug_patterns" Map.empty m]
  by (simp add: MakeDebugServer_def image_image)

lemma debug_server_made: "MakeDebugServer hs Map.empty \<noteq> None"
  by (simp add: MakeDebugServer_def debug_patterns_def)

lemma MakeTracer_None: "MakeTracer e n name l = None \<longleftrightarrow> (\<exists>cfg. e = Inr cfg \<and> Sampler cfg = None)"
  by (auto simp: MakeTracer_def split: sum.split option.split)

lemma demo_deadline: "MakeErrGrpWithDeadline 120 = (120000000000, WithContext)"
  by (simp add: MakeErrGrpWithDeadline_def)

lemma listener_go_fresh:
  "register_all cs [] = Some reg \<Longrightarrow>
     WrapListener_go name reg w = None \<longleftrightarrow> set cs \<inter> set listener_collectors \<noteq> {}"
  by (auto simp: WrapListener_go_def register_all_spec [OF collectors_distinct(2)] register_all_set Let_def
      split: if_splits)

text \<open>
  C28. How the setup ends. A logger that cannot be made is never reported, since its fatal
  message goes to the nil logger: \<open>main\<close> panics. A tracer or a listener that cannot be made
  is reported and ends the program at once, so that what was deferred before does not run.
  Besides, only a tracer configuration without a sampler and what is registered twice make
  it panic. If the setup gets through, the debug server has all its patterns, the global
  logger is set, the listener is the tracked one of port 8080, whose own registration goes
  through unless a collector of gRPC has a name of its, the group ends after two minutes,
  and three calls are deferred.
\<close>

theorem demo_setup_ends:
  "(\<forall>err. register_all (grpc_collectors env) [] \<noteq> None \<and> NewDevelopment env = Inl err \<longrightarrow>
        demo_setup env w = Crashes [Cancel])
   \<and> (\<forall>msg err. demo_setup env w = Exits msg err \<longrightarrow>
        msg = ''failed to create tracer'' \<or>
        msg = ''failed to create listener'' \<and> net_Listen env ''tcp'' '':8080'' = Inl err)
   \<and> (\<forall>defers. demo_setup env w = Crashes defers \<longrightarrow>
        register_all (grpc_collectors env) [] = None
      \<or> (\<exists>err. NewDevelopment env = Inl err) \<or> (\<exists>cfg. FromEnv env = Inr cfg \<and> Sampler cfg = None)
      \<or> demo_probe (NumGoroutine env) (LookupHost env) (client_Get env) (probe_Timeout env)
          (main_err env) (default_gauges env) = None)
   \<and> (\<forall>s defers. demo_setup env w = Goes s defers \<longrightarrow>
        defers = [CloserClose, LoggerSync, Cancel] \<and> dom (ds_debug s) = set debug_patterns
      \<and> ds_group s = (120 * 1000000000, WithContext)
      \<and> (demo_listener_go s tr = None \<longleftrightarrow> set (grpc_collectors env) \<inter> set listener_collectors \<noteq> {})
      \<and> NewDevelopment env = Inr (ds_logger s) \<and> zap_global (ds_zap s) = Some (ds_logger s)
      \<and> (\<exists>lis. net_Listen env ''tcp'' '':8080'' = Inr lis
          \<and> ds_conn s = WrapListener lis ''IAM:cert'' True True))"
proof (cases "NewDevelopment env")
  case (Inl err)
  then show ?thesis
    by (simp add: demo_setup_def MakeZapper_def ZapErr_def split: option.split)
next
  case (Inr logger)
  show ?thesis
    by (simp add: demo_setup_def MakeZapper_def ZapErr_def Inr Let_def split: option.split prod.split)
      (auto simp: debug_server_fresh debug_server_made MakeTracer_None demo_deadline demo_listener_go_def
        listener_go_fresh elim!: val_of.elims err_of.elims)
qed

definition sample_env :: "(string, string, int, unit, unit, http2_frame list, unit, string) demo_env" where
  "sample_env = \<lparr>grpc_collectors = [''grpc_server_started_total''], NewDevelopment = Inr ''logger'',
     FromEnv = Inr \<lparr>Sampler = Some \<lparr>smp_Type = [], smp_Param = 0\<rparr>, ServiceName = [], RPCMetrics = False\<rparr>,
     NewTracer = (\<lambda>cfg l. Inr (ServiceName cfg)), NumGoroutine = id,
     LookupHost = (\<lambda>host d w. (Inr [''192.0.2.1''], w)), client_Get = sample_get,
     probe_Timeout = (\<lambda>c d. c), main_err = (\<lambda>w. None), default_gauges = [], icpts = sample_lib,
     prom_interceptor = (), prom_Register = (\<lambda>_ reg. (None, reg)), default_registry = (),
     net_Listen = (\<lambda>network addr. Inr []), h2 = scripted_lib grpc_frames, debug_handler = id\<rparr>"

definition sample_zap :: "string zap_world" where
  "sample_zap = \<lparr>zap_global = None, zap_debugs = []\<rparr>"

lemma sample_setup:
  "\<exists>s defers. (demo_setup sample_env sample_zap :: (string, string, int, unit, unit, string) demo_server main_run)
    = Goes s defers"
proof -
  obtain h where "demo_probe id (\<lambda>host d w. (Inr [''192.0.2.1''], w)) sample_get (\<lambda>c d. c) (\<lambda>w. None) [] = Some h"
    using demo_probe_fresh [of "[]"] by fastforce
  moreover obtain m where "MakeDebugServer id Map.empty = Some (m :: string \<rightharpoonup> string)"
    using debug_server_made by blast
  ultimately show ?thesis
    by (simp add: demo_setup_def sample_env_def MakeZapper_def MakeTracer_def ZapErr_def Let_def
        MustRegister_def)
qed

theorem demo_setup_ends_witness:
  "\<exists>s defers. (demo_setup sample_env sample_zap :: (string, string, int, unit, unit, string) demo_server main_run)
      = Goes s defers
    \<and> defers = [CloserClose, LoggerSync, Cancel] \<and> dom (ds_debug s) = set debug_patterns
    \<and> zap_global (ds_zap s) = Some ''logger''"
proof -
  from sample_setup obtain s :: "(string, string, int, unit, unit, string) demo_server" and defers
    where s: "demo_setup sample_env sample_zap = Goes s defers" by blast
  have "Inr ''logger'' = (Inr (ds_logger s) :: string + string)"
    using demo_setup_ends [THEN conjunct2, THEN conjunct2, THEN conjunct2, rule_format, OF s]
    by (simp add: sample_env_def)
  with s demo_setup_ends [THEN conjunct2, THEN conjunct2, THEN conjunct2, rule_format, OF s]
  show ?thesis by auto
qed

text \<open>
  C29. \<open>main\<close> always ends with its fatal message. Whenever the group's \<open>Wait\<close> has returned,
  its result is an error, so that the last \<open>ZapErr\<close> ends the program with the first error
  that a member reported, and the deferred calls (closing the tracer, flushing the logger,
  cancelling the context) never run.
\<close>

theorem demo_always_fatal:
  assumes "serving_step\<^sup>*\<^sup>* (serving_start m) s" and "sv_waited s = Some r"
  shows "\<exists>err. first_error (sv_results s) = Some err
    \<and> demo_end logger r defers = Exits ''error sync problem: failed to close server'' err"
proof -
  from serving_waited_error [OF assms] obtain err where "r = Some err" "first_error (sv_results s) = Some err"
    by (metis option.exhaust)
  then show ?thesis by (simp add: demo_end_def ZapErr_def)
qed

theorem demo_always_fatal_witness:
  "\<exists>s r err. serving_step\<^sup>*\<^sup>* (serving_start any_mux) s \<and> sv_waited s = Some r
    \<and> demo_end () r [CloserClose, LoggerSync, Cancel]
        = Exits ''error sync problem: failed to close server'' err"
proof -
  obtain s r where s: "serving_step\<^sup>*\<^sup>* (serving_start any_mux) s" "sv_waited s = Some r"
    using any_mux_waits by blast
  from s demo_always_fatal [OF s, of "()" "[CloserClose, LoggerSync, Cancel]"] show ?thesis by blast
qed

end
