(* ===== verification/AllMatchers.thy ===== *)
theory AllMatchers
  imports SilentPeer
begin

text \<open>
  What the multiplexer asks of its matchers, proved of every matcher \<open>rpc/mux.go\<close> exports: on
  any connection, with faults or without, a matcher does not loop for ever, and it only reads
  from the connection and writes to it; so it returns if its reads do. The parts of it outside the repository (the HTTP/2 framer,
  \<open>http.ReadRequest\<close>) are assumed to behave as documented.
\<close>

section \<open>The contract\<close>

definition behaves :: "MatchWriter \<Rightarrow> bool" where
  "behaves mw \<longleftrightarrow> (\<forall>s. br_inv (\<lambda>_. True) s \<longrightarrow> (\<exists>b t. mw s = Some (b, t) \<and> mux_access\<^sup>*\<^sup>* s t))"

lemma behavesI [intro?]:
  "(\<And>s. br_inv (\<lambda>_. True) s \<Longrightarrow> \<exists>b t. mw s = Some (b, t) \<and> mux_access\<^sup>*\<^sup>* s t) \<Longrightarrow> behaves mw"
  by (simp add: behaves_def)

lemma behaves_iff: "behaves mw \<longleftrightarrow> matcher_ok mw \<and> matcher_returns mw"
  unfolding behaves_def matcher_ok_def matcher_returns_def by fastforce

lemma mux_access_br_inv: "mux_access s t \<Longrightarrow> br_inv (\<lambda>_. True) s \<Longrightarrow> br_inv (\<lambda>_. True) t"
  unfolding mux_access_def read_step_def
  by (auto dest: mux_conn.read_inv) (simp add: br_inv_def)

lemma mux_accesses_br_inv: "mux_access\<^sup>*\<^sup>* s t \<Longrightarrow> br_inv (\<lambda>_. True) s \<Longrightarrow> br_inv (\<lambda>_. True) t"
  by (induction rule: rtranclp_induct) (auto intro: mux_access_br_inv)

text \<open>
  A matcher that accepts only connections whose bytes to come satisfy \<open>P\<close>; what this says of
  the connections \<open>serve\<close> queues.
\<close>

definition accepts_only :: "MatchWriter \<Rightarrow> (bytes \<Rightarrow> bool) \<Rightarrow> bool" where
  "accepts_only mw P \<longleftrightarrow>
     (\<forall>s t. br_inv (\<lambda>_. True) s \<longrightarrow> mw s = Some (True, t) \<longrightarrow> P (br_pend conn_pend s))"

lemma try_matchers_accepts:
  "\<forall>mw \<in> set mws. matcher_ok mw \<and> accepts_only mw P \<Longrightarrow> try_matchers mws s = Some (True, t) \<Longrightarrow>
     P (br_total conn_pend s)"
proof (induction mws arbitrary: s)
  case (Cons mw mws)
  then obtain b u where u: "mw (startSniffing s) = Some (b, u)"
    and t: "b \<or> try_matchers mws u = Some (True, t)"
    by (auto simp: run_matcher_eq split: option.splits if_splits)
  have inv: "br_inv (\<lambda>_. True) (startSniffing s)" by (simp add: startSniffing_def br_inv_reset)
  show ?case
  proof (cases b)
    case True
    with Cons.prems(1) inv u have "P (br_pend conn_pend (startSniffing s))" by (auto simp: accepts_only_def)
    then show ?thesis by (simp add: startSniffing_def br_pend_reset)
  next
    case False
    have "mux_access\<^sup>*\<^sup>* (startSniffing s) u" using Cons.prems(1) inv u by (auto simp: matcher_ok_def)
    then have "br_total conn_pend u = br_total conn_pend s"
      by (intro sniff_session_total) (simp add: sniff_session_def)
    with Cons.IH [of u] Cons.prems(1) t False show ?thesis by simp
  qed
qed simp

lemma try_listeners_accepts:
  "\<forall>j < length lns. \<forall>mw \<in> set (ss (lns ! j)). matcher_ok mw \<and> accepts_only mw (P (k + j)) \<Longrightarrow>
     try_listeners k lns s = Some (Some i, t) \<Longrightarrow> P i (br_total conn_pend s)"
proof (induction lns arbitrary: k s)
  case (Cons sl lns)
  then obtain b u where u: "try_matchers (ss sl) s = Some (b, u)"
    and t: "if b then i = k else try_listeners (Suc k) lns u = Some (Some i, t)"
    by (auto split: option.splits bool.splits)
  have first: "\<forall>mw \<in> set (ss sl). matcher_ok mw \<and> accepts_only mw (P k)"
    using Cons.prems(1) by (auto dest: spec [where x = "0 :: nat"])
  show ?case
  proof (cases b)
    case True
    with try_matchers_accepts [OF first, of s u] u t show ?thesis by simp
  next
    case False
    have "br_total conn_pend u = br_total conn_pend s"
      using try_matchers_total [OF _ u] first by blast
    moreover have "\<forall>j < length lns. \<forall>mw \<in> set (ss (lns ! j)). matcher_ok mw \<and> accepts_only mw (P (Suc k + j))"
      using Cons.prems(1) by (metis Suc_less_eq add_Suc_shift length_Cons nth_Cons_Suc)
    ultimately show ?thesis using Cons.IH [of "Suc k" u] t False by simp
  qed
qed simp

lemma serve_accepts:
  assumes "\<forall>j < length (sls m). \<forall>mw \<in> set (ss (sls m ! j)). matcher_ok mw \<and> accepts_only mw (P j)"
    and "serve m now c = Some (Enqueue i muc)"
  shows "P i (conn_pend c)"
proof -
  obtain t where t: "try_listeners 0 (sls m) (newMuxConn (serve_conn m now c)) = Some (Some i, t)"
    using assms(2) by (auto simp: serve_eq split: option.splits)
  have "br_total conn_pend (newMuxConn (serve_conn m now c)) = conn_pend c"
    by (simp add: br_total_def newMuxConn_def)
  with try_listeners_accepts [of "sls m" P 0, OF _ t] assms(1) show ?thesis by simp
qed

lemma prefix_accepts:
  "accepts_only (PrefixMatcher (bufferedReader_Read conn_read) strs) (recognises (map bytes_of strs) True)"
  unfolding accepts_only_def
proof (intro allI impI)
  fix s t
  let ?d = "maxDepth (newTreeString strs)"
  assume inv: "br_inv (\<lambda>_. True) s" and yes: "PrefixMatcher (bufferedReader_Read conn_read) strs s = Some (True, t)"
  obtain bs e u where full: "readFull (bufferedReader_Read conn_read) ?d s = Some ((bs, e), u)"
    and pend: "br_pend conn_pend s = bs @ br_pend conn_pend u" and len: "length bs \<le> ?d"
    by (rule mux_conn.readFull_returns [OF inv])
  from yes full len have "match (root (newTreeString strs)) (take ?d bs) True"
    by (simp add: PrefixMatcher_def Tree_matchPrefix_def)
  then have "recognises (map bytes_of strs) True bs"
    using match_newTree [of "map bytes_of strs" bs True] by (simp add: newTreeString_def)
  then show "recognises (map bytes_of strs) True (br_pend conn_pend s)"
    unfolding pend recognises_def by (auto simp: prefix_append)
qed

section \<open>HTTP/1\<close>

lemma fill_reads: "bufio_fill rd bcap i buf r = ((buf', e), t) \<Longrightarrow> reads rd r t"
proof (induction rd bcap i buf r arbitrary: buf' e t rule: bufio_fill.induct)
  case (2 rd bcap i buf r)
  obtain bs err u where read: "rd r (bcap - length buf) = ((bs, err), u)" by (metis surj_pair)
  with reads_one [of rd, OF read] 2 show ?case by (auto split: if_splits intro: reads_more)
qed simp

lemma ReadSlice_reads: "bufio_ReadSlice rd bcap delim buf err r = ((l, e), t) \<Longrightarrow> reads rd r t"
proof (induction rd bcap delim buf err r arbitrary: l e t rule: bufio_ReadSlice.induct)
  case (1 rd bcap delim buf err r)
  obtain buf' err' u where fill: "bufio_fill rd bcap 100 buf r = ((buf', err'), u)" by (metis surj_pair)
  from fill_reads [OF fill] 1 fill show ?case
    by (auto simp: bufio_ReadSlice.simps [of rd bcap delim buf err r] split: option.splits if_splits
        intro: rtranclp_trans)
qed

lemma HTTP1_behaves: "behaves (HTTP1 parseHTTPVersion (bufferedReader_Read conn_read))"
proof
  fix s :: MuxConn
  let ?rd = "bufferedReader_Read conn_read"
  obtain l err t N where slice:
    "bufio_ReadSlice (limited_read ?rd) 4096 10 [] None (s, maxHTTPRead) = ((l, err), (t, N))"
    by (metis surj_pair)
  have "reads ?rd s t" using limited_reads [OF ReadSlice_reads [OF slice]] by simp
  then show "\<exists>b u. HTTP1 parseHTTPVersion ?rd s = Some (b, u) \<and> mux_access\<^sup>*\<^sup>* s u"
    by (auto simp: HTTP1_def bufio_ReadLine_def slice Let_def split: prod.splits intro: reads_mux_access)
qed

text \<open>
  What \<open>http.ReadRequest\<close> documents as far as a matcher depends on it: it parses a request
  from the reader it is given, and returns it or an error.
\<close>

definition request_law :: "(MuxConn \<Rightarrow> ((ioerr + 'req) \<times> MuxConn) option) \<Rightarrow> bool" where
  "request_law readRequest \<longleftrightarrow> (\<forall>s. br_inv (\<lambda>_. True) s \<longrightarrow>
     (\<exists>r t. readRequest s = Some (r, t) \<and> reads (bufferedReader_Read conn_read) s t))"

lemma HTTP1Field_behaves:
  assumes "request_law readRequest"
  shows "behaves (matchHTTP1Field readRequest get name matches)"
proof
  fix s :: MuxConn
  assume "br_inv (\<lambda>_. True) s"
  with assms obtain r t where "readRequest s = Some (r, t)" "reads (bufferedReader_Read conn_read) s t"
    unfolding request_law_def by blast
  then show "\<exists>b t. matchHTTP1Field readRequest get name matches s = Some (b, t) \<and> mux_access\<^sup>*\<^sup>* s t"
    by (cases r) (auto simp: matchHTTP1Field_def intro: reads_mux_access)
qed

section \<open>HTTP/2\<close>

context io_reader
begin

lemma preface_returns:
  "inv r \<Longrightarrow> length b < length preface \<Longrightarrow>
     \<exists>m t. hasHTTP2Preface_loop rd preface b r = Some (m, t) \<and> reads rd r t"
proof (induction "budget r" arbitrary: b r rule: less_induct)
  case less
  obtain bs e t where read: "rd r (length preface - length b) = ((bs, e), t)"
    by (metis surj_pair)
  note step = hasHTTP2Preface_step [of rd r preface b, OF read] and one = reads_one [of rd, OF read]
  show ?case
  proof (cases "e = None \<and> length (b @ bs) \<noteq> length preface \<and> prefix (b @ bs) preface")
    case True
    then have "budget t < budget r" and "length (b @ bs) < length preface"
      using read_budget [OF less.prems(1), of _ bs t] read less.prems(2)
        read_length [OF less.prems(1) read] by auto
    from less.hyps [OF this(1) read_inv [OF less.prems(1) read] this(2)]
    obtain m u where "hasHTTP2Preface_loop rd preface (b @ bs) t = Some (m, u)" "reads rd t u" by blast
    with True one show ?thesis by (auto simp: step intro: rtranclp_trans)
  next
    case False
    with one show ?thesis by (auto simp: step)
  qed
qed

end

context io_reader
begin

lemma preface_sound:
  "inv r \<Longrightarrow> length b < length preface \<Longrightarrow> hasHTTP2Preface_loop rd preface b r = Some (True, t) \<Longrightarrow>
     prefix preface (b @ pend r)"
proof (induction "budget r" arbitrary: b r rule: less_induct)
  case less
  obtain bs e u where read: "rd r (length preface - length b) = ((bs, e), u)"
    by (metis surj_pair)
  note step = hasHTTP2Preface_step [of rd r preface b, OF read]
  have pend: "b @ pend r = (b @ bs) @ pend u" using read_pend [OF less.prems(1) read] by simp
  show ?case
  proof (cases "length (b @ bs) = length preface")
    case True
    with less.prems(3) have "b @ bs = preface" by (auto simp: step split: if_splits)
    then show ?thesis unfolding pend by simp
  next
    case False
    with less.prems(3) have rest: "e = None" "hasHTTP2Preface_loop rd preface (b @ bs) u = Some (True, t)"
      by (auto simp: step split: if_splits)
    then have "budget u < budget r" and "length (b @ bs) < length preface"
      using read_budget [OF less.prems(1), of _ bs u] read less.prems(2) False
        read_length [OF less.prems(1) read] by auto
    from less.hyps [OF this(1) read_inv [OF less.prems(1) read] this(2) rest(2)] show ?thesis unfolding pend .
  qed
qed

end

lemma preface_behaves:
  assumes "preface \<noteq> []"
  shows "behaves (hasHTTP2Preface (bufferedReader_Read conn_read) preface)"
proof
  fix s :: MuxConn
  assume "br_inv (\<lambda>_. True) s"
  from mux_conn.preface_returns [OF this, of "[]" preface] assms
  show "\<exists>b t. hasHTTP2Preface (bufferedReader_Read conn_read) preface s = Some (b, t) \<and> mux_access\<^sup>*\<^sup>* s t"
    by (auto simp: hasHTTP2Preface_def intro: reads_mux_access)
qed

text \<open>
  What \<open>Framer.ReadFrame\<close> documents: it works on the connection by reading from the reader it
  was made on, and a frame it returns has been read (at least its nine bytes of header).
  \<open>WriteSettings\<close> writes to the connection and reads nothing.
\<close>

definition framer_law :: "('f, 'd, MuxConn) http2_lib \<Rightarrow> bool" where
  "framer_law lib \<longleftrightarrow> (\<forall>fr s r fr' t. br_inv (\<lambda>_. True) s \<and> readFrame lib fr s = (r, fr', t) \<longrightarrow>
     mux_access\<^sup>*\<^sup>* s t \<and> (isl r \<or> br_budget conn_budget t < br_budget conn_budget s))"

definition settings_law :: "(MuxConn \<Rightarrow> ioerr option \<times> MuxConn) \<Rightarrow> bool" where
  "settings_law ws \<longleftrightarrow> (\<forall>s. \<exists>bs. snd (ws s) = s\<lparr>source := conn_write bs (source s)\<rparr>)"

lemma settings_access:
  assumes "settings_law ws" and "ws s = (e, t)"
  shows "mux_access\<^sup>*\<^sup>* s t" and "br_budget conn_budget t = br_budget conn_budget s"
proof -
  from assms obtain bs where t: "t = s\<lparr>source := conn_write bs (source s)\<rparr>"
    unfolding settings_law_def by (metis snd_conv)
  then show "mux_access\<^sup>*\<^sup>* s t" by (auto simp: mux_access_def intro!: r_into_rtranclp)
  show "br_budget conn_budget t = br_budget conn_budget s"
    by (simp add: t br_budget_def conn_write_def conn_budget_def)
qed

lemma discardSettings_law: "settings_law discardSettings"
  unfolding settings_law_def discardSettings_def conn_write_def
  by (intro allI exI [of _ "[]"]) simp

text \<open>One iteration: what it does after the frame is read is at most a write.\<close>

lemma h2_step_access:
  assumes "settings_law ws" and "readFrame lib (h2_framer st) (h2_reader st) = (r, fr, t)"
  shows "case matchHTTP2Field_step lib ws name matches st of
      Inl (m, u) \<Rightarrow> mux_access\<^sup>*\<^sup>* t u
    | Inr st' \<Rightarrow> \<not> isl r \<and> mux_access\<^sup>*\<^sup>* t (h2_reader st')
        \<and> br_budget conn_budget (h2_reader st') = br_budget conn_budget t"
proof (cases "r = Inr (SettingsFrame False)")
  case True
  obtain e u where ws: "ws t = (e, u)" by (cases "ws t")
  with settings_access [OF assms(1) ws] assms(2) True show ?thesis
    by (auto simp: matchHTTP2Field_step_def Let_def split: option.splits)
next
  case False
  with assms(2) show ?thesis
    by (auto simp: matchHTTP2Field_step_def h2_fragment_def Let_def
        split: sum.splits prod.splits http2_frame.splits if_splits)
qed

lemma h2_loop_returns:
  assumes "framer_law lib" and "settings_law ws"
  shows "br_inv (\<lambda>_. True) (h2_reader st) \<Longrightarrow>
    \<exists>m t. matchHTTP2Field_loop lib ws name matches st = Some (m, t)
      \<and> mux_access\<^sup>*\<^sup>* (h2_reader st) t"
proof (induction "br_budget conn_budget (h2_reader st)" arbitrary: st rule: less_induct)
  case less
  obtain r fr t where frame: "readFrame lib (h2_framer st) (h2_reader st) = (r, fr, t)"
    by (metis surj_pair)
  with assms(1) less.prems have t: "mux_access\<^sup>*\<^sup>* (h2_reader st) t"
    "isl r \<or> br_budget conn_budget t < br_budget conn_budget (h2_reader st)"
    unfolding framer_law_def by blast+
  note loop = matchHTTP2Field_loop.simps [of lib ws name matches st]
    and access = h2_step_access [OF assms(2) frame, of name matches]
  show ?case
  proof (cases "matchHTTP2Field_step lib ws name matches st")
    case (Inl a)
    with access t(1) show ?thesis by (cases a) (auto simp: loop intro: rtranclp_trans)
  next
    case (Inr st')
    with access have st': "\<not> isl r" "mux_access\<^sup>*\<^sup>* t (h2_reader st')"
      "br_budget conn_budget (h2_reader st') = br_budget conn_budget t" by simp_all
    have run: "mux_access\<^sup>*\<^sup>* (h2_reader st) (h2_reader st')" using t(1) st'(2) by (rule rtranclp_trans)
    with st' t(2) less.prems less.hyps [of st'] mux_accesses_br_inv [OF run]
    obtain m u where "matchHTTP2Field_loop lib ws name matches st' = Some (m, u)" "mux_access\<^sup>*\<^sup>* (h2_reader st') u"
      by auto
    with Inr run show ?thesis by (auto simp: loop intro: rtranclp_trans)
  qed
qed

lemma HTTP2Field_behaves:
  assumes "framer_law lib" and "settings_law ws" and "ClientPreface lib \<noteq> []"
  shows "behaves (matchHTTP2Field lib (bufferedReader_Read conn_read) ws name matches)"
proof
  fix s :: MuxConn
  assume inv: "br_inv (\<lambda>_. True) s"
  with preface_behaves [OF assms(3)] obtain m r where
    pre: "hasHTTP2Preface (bufferedReader_Read conn_read) (ClientPreface lib) s = Some (m, r)" "mux_access\<^sup>*\<^sup>* s r"
    unfolding behaves_def by blast
  have "h2_reader (h2_init lib r) = r" by (simp add: h2_init_def)
  with h2_loop_returns [OF assms(1,2), of "h2_init lib r" name matches] mux_accesses_br_inv [OF pre(2) inv]
  obtain m' t where "matchHTTP2Field_loop lib ws name matches (h2_init lib r) = Some (m', t)" "mux_access\<^sup>*\<^sup>* r t"
    by auto
  with pre show "\<exists>b t. matchHTTP2Field lib (bufferedReader_Read conn_read) ws name matches s = Some (b, t)
      \<and> mux_access\<^sup>*\<^sup>* s t"
    unfolding matchHTTP2Field_def by (cases m) (auto intro: rtranclp_trans)
qed

lemma HTTP2Field_accepts:
  assumes "ClientPreface lib \<noteq> []"
  shows "accepts_only (matchHTTP2Field lib (bufferedReader_Read conn_read) ws name matches) (prefix (ClientPreface lib))"
  unfolding accepts_only_def
proof (intro allI impI)
  fix s t
  assume inv: "br_inv (\<lambda>_. True) s"
    and yes: "matchHTTP2Field lib (bufferedReader_Read conn_read) ws name matches s = Some (True, t)"
  then obtain r where "hasHTTP2Preface (bufferedReader_Read conn_read) (ClientPreface lib) s = Some (True, r)"
    by (auto simp: matchHTTP2Field_def split: option.splits prod.splits bool.splits)
  with mux_conn.preface_sound [OF inv, of "[]" "ClientPreface lib" r] assms
  show "prefix (ClientPreface lib) (br_pend conn_pend s)" by (simp add: hasHTTP2Preface_def)
qed

section \<open>Every matcher of the package\<close>

text \<open>
  The values the exported functions of \<open>rpc/mux.go\<close> return, as \<open>Match\<close> and
  \<open>MatchWithWriters\<close> take them.
\<close>

inductive package_matcher :: "('f, 'd, MuxConn) http2_lib \<Rightarrow> (MuxConn \<Rightarrow> ioerr option \<times> MuxConn) \<Rightarrow>
    (MuxConn \<Rightarrow> ((ioerr + 'req) \<times> MuxConn) option) \<Rightarrow> MatchWriter \<Rightarrow> bool"
  for lib ws readRequest where
  "package_matcher lib ws readRequest Any"
| "package_matcher lib ws readRequest (PrefixMatcher (bufferedReader_Read conn_read) strs)"
| "package_matcher lib ws readRequest (HTTP1Fast (bufferedReader_Read conn_read) methods)"
| "package_matcher lib ws readRequest (TLS (bufferedReader_Read conn_read) versions)"
| "package_matcher lib ws readRequest (HTTP1 parseHTTPVersion (bufferedReader_Read conn_read))"
| "package_matcher lib ws readRequest (HTTP2 lib (bufferedReader_Read conn_read))"
| "package_matcher lib ws readRequest (HTTP1HeaderField readRequest get name value)"
| "package_matcher lib ws readRequest (HTTP1HeaderFieldPrefix readRequest get name value)"
| "package_matcher lib ws readRequest (HTTP2HeaderField lib (bufferedReader_Read conn_read) name value)"
| "package_matcher lib ws readRequest (HTTP2HeaderFieldPrefix lib (bufferedReader_Read conn_read) name value)"
| "package_matcher lib ws readRequest
     (HTTP2MatchHeaderFieldSendSettings lib (bufferedReader_Read conn_read) ws name value)"
| "package_matcher lib ws readRequest
     (HTTP2MatchHeaderFieldPrefixSendSettings lib (bufferedReader_Read conn_read) ws name value)"

lemma package_matcher_behaves:
  assumes "framer_law lib" and "settings_law ws" and "ClientPreface lib \<noteq> []" and "request_law readRequest"
    and "package_matcher lib ws readRequest mw"
  shows "behaves mw"
  using assms(5)
  by cases (simp_all add: prefix_matchers_qualify behaves_iff [THEN iffD2] HTTP1Fast_def HTTP1_behaves HTTP2_def
      preface_behaves [OF assms(3)] HTTP1HeaderField_def HTTP1HeaderFieldPrefix_def HTTP1Field_behaves [OF assms(4)]
      HTTP2HeaderField_def HTTP2HeaderFieldPrefix_def HTTP2MatchHeaderFieldSendSettings_def
      HTTP2MatchHeaderFieldPrefixSendSettings_def HTTP2Field_behaves [OF assms(1-3)]
      HTTP2Field_behaves [OF assms(1) discardSettings_law assms(3)])

text \<open>
  C10. When matching ends. A multiplexer whose listeners use any of the package's matchers gets
  to the end of \<open>serve\<close> for a connection whose peer sends what it likes, with or without
  faults, and then ends its stream; if the multiplexer has a read timeout, also for one whose
  peer stays silent. A connection that is queued goes to a registered listener, still open and
  readable from its first byte; one that is refused has been closed exactly once.
\<close>

theorem package_mux_serves:
  assumes "framer_law lib" and "settings_law ws" and "ClientPreface lib \<noteq> []" and "request_law readRequest"
    and "\<forall>sl \<in> set (sls m). \<forall>mw \<in> set (ss sl). package_matcher lib ws readRequest mw"
    and "\<not> c_waits c" and "\<not> c_silent c \<or> noTimeout < readTimeout m"
  shows "case serve m now c of
      None \<Rightarrow> False
    | Some (Enqueue i muc) \<Rightarrow> i < length (sls m) \<and> c_id (source muc) = c_id c
        \<and> c_closed (source muc) = c_closed c \<and> br_pend conn_pend muc = conn_pend c
    | Some (Unmatched muc err) \<Rightarrow> c_id (source muc) = c_id c \<and> c_closed (source muc) = Suc (c_closed c)"
proof -
  from assms(5) package_matcher_behaves [OF assms(1-4)] have "matchers_ok m" "matchers_return m"
    by (auto simp: matchers_ok_def matchers_return_def behaves_iff)
  moreover have "reads_return (serve_conn m now c)"
    using assms(6,7) by (auto simp: reads_return_def serve_conn_def SetReadDeadline_def)
  ultimately show ?thesis
    using serve_total [of m now c] serve_same [of m now c] serve_stream [of m now c] serve_bound [of m now c]
    by (auto simp: conn_key_def dropped_key_def split: option.split serve_result.split) arith
qed

text \<open>
  A framer that meets the law: it reads nine bytes for each frame, none of which has headers.
\<close>

definition reading_lib :: "(unit, unit, MuxConn) http2_lib" where
  "reading_lib = \<lparr>ClientPreface = rfc7540_preface, FlagHeadersEndHeaders = 4, newFramer = (),
     readFrame = (\<lambda>fr s. case bufferedReader_Read conn_read s 9 of
       ((bs, None), t) \<Rightarrow> (Inr OtherFrame, fr, t) | ((bs, Some e), t) \<Rightarrow> (Inl e, fr, t)),
     newDecoder = (), decoderWrite = (\<lambda>d frag. (([], None), d))\<rparr>"

lemma reading_lib_law: "framer_law reading_lib" "ClientPreface reading_lib = rfc7540_preface"
proof -
  have "mux_access\<^sup>*\<^sup>* s t \<and> (isl r \<or> br_budget conn_budget t < br_budget conn_budget s)"
    if "br_inv (\<lambda>_. True) s" and "readFrame reading_lib fr s = (r, fr', t)" for fr s r fr' t
  proof -
    obtain bs e u where read: "bufferedReader_Read conn_read s 9 = ((bs, e), u)" by (metis surj_pair)
    with that(2) have "u = t" "e = None \<or> isl r" by (auto simp: reading_lib_def split: option.splits)
    with reads_mux_access [OF reads_one [of "bufferedReader_Read conn_read", OF read]]
      mux_conn.read_budget [OF that(1), of 9 bs t] read show ?thesis by auto
  qed
  then show "framer_law reading_lib" unfolding framer_law_def by blast
  show "ClientPreface reading_lib = rfc7540_preface" by (simp add: reading_lib_def)
qed

text \<open>A parser that reads once, and a writer of the empty settings frame.\<close>

definition read_once :: "MuxConn \<Rightarrow> ((ioerr + bytes) \<times> MuxConn) option" where
  "read_once s = (case bufferedReader_Read conn_read s 4096 of
     ((bs, None), t) \<Rightarrow> Some (Inr bs, t) | ((bs, Some e), t) \<Rightarrow> Some (Inl e, t))"

definition write_settings :: "MuxConn \<Rightarrow> ioerr option \<times> MuxConn" where
  "write_settings s = (None, s\<lparr>source := conn_write [0, 0, 0, 4, 0, 0, 0, 0, 0] (source s)\<rparr>)"

lemma sample_laws: "request_law read_once" "settings_law write_settings"
proof -
  show "settings_law write_settings" unfolding settings_law_def write_settings_def by auto
  have "\<exists>r t. read_once s = Some (r, t) \<and> reads (bufferedReader_Read conn_read) s t" for s
  proof -
    obtain bs e t where read: "bufferedReader_Read conn_read s 4096 = ((bs, e), t)" by (metis surj_pair)
    with reads_one [of "bufferedReader_Read conn_read", OF read] show ?thesis
      by (auto simp: read_once_def split: option.split)
  qed
  then show "request_law read_once" by (simp add: request_law_def)
qed

definition mixed_mux :: rpcMux where
  "mixed_mux = snd (MatchWithWriters
     [HTTP2MatchHeaderFieldSendSettings reading_lib (bufferedReader_Read conn_read) write_settings
        ''content-type'' ''application/grpc'']
     (snd (Match [HTTP1HeaderField read_once (\<lambda>req name. string_of req) ''Host'' ''example.com''] (New False))))"

theorem package_mux_serves_witness:
  "serve mixed_mux 0 sample_conn \<noteq> None
   \<and> serve (SetReadTimeout 5000000000 mixed_mux) 0 silent_client \<noteq> None"
proof -
  have package: "package_matcher reading_lib write_settings read_once mw"
    if "sl \<in> set (sls mixed_mux)" "mw \<in> set (ss sl)" for sl mw
    using that by (auto simp: mixed_mux_def Match_def MatchWithWriters_def New_def Let_def intro: package_matcher.intros)
  note serves = package_mux_serves [OF reading_lib_law(1) sample_laws(2) _ sample_laws(1)]
  have "serve mixed_mux 0 sample_conn \<noteq> None"
    using serves [where m = mixed_mux and now = 0 and c = sample_conn] package
    by (auto simp: reading_lib_law(2) split: option.splits)
  moreover have "serve (SetReadTimeout 5000000000 mixed_mux) 0 silent_client \<noteq> None"
    using serves [where m = "SetReadTimeout 5000000000 mixed_mux" and now = 0 and c = silent_client] package
      silent_client(1)
    by (auto simp: reading_lib_law(2) SetReadTimeout_def noTimeout_def arrives_def split: option.splits)
  ultimately show ?thesis by blast
qed

end
