(* ===== verification/DemoSystem.thy ===== *)
theory DemoSystem
  imports GotilServe AllMatchers
begin

text \<open>
  The example server as a running whole: the composed system of \<open>ServeGroup\<close> on the
  multiplexer the example configures, whose matchers behave on any connection by the lemmas of
  \<open>AllMatchers\<close>.
\<close>

section \<open>The example's multiplexer\<close>

lemma demo_mux_configured: "configured (demo_mux lib)"
proof -
  have "demo_mux lib = snd (Match [HTTP2HeaderFieldPrefix lib (bufferedReader_Read conn_read)
      ''content-type'' ''application/grpc''] (snd (Match [HTTP1Fast (bufferedReader_Read conn_read) []] (New False))))"
    by (simp add: demo_mux_def Let_def case_prod_unfold)
  then show ?thesis by (simp only:) (intro configured.intros)
qed

lemma demo_mux_sls:
  "\<exists>l1 l2. sls (demo_mux lib) = [\<lparr>ss = [PrefixMatcher (bufferedReader_Read conn_read) defaultHTTPMethods], ml_l = l1\<rparr>,
     \<lparr>ss = [matchHTTP2Field lib (bufferedReader_Read conn_read) discardSettings ''content-type''
        (\<lambda>v. strings_HasPrefix v ''application/grpc'')], ml_l = l2\<rparr>]
   \<and> readTimeout (demo_mux lib) = noTimeout"
  by (simp add: demo_mux_def Match_def MatchWithWriters_def New_def Let_def HTTP1Fast_def HTTP2HeaderFieldPrefix_def)

lemma demo_mux_qualifies:
  assumes "framer_law lib" and "ClientPreface lib \<noteq> []"
  shows "matchers_ok (demo_mux lib)" and "matchers_return (demo_mux lib)"
  using HTTP2Field_behaves [OF assms(1) discardSettings_law assms(2)] prefix_matchers_qualify(1,2) demo_mux_sls [of lib]
  by (auto simp: behaves_iff matchers_ok_def matchers_return_def)

section \<open>What the running example delivers\<close>

definition demo_stream :: "nat \<Rightarrow> bytes \<Rightarrow> bool" where
  "demo_stream i st \<longleftrightarrow> i = 0 \<and> http_method st \<or> i = 1 \<and> prefix rfc7540_preface st"

lemma demo_mux_enqueues:
  assumes "framer_law lib" and "ClientPreface lib = rfc7540_preface"
    and "serve (demo_mux lib) now c = Some (Enqueue i muc)"
  shows "demo_stream i (conn_pend c)"
proof (rule serve_accepts [OF _ assms(3)])
  have pre: "ClientPreface lib \<noteq> []" using assms(2) by simp
  obtain l1 l2 where sls: "sls (demo_mux lib) = [\<lparr>ss = [PrefixMatcher (bufferedReader_Read conn_read) defaultHTTPMethods], ml_l = l1\<rparr>,
     \<lparr>ss = [matchHTTP2Field lib (bufferedReader_Read conn_read) discardSettings ''content-type''
        (\<lambda>v. strings_HasPrefix v ''application/grpc'')], ml_l = l2\<rparr>]"
    using demo_mux_sls by blast
  have "demo_stream 0 = recognises (map bytes_of defaultHTTPMethods) True"
    by (rule ext) (simp add: demo_stream_def sample_preds_eval(2))
  moreover have "demo_stream 1 = prefix (ClientPreface lib)"
    using assms(2) by (intro ext) (simp add: demo_stream_def)
  ultimately have "\<forall>mw \<in> set (ss (sls (demo_mux lib) ! j)). accepts_only mw (demo_stream j)"
    if "j < Suc (Suc 0)" for j
    using that prefix_accepts [of defaultHTTPMethods] HTTP2Field_accepts [OF pre]
    unfolding sls by (cases j) (simp_all add: less_Suc_eq)
  moreover have "\<forall>mw \<in> set (ss (sls (demo_mux lib) ! j)). matcher_ok mw"
    if "j < Suc (Suc 0)" for j
    using demo_mux_qualifies(1) [OF assms(1) pre] that unfolding matchers_ok_def sls by (cases j) (simp_all add: less_Suc_eq)
  ultimately show "\<forall>j < length (sls (demo_mux lib)). \<forall>mw \<in> set (ss (sls (demo_mux lib) ! j)).
      matcher_ok mw \<and> accepts_only mw (demo_stream j)"
    by (simp add: sls)
qed

text \<open>
  The clients the multiplexer is done with: those that end their stream, and those that have
  sent the first eight bytes of an HTTP/1 request, whatever they do then. A client that sends
  fewer bytes and stays keeps it waiting, because the example sets no read timeout.
\<close>

definition http_request :: "net_conn \<Rightarrow> bool" where
  "http_request c \<longleftrightarrow> arrives c \<and> http_method (conn_pend c) \<and> 8 \<le> length (conn_pend c)"

lemma demo_matching_returns:
  assumes "framer_law lib" and "ClientPreface lib \<noteq> []"
    and "\<forall>c. Started c \<in> set (gos s) \<longrightarrow> reads_return c \<or> http_request c"
  shows "matching_returns (demo_mux lib) s"
  unfolding matching_returns_def
proof (intro allI impI)
  fix c now
  assume "Started c \<in> set (gos s)"
  with assms(3) consider "reads_return c" | "http_request c" by blast
  then show "serve (demo_mux lib) now c \<noteq> None"
  proof cases
    case 1
    then have "reads_return (serve_conn (demo_mux lib) now c)"
      using demo_mux_sls [of lib] by (auto simp: serve_conn_def)
    then show ?thesis by (rule serve_total [OF demo_mux_qualifies [OF assms(1,2)]])
  next
    case 2
    then have "\<exists>muc. serve (demo_mux lib) now c = Some (Enqueue 0 muc)"
      using demo_mux_sls [of lib]
      by (elim exE conjE) (rule serve_prefix_first(1) [where strs = defaultHTTPMethods and mws = "[]"];
        simp add: http_request_def http_depth sample_preds_eval(2))
    then show ?thesis by auto
  qed
qed

lemma demo_stuck:
  assumes "arrives c" and "starved c" and "length (conn_pend c) < 8"
  shows "serve (demo_mux lib) now c = None"
  using demo_mux_sls [of lib] assms
  by (elim exE conjE) (rule serve_prefix_first(2) [where strs = defaultHTTPMethods and mws = "[]"]; simp add: http_depth)

text \<open>
  C9. The example as a whole. In every reachable state of the composed server on the example's
  multiplexer, whatever its clients send: each connection handed out is one that was accepted,
  readable from its first byte, to the debug server if it begins with an HTTP/1 method and to
  the gRPC server if it begins with the HTTP/2 preface. When the context is done and every
  client whose connection is being matched either ends its stream or has sent eight bytes of an
  HTTP/1 request, the program finishes by its own steps. But one client that has sent fewer
  than eight bytes and stays silent keeps \<open>Wait\<close> from returning for ever. When \<open>Wait\<close> has
  returned, with an error, every connection accepted was handed out or closed.
\<close>

theorem demo_system:
  assumes "framer_law lib" and "ClientPreface lib = rfc7540_preface"
    and "serving_step\<^sup>*\<^sup>* (serving_start (demo_mux lib)) s"
  shows "(\<forall>(i, muc) \<in> set (delivered (sv_mux s)). \<exists>c \<in> set (accepted (sv_mux s)).
        c_id (source muc) = c_id c \<and> br_pend conn_pend muc = conn_pend c
      \<and> (i = 0 \<and> http_method (conn_pend c) \<or> i = 1 \<and> prefix rfc7540_preface (conn_pend c)))
    \<and> (sv_ctx s \<and> (\<forall>c. Started c \<in> set (gos (sv_mux s)) \<longrightarrow> reads_return c \<or> http_request c) \<longrightarrow>
        (\<exists>t. serving_own\<^sup>*\<^sup>* s t \<and> sv_waited t \<noteq> None))
    \<and> (\<forall>c t. Started c \<in> set (gos (sv_mux s)) \<and> arrives c \<and> starved c \<and> length (conn_pend c) < 8
        \<and> serving_step\<^sup>*\<^sup>* s t \<longrightarrow> sv_waited t = None)
    \<and> (\<forall>r. sv_waited s = Some r \<longrightarrow> r \<noteq> None
      \<and> image_mset c_id (mset (accepted (sv_mux s))) =
          image_mset (c_id \<circ> source \<circ> snd) (mset (delivered (sv_mux s)))
          + image_mset c_id (mset (dropped (sv_mux s))))"
proof -
  have pre: "ClientPreface lib \<noteq> []" using assms(2) by simp
  note ok = demo_mux_qualifies [OF assms(1) pre] and conf = demo_mux_configured [of lib]
    and run = serving_parts_start(1) [OF assms(3)]
  have delivers: "\<exists>c \<in> set (accepted (sv_mux s)). c_id (source muc) = c_id c \<and> br_pend conn_pend muc = conn_pend c
      \<and> (i = 0 \<and> http_method (conn_pend c) \<or> i = 1 \<and> prefix rfc7540_preface (conn_pend c))"
    if "(i, muc) \<in> set (delivered (sv_mux s))" for i muc
    using delivers_routed_stream [OF conf ok(1) run that] demo_mux_enqueues [OF assms(1,2), unfolded demo_stream_def]
    by blast
  have ends: "\<exists>t. serving_own\<^sup>*\<^sup>* s t \<and> sv_waited t \<noteq> None"
    if "sv_ctx s" "\<forall>c. Started c \<in> set (gos (sv_mux s)) \<longrightarrow> reads_return c \<or> http_request c"
    using serving_finishes [OF conf _ demo_matching_returns [OF assms(1) pre that(2)]] that(1) assms(3)
    by (simp add: serving_ready_def)
  have stuck: "sv_waited t = None" if "Started c \<in> set (gos (sv_mux s))" "arrives c" "starved c"
    "length (conn_pend c) < 8" "serving_step\<^sup>*\<^sup>* s t" for c t
    using stuck_forever [OF conf assms(3) that(1) demo_stuck [OF that(2-4)] that(5)] by blast
  have all: "r \<noteq> None \<and> image_mset c_id (mset (accepted (sv_mux s))) =
      image_mset (c_id \<circ> source \<circ> snd) (mset (delivered (sv_mux s))) + image_mset c_id (mset (dropped (sv_mux s)))"
    if "sv_waited s = Some r" for r
  proof -
    from serving_reach_inv [OF assms(3)] have "serving_links s" by blast
    from this that obtain err where "main (sv_mux s) = Returned err" by (rule waited_members)
    from mux_conserved_returned [OF conf ok(1) run this] serving_waited_error(1) [OF assms(3) that]
    show ?thesis
      by (auto dest!: arg_cong [where f = "image_mset fst"] simp: multiset.map_comp comp_def case_prod_unfold)
  qed
  from delivers ends stuck all show ?thesis by blast
qed

theorem demo_system_witness:
  "\<exists>t. serving_step\<^sup>*\<^sup>* (serving_start (demo_mux reading_lib)) t \<and> sv_waited t \<noteq> None
    \<and> image_mset c_id (mset (accepted (sv_mux t))) =
        image_mset (c_id \<circ> source \<circ> snd) (mset (delivered (sv_mux t))) + image_mset c_id (mset (dropped (sv_mux t)))"
proof -
  let ?s = "(serving_start (demo_mux reading_lib))\<lparr>sv_ctx := True\<rparr>"
  have "gos (sv_mux ?s) = []" by (simp add: serving_start_def mux_start_def)
  with demo_system [OF reading_lib_law late_start]
  obtain t where t: "serving_own\<^sup>*\<^sup>* ?s t" "sv_waited t \<noteq> None"
    by auto
  have run: "serving_step\<^sup>*\<^sup>* (serving_start (demo_mux reading_lib)) t"
    using late_start own_steps [OF t(1)] by (rule rtranclp_trans)
  from t(2) demo_system [OF reading_lib_law run] run show ?thesis by blast
qed

end
