(* ===== verification/GotilClient.thy ===== *)
theory GotilClient
  imports GotilServe Conntrack
begin

text \<open>
  The example client \<open>example/gotil/main.go\<close>: its setup, the goroutine that calls the
  service every three seconds, the loop over standard input that ends the program, and the
  dialer that \<open>init\<close> puts under the default HTTP transport. The example takes the dialer from
  \<open>go-conntrack\<close>, of which \<open>rpc/mux.go\<close> holds a copy; here it is the repository's own.
\<close>

section \<open>Setting up\<close>

record ('l, 'tr, 'p, 'o, 'conn) client_env =
  cenv_NewDevelopment :: "string + 'l"
  cenv_FromEnv :: "string + tracer_config"
  cenv_NewTracer :: "tracer_config \<Rightarrow> 'l \<Rightarrow> string + 'tr"
  NewInterceptor :: "'o \<Rightarrow> 'p"
  zero_opts :: 'o
  grpc_Dial :: "string \<Rightarrow> ('tr, 'p) dial_option list \<Rightarrow> string + 'conn"

definition client_setup :: "('l, 'tr, 'p, 'o, 'conn) client_env \<Rightarrow> 'l zap_world \<Rightarrow> ('l \<times> 'conn) main_run" where
  "client_setup env w =
     (let z = fst (MakeZapper (cenv_NewDevelopment env) True w)
      in after (ZapErr (val_of z) ''failed to create logger'' (err_of z)) []
          (case val_of z of None \<Rightarrow> Crashes [] | Some logger \<Rightarrow>
           (case MakeTracer (cenv_FromEnv env) (cenv_NewTracer env) ''demo'' logger of
              None \<Rightarrow> Crashes [LoggerSync]
            | Some t \<Rightarrow>
                after (ZapErr (Some logger) ''failed to create tracer'' (err_of t)) [LoggerSync]
                 (case val_of t of None \<Rightarrow> Crashes [LoggerSync] | Some tracer \<Rightarrow>
                  (let metrics = RegGrpcServerMetrics (NewInterceptor env) (zero_opts env) False;
                       c = MakeGrpcClient (grpc_Dial env) ''8080'' tracer metrics
                   in after (ZapErr (Some logger) ''failed to create grpc dialer'' (err_of c))
                        [CloserClose, LoggerSync]
                       (case val_of c of None \<Rightarrow> Crashes [CloserClose, LoggerSync] | Some conn \<Rightarrow>
                          Goes (logger, conn) [ConnClose, CloserClose, LoggerSync]))))))"

section \<open>Calling and scanning\<close>

text \<open>
  The program after its setup. \<open>ca_stdin\<close> are the texts that have come and that the scanner
  has not yet yielded; \<open>ca_closed\<close> holds when no more will come (at the end of the input, on an
  error or an overlong line). Until then more may come at any time, and \<open>Scan\<close> waits when
  nothing is there. \<open>main\<close> scans, has left through \<open>os.Exit\<close>, or has returned, which runs the
  deferred calls; both ends end the goroutine, too. What was typed and the results of the
  calls are kept as histories.
\<close>

datatype client_main = Scanning | OSExit nat | MainReturned "deferred list"

datatype caller_go = CallingHello | SleepingThree | CallerReturned

datatype client_log = LogInfo string string | LogDebug string

record client_app =
  ca_stdin :: "string list"
  ca_closed :: bool
  ca_typed :: "string list"
  ca_main :: client_main
  ca_caller :: caller_go
  ca_results :: "string option list"
  ca_log :: "client_log list"

definition client_start :: client_app where
  "client_start = \<lparr>ca_stdin = [], ca_closed = False, ca_typed = [], ca_main = Scanning,
     ca_caller = CallingHello, ca_results = [], ca_log = []\<rparr>"

definition client_defers :: "deferred list" where
  "client_defers = [ConnClose, CloserClose, LoggerSync]"

inductive caller_step :: "client_app \<Rightarrow> client_app \<Rightarrow> bool" where
  hello_ok: "ca_main s = Scanning \<Longrightarrow> ca_caller s = CallingHello \<Longrightarrow>
    caller_step s (s\<lparr>ca_caller := SleepingThree, ca_results := ca_results s @ [None]\<rparr>)"
| hello_fails: "ca_main s = Scanning \<Longrightarrow> ca_caller s = CallingHello \<Longrightarrow>
    caller_step s (s\<lparr>ca_caller := CallerReturned, ca_results := ca_results s @ [Some err],
      ca_log := ca_log s @ [LogInfo ''Calling the SayHello method unsuccessfully. ErrorInfo: %+v'' err,
        LogDebug ''You should stop the process'']\<rparr>)"
| hello_wakes: "ca_main s = Scanning \<Longrightarrow> ca_caller s = SleepingThree \<Longrightarrow>
    caller_step s (s\<lparr>ca_caller := CallingHello\<rparr>)"

inductive scan_step :: "client_app \<Rightarrow> client_app \<Rightarrow> bool" where
  scan_line: "ca_main s = Scanning \<Longrightarrow> ca_stdin s = l # ls \<Longrightarrow>
    scan_step s (s\<lparr>ca_stdin := ls, ca_main := (if ToLower l = ''n'' then OSExit 0 else Scanning)\<rparr>)"
| scan_end: "ca_main s = Scanning \<Longrightarrow> ca_stdin s = [] \<Longrightarrow> ca_closed s \<Longrightarrow>
    scan_step s (s\<lparr>ca_main := MainReturned client_defers\<rparr>)"

text \<open>What the user does: another line, or the end of the input.\<close>

inductive stdin_step :: "client_app \<Rightarrow> client_app \<Rightarrow> bool" where
  types_line: "\<not> ca_closed s \<Longrightarrow>
    stdin_step s (s\<lparr>ca_stdin := ca_stdin s @ [l], ca_typed := ca_typed s @ [l]\<rparr>)"
| closes_input: "\<not> ca_closed s \<Longrightarrow> stdin_step s (s\<lparr>ca_closed := True\<rparr>)"

definition client_app_step :: "client_app \<Rightarrow> client_app \<Rightarrow> bool" where
  "client_app_step s t \<longleftrightarrow> caller_step s t \<or> scan_step s t \<or> stdin_step s t"

section \<open>How the client ends\<close>

text \<open>Whether one of the lines asks the client to stop.\<close>

definition asks_stop :: "string list \<Rightarrow> bool" where
  "asks_stop ls \<longleftrightarrow> ''n'' \<in> set ls \<or> ''N'' \<in> set ls"

lemma asks_stop_simps [simp]:
  "\<not> asks_stop []" "asks_stop (l # ls) \<longleftrightarrow> l \<in> {''n'', ''N''} \<or> asks_stop ls"
  "asks_stop (ls @ ls') \<longleftrightarrow> asks_stop ls \<or> asks_stop ls'"
  by (auto simp: asks_stop_def)

lemma lower_n: "lower c = CHR ''n'' \<longleftrightarrow> c = CHR ''n'' \<or> c = CHR ''N''"
proof -
  have "of_char c = (78 :: nat) \<longleftrightarrow> c = CHR ''N''"
    using of_char_eq_iff [of c "CHR ''N''", where ?'a = nat] by simp
  moreover have "char_of (of_char c + 32 :: nat) = CHR ''n'' \<longleftrightarrow> of_char c = (78 :: nat)"
    if "of_char c \<le> (90 :: nat)"
    using that by (auto simp: char_of_eq_iff take_bit_eq_mod)
  ultimately show ?thesis by (auto simp: lower_def)
qed

lemma ToLower_n: "ToLower l = ''n'' \<longleftrightarrow> l \<in> {''n'', ''N''}"
  by (auto simp: ToLower_def lower_n map_eq_Cons_conv)

text \<open>
  The invariant: what was typed is what was read and what is still there, main ends as the
  lines read say, and the calls before the last have succeeded.
\<close>

definition scan_inv :: "string list \<Rightarrow> client_app \<Rightarrow> bool" where
  "scan_inv rd s \<longleftrightarrow> ca_typed s = rd @ ca_stdin s
   \<and> (case ca_main s of
        Scanning \<Rightarrow> \<not> asks_stop rd
      | OSExit k \<Rightarrow> k = 0 \<and> asks_stop rd
      | MainReturned ds \<Rightarrow> ds = client_defers \<and> \<not> asks_stop rd \<and> ca_stdin s = [] \<and> ca_closed s)"

definition calls_inv :: "client_app \<Rightarrow> bool" where
  "calls_inv s \<longleftrightarrow>
     (if ca_caller s = CallerReturned
      then \<exists>oks err. ca_results s = oks @ [Some err] \<and> set oks \<subseteq> {None}
        \<and> ca_log s = [LogInfo ''Calling the SayHello method unsuccessfully. ErrorInfo: %+v'' err,
            LogDebug ''You should stop the process'']
      else set (ca_results s) \<subseteq> {None} \<and> ca_log s = [])"

lemma scan_inv_step:
  assumes "client_app_step s t" and "scan_inv rd s"
  shows "\<exists>rd'. scan_inv rd' t"
  using assms unfolding client_app_step_def
proof (elim disjE)
  assume "scan_step s t"
  then show ?thesis
  proof cases
    case (scan_line l ls)
    with assms(2) have "scan_inv (rd @ [l]) t" by (auto simp: scan_inv_def ToLower_n)
    then show ?thesis ..
  next
    case scan_end
    with assms(2) have "scan_inv rd t" by (auto simp: scan_inv_def)
    then show ?thesis ..
  qed
qed (auto simp: scan_inv_def elim!: caller_step.cases stdin_step.cases split: client_main.splits)

lemma calls_inv_step: "client_app_step s t \<Longrightarrow> calls_inv s \<Longrightarrow> calls_inv t"
  unfolding client_app_step_def
  by (elim disjE caller_step.cases scan_step.cases stdin_step.cases) (auto simp: calls_inv_def)

interpretation client: transition_system "\<lambda>s. s = client_start" client_app_step
    "\<lambda>s. (\<exists>rd. scan_inv rd s) \<and> calls_inv s"
proof (unfold_locales, goal_cases)
  case (1 s)
  then have "scan_inv [] s \<and> calls_inv s" by (simp add: scan_inv_def calls_inv_def client_start_def)
  then show ?case by blast
qed (use scan_inv_step calls_inv_step in blast)

text \<open>What is left to scan.\<close>

definition scan_work :: "client_app \<Rightarrow> nat" where
  "scan_work s = (if ca_main s = Scanning then Suc (length (ca_stdin s)) else 0)"

lemma scan_step_frame:
  "scan_step s t \<Longrightarrow> scan_work t < scan_work s \<and> ca_typed t = ca_typed s \<and> ca_closed t = ca_closed s"
  by (auto simp: scan_work_def elim!: scan_step.cases)

lemma scan_steps_frame:
  "scan_step\<^sup>*\<^sup>* s t \<Longrightarrow> client_app_step\<^sup>*\<^sup>* s t \<and> ca_typed t = ca_typed s \<and> ca_closed t = ca_closed s"
  by (induction rule: rtranclp_induct)
    (auto simp: client_app_step_def scan_step_frame intro: rtranclp.rtrancl_into_rtrancl)

lemma scan_can_step: "(\<exists>t. scan_step s t) \<longleftrightarrow> ca_main s = Scanning \<and> (ca_stdin s \<noteq> [] \<or> ca_closed s)"
proof
  assume "\<exists>t. scan_step s t"
  then obtain t where "scan_step s t" ..
  then show "ca_main s = Scanning \<and> (ca_stdin s \<noteq> [] \<or> ca_closed s)" by cases simp_all
next
  assume r: "ca_main s = Scanning \<and> (ca_stdin s \<noteq> [] \<or> ca_closed s)"
  then show "\<exists>t. scan_step s t"
    by (cases "ca_stdin s") (use scan_line [of s] scan_end [of s] in blast)+
qed

lemma scan_finishes:
  "ca_closed s \<or> asks_stop (ca_stdin s) \<Longrightarrow> \<exists>t. scan_step\<^sup>*\<^sup>* s t \<and> ca_main t \<noteq> Scanning"
proof (induction "scan_work s" arbitrary: s rule: less_induct)
  case less
  show ?case
  proof (cases "ca_main s = Scanning")
    case True
    with less.prems obtain u where u: "scan_step s u" using scan_can_step by fastforce
    then have "ca_main u \<noteq> Scanning \<or> ca_closed u \<or> asks_stop (ca_stdin u)"
      using less.prems by cases (auto simp: ToLower_n)
    then obtain t where "scan_step\<^sup>*\<^sup>* u t" "ca_main t \<noteq> Scanning"
      using less.hyps [of u] scan_step_frame [OF u] by blast
    with u show ?thesis by (blast intro: converse_rtranclp_into_rtranclp)
  qed blast
qed

abbreviation failure_log :: "string \<Rightarrow> client_log list" where
  "failure_log err \<equiv> [LogInfo ''Calling the SayHello method unsuccessfully. ErrorInfo: %+v'' err,
     LogDebug ''You should stop the process'']"

lemma failed_call:
  assumes "calls_inv s" and "i < length (ca_results s)" and "ca_results s ! i = Some err"
  shows "i = length (ca_results s) - 1 \<and> ca_caller s = CallerReturned \<and> ca_log s = failure_log err"
proof -
  have some: "Some err \<in> set (ca_results s)" using assms(2,3) by (metis nth_mem)
  with assms(1) have ret: "ca_caller s = CallerReturned" by (auto simp: calls_inv_def split: if_splits)
  with assms(1) obtain oks e where r: "ca_results s = oks @ [Some e]" "set oks \<subseteq> {None}"
    "ca_log s = failure_log e" by (auto simp: calls_inv_def)
  have "oks ! i = None" if "i < length oks" using r(2) that by (auto dest: nth_mem)
  with r(1) assms(2,3) have "i = length oks" by (auto simp: nth_append split: if_splits)
  with r ret assms(3) show ?thesis by simp
qed

lemma client_main_end:
  assumes "scan_inv rd s" and "ca_main s \<noteq> Scanning"
  shows "if asks_stop (ca_typed s) then ca_main s = OSExit 0
    else ca_main s = MainReturned client_defers \<and> ca_closed s \<and> ca_stdin s = []"
  using assms by (cases "ca_main s") (auto simp: scan_inv_def)

lemma client_can_end:
  assumes run: "client_app_step\<^sup>*\<^sup>* client_start s"
  shows "(\<exists>t. scan_step\<^sup>*\<^sup>* s t \<and> ca_main t \<noteq> Scanning) \<longleftrightarrow> asks_stop (ca_typed s) \<or> ca_closed s"
proof
  assume "\<exists>t. scan_step\<^sup>*\<^sup>* s t \<and> ca_main t \<noteq> Scanning"
  then obtain t where t: "scan_step\<^sup>*\<^sup>* s t" "ca_main t \<noteq> Scanning" by blast
  from rtranclp_trans [OF run scan_steps_frame [OF t(1), THEN conjunct1]]
  obtain rd where "scan_inv rd t" using client.reach_inv [of t] by (auto simp: reach_def)
  from client_main_end [OF this t(2)] scan_steps_frame [OF t(1)]
  show "asks_stop (ca_typed s) \<or> ca_closed s" by (auto split: if_splits)
next
  assume ends: "asks_stop (ca_typed s) \<or> ca_closed s"
  from run obtain rd where "scan_inv rd s" using client.reach_inv [of s] by (auto simp: reach_def)
  with ends have "ca_main s = Scanning \<Longrightarrow> ca_closed s \<or> asks_stop (ca_stdin s)"
    by (auto simp: scan_inv_def)
  then show "\<exists>t. scan_step\<^sup>*\<^sup>* s t \<and> ca_main t \<noteq> Scanning"
    using scan_finishes [of s] by (cases "ca_main s = Scanning") blast+
qed

text \<open>
  C30. The client. What is typed alone decides how it ends, however the calls go and
  interleave with the typing: a line \<open>n\<close> or \<open>N\<close> ends it with status 0, without closing the
  connection or the tracer or flushing the logger; without such a line \<open>main\<close> returns, and
  does so, only at the end of the input. The loop can get to an end without further input
  exactly if such a line was typed or the input has ended; before, it scans what is there and
  then waits. No step of it goes round in circles, and the calls neither help nor hinder it.
  The calls before a failed one succeeded, none follows it, and it leaves the two messages
  behind while the program goes on.
\<close>

theorem client_ends:
  assumes "client_app_step\<^sup>*\<^sup>* client_start s"
  shows "(ca_main s \<noteq> Scanning \<longrightarrow>
        (if ''n'' \<in> set (ca_typed s) \<or> ''N'' \<in> set (ca_typed s) then ca_main s = OSExit 0
         else ca_main s = MainReturned [ConnClose, CloserClose, LoggerSync] \<and> ca_closed s \<and> ca_stdin s = []))
    \<and> ((\<exists>t. scan_step\<^sup>*\<^sup>* s t \<and> ca_main t \<noteq> Scanning)
        \<longleftrightarrow> ''n'' \<in> set (ca_typed s) \<or> ''N'' \<in> set (ca_typed s) \<or> ca_closed s)
    \<and> ((\<exists>t. scan_step s t) \<longleftrightarrow> ca_main s = Scanning \<and> (ca_stdin s \<noteq> [] \<or> ca_closed s))
    \<and> (\<forall>t. scan_step s t \<longrightarrow> scan_work t < scan_work s)
    \<and> (\<forall>t. caller_step s t \<longrightarrow> scan_work t = scan_work s)
    \<and> (\<forall>i err. i < length (ca_results s) \<and> ca_results s ! i = Some err \<longrightarrow>
        i = length (ca_results s) - 1 \<and> ca_caller s = CallerReturned
      \<and> ca_log s = failure_log err)"
proof -
  obtain rd where rd: "scan_inv rd s" and calls: "calls_inv s"
    using assms client.reach_inv [of s] by (auto simp: reach_def)
  have "\<forall>t. caller_step s t \<longrightarrow> scan_work t = scan_work s"
    by (auto simp: scan_work_def elim!: caller_step.cases)
  then show ?thesis
    using client_main_end [OF rd] client_can_end [OF assms] scan_can_step [of s] scan_step_frame failed_call [OF calls]
    unfolding asks_stop_def client_defers_def by blast
qed

text \<open>
  The witness: while nothing is typed the client waits; a call fails, and then a line ends
  the client.
\<close>

theorem client_ends_witness:
  "(\<nexists>t. scan_step client_start t) \<and> (\<nexists>t. scan_step\<^sup>*\<^sup>* client_start t \<and> ca_main t \<noteq> Scanning)
   \<and> (\<exists>s. client_app_step\<^sup>*\<^sup>* client_start s \<and> ca_main s = OSExit 0 \<and> \<not> ca_closed s
       \<and> ca_results s = [Some ''down''] \<and> ca_caller s = CallerReturned)"
proof -
  let ?s0 = client_start
  obtain s1 where s1: "caller_step ?s0 s1" "ca_main s1 = Scanning" "ca_stdin s1 = []" "\<not> ca_closed s1"
    "ca_results s1 = [Some ''down'']"
    using hello_fails [of ?s0 "''down''"] by (force simp: client_start_def)
  obtain s2 where s2: "stdin_step s1 s2" "ca_main s2 = Scanning" "ca_stdin s2 = [''N'']" "\<not> ca_closed s2"
    "ca_results s2 = [Some ''down'']"
    using types_line [OF s1(4), of "''N''"] s1 by force
  obtain s3 where s3: "scan_step s2 s3" "ca_main s3 \<noteq> Scanning" "\<not> ca_closed s3" "ca_results s3 = [Some ''down'']"
    using scan_line [OF s2(2,3)] s2(4,5) by (force simp: ToLower_n)
  have "client_app_step ?s0 s1" "client_app_step s1 s2" "client_app_step s2 s3"
    using s1(1) s2(1) s3(1) by (simp_all add: client_app_step_def)
  then have run: "client_app_step\<^sup>*\<^sup>* ?s0 s3"
    by (meson converse_rtranclp_into_rtranclp rtranclp.rtrancl_refl)
  have "0 < length (ca_results s3)" "ca_results s3 ! 0 = Some ''down''" using s3(4) by simp_all
  with client_ends [OF run] s3(2-4)
  have "ca_main s3 = OSExit 0" "ca_caller s3 = CallerReturned" by (auto split: if_splits)
  moreover have "(\<nexists>t. scan_step ?s0 t) \<and> (\<nexists>t. scan_step\<^sup>*\<^sup>* ?s0 t \<and> ca_main t \<noteq> Scanning)"
    using client_ends [of ?s0] by (simp add: client_start_def)
  ultimately show ?thesis using run s3(3,4) by blast
qed

section \<open>The dialer of the default transport\<close>

text \<open>
  A \<open>net.Dialer\<close> is its \<open>Timeout\<close> and \<open>KeepAlive\<close>, in nanoseconds, which make its
  \<open>DialContext\<close>. \<open>init\<close> gives the transport's dial function and the counters after it.
\<close>

definition gotil_init :: "dialerContextFunc \<Rightarrow> (int \<Rightarrow> int \<Rightarrow> dialerContextFunc) \<Rightarrow> track \<Rightarrow>
    (go_context \<Rightarrow> string \<Rightarrow> string \<Rightarrow> track \<Rightarrow> (dial_error + clientConnTracker) \<times> track) \<times> track" where
  "gotil_init net_dialer Dialer w =
     (case NewDialContextFunc net_dialer [DialWithTracing, DialWithDialer (Dialer 30 30)] w of
        (DialContext, w1) \<Rightarrow> (DialContext, PreRegisterDialerMetrics ''default'' w1))"

lemma WithLabelValues_commute:
  "WithLabelValues ls (WithLabelValues ls v) = WithLabelValues ls v"
  "WithLabelValues ls (WithLabelValues ls' v) = WithLabelValues ls' (WithLabelValues ls v)"
  by (auto simp: WithLabelValues_def fun_eq_iff split: option.split)

lemma PreRegister_twice:
  "PreRegisterDialerMetrics name (PreRegisterDialerMetrics name w) = PreRegisterDialerMetrics name w"
  by (simp add: PreRegisterDialerMetrics_def Let_def reason_defs WithLabelValues_commute)

text \<open>
  The second registration changes nothing. Every dial is traced and counted under the name in
  its context or \<open>default\<close>, and goes through a dialer that gives up after 30 nanoseconds; one
  that does is counted as attempted once and as failed twice, for \<open>timeout\<close> and \<open>unknown\<close>.
\<close>

theorem gotil_init_dials:
  assumes "gotil_init net_dialer Dialer w = (dial, w1)" and "Dialer 30 30 ctx network addr = Inl (OpError OtherNested True msg)"
    and "DialNameFromContext ctx = []"
  shows "w1 = PreRegisterDialerMetrics ''default'' w
    \<and> (\<exists>w3. dial ctx network addr w2 = (Inl (OpError OtherNested True msg), w3)
      \<and> counter_value (dialerAttemptedTotal w3) [''default''] = Suc (counter_value (dialerAttemptedTotal w2) [''default''])
      \<and> counter_value (dialerConnFailedTotal w3) [''default'', ''timeout'']
          = Suc (counter_value (dialerConnFailedTotal w2) [''default'', ''timeout''])
      \<and> counter_value (dialerConnFailedTotal w3) [''default'', ''unknown'']
          = Suc (counter_value (dialerConnFailedTotal w2) [''default'', ''unknown''])
      \<and> dialerConnEstablishedTotal w3 = dialerConnEstablishedTotal w2)"
proof -
  let ?opts = "\<lparr>d_name = ''default'', d_monitoring = True, d_tracing = True, parentDialContextFunc = Dialer 30 30\<rparr>"
  from assms(1) have "w1 = PreRegisterDialerMetrics ''default'' w"
    and dial: "dial = (\<lambda>ctx network addr w. dialClientConnTracker ctx network addr
      (if DialNameFromContext ctx \<noteq> [] then DialNameFromContext ctx else ''default'') ?opts w)"
    by (auto simp: gotil_init_def NewDialContextFunc_def dialer_options_def DialWithTracing_def
        DialWithDialer_def DialWithDialContextFunc_def PreRegister_twice Let_def)
  then show ?thesis
    using assms(2,3)
    by (simp add: dial_defs reportDialerConnFailed_def report_defs inc_failed_def reason_defs
        Let_def split: prod.split)
qed

text \<open>A network on which nothing connects that fast.\<close>

theorem gotil_init_dials_witness:
  "\<exists>dial w1 w3. gotil_init (\<lambda>_ _ _. Inl ContextCanceled) (\<lambda>t k ctx network addr.
      if t < 100000 then Inl (OpError OtherNested True ''i/o timeout'') else Inr sample_tconn) track_empty = (dial, w1)
    \<and> dial [] ''tcp'' ''192.0.2.1:80'' w1 = (Inl (OpError OtherNested True ''i/o timeout''), w3)
    \<and> counter_value (dialerConnFailedTotal w3) [''default'', ''unknown'']
        = Suc (counter_value (dialerConnFailedTotal w1) [''default'', ''unknown''])"
proof -
  let ?D = "\<lambda>t (k :: int) (ctx :: go_context) (network :: string) (addr :: string).
      if t < (100000 :: int) then Inl (OpError OtherNested True ''i/o timeout'') else Inr sample_tconn"
  obtain dial w1 where init: "gotil_init (\<lambda>_ _ _. Inl ContextCanceled) ?D track_empty = (dial, w1)"
    by force
  have "?D 30 30 [] ''tcp'' ''192.0.2.1:80'' = Inl (OpError OtherNested True ''i/o timeout'')" by simp
  moreover have "DialNameFromContext [] = []" by (simp add: DialNameFromContext_def ctx_Value_def)
  ultimately show ?thesis using gotil_init_dials [OF init, where ?w2.0 = w1] init by blast
qed

end
