(* ===== verification/Spec2Isabelle.thy ===== *)
theory Spec2Isabelle
  imports MuxConc Counters ServerUtil StartServe Syncer Utilz Probe ProbeConc Wiring
    ServeGroup GotilServe DemoSystem GotilClient
begin

text \<open>
  A verification of gofunct/gotilities: Go packages that multiplex, track, instrument, guard
  and start network servers.

  The parts of the program and where they are modelled

  \<^item> The connection multiplexer \<open>src/rpc/mux.go\<close>. \<open>Serve\<close> accepts connections and
    starts a goroutine for each (\<open>serve\<close>), which lets the matchers of the registered
    listeners look at the beginning of the stream and queues the connection for the first
    listener that matches; \<open>muxListener.Accept\<close> hands it out. \<open>IoReader\<close> is the
    \<open>io.Reader\<close> interface and the connection; \<open>BufferedReader\<close> the reader that records
    what the matchers read (\<open>bufferedReader\<close>, \<open>MuxConn\<close>); \<open>Patricia\<close> the tree behind
    the prefix matchers; \<open>Matchers\<close>, \<open>Http1\<close> and \<open>Http2\<close> the matchers; \<open>MuxServe\<close>
    the configuration, the errors and what \<open>serve\<close> decides about one connection;
    \<open>Channels\<close> Go's channels; \<open>MuxConc\<close> all goroutines together as a step relation;
    \<open>SilentPeer\<close> what a client that stops sending does to a matcher; \<open>AllMatchers\<close> the
    contract between the multiplexer and the matchers.
  \<^item> Connection tracking, in \<open>src/rpc/mux.go\<close> (dialer and listener trackers) and again in
    \<open>src/instrument/metrics\<close>. \<open>Instruments\<close> models the counters, registry and event logs
    they write to, \<open>Conntrack\<close> the first copy, \<open>Metrics\<close> the second with
    \<open>WrapDialer\<close> and \<open>WrapListener\<close>, \<open>Counters\<close> the declarations of the counters and all
    operations on them together.
  \<^item> Health checks, \<open>src/instrument/probe/health.go\<close>: \<open>Probe\<close> has the checks and the two
    handlers, \<open>ProbeConc\<close> the checks that run goroutines (\<open>Async\<close>, \<open>Timeout\<close>).
  \<^item> Server helpers, \<open>src/rpc/server.go\<close>: \<open>ServerUtil\<close> (interceptors, local clients, TLS
    configuration, debug server), \<open>StartServe\<close> (the three blocking starters), \<open>Wiring\<close>
    (the gRPC servers and their interceptor chains, with \<open>src/rpc/client.go\<close>,
    \<open>src/instrument/zapper\<close> and \<open>src/instrument/tracer\<close>).
  \<^item> \<open>Syncer\<close>: the error groups of \<open>src/syncer/sync.go\<close>. \<open>Utilz\<close>:
    \<open>src/utilities/utilz.go\<close>.
  \<^item> The example programs. \<open>ServeGroup\<close> puts the starters, the multiplexer and the error
    group together as the end of \<open>main\<close> in \<open>src/example/gotil-serve/main.go\<close> does,
    \<open>GotilServe\<close> has the rest of that program (its service, checks, setup, multiplexer and
    end), \<open>DemoSystem\<close> both together, \<open>GotilClient\<close> the client
    \<open>src/example/gotil/main.go\<close>.
  \<^item> \<open>Prelude\<close> holds bytes, strings, errors, the list lemmas and the locale of transition
    systems the others share; this theory the composition of the multiplexer with its
    matchers.

  How state and operations correspond

  Definitions bear the names of the Go functions, a record those of the struct and its
  fields; a suffix \<open>_m\<close> marks the second copy of an operation (package \<open>metrics\<close>, or the
  handler that exports metrics), and a method is \<open>type_method\<close> where its bare name is
  taken. A pointer receiver is a state that is returned updated. An error is a value,
  \<open>None\<close> or \<open>Inl\<close>; a panic is \<open>None\<close> or \<open>Panics\<close>, a blocked operation
  \<open>Blocks\<close>. Goroutines are program counters in a record of the whole system, an inductive
  relation has one rule for each operation another goroutine can see, and a \<open>select\<close> has
  one rule for each case. History variables (\<open>accepted\<close>, \<open>sent\<close>, \<open>delivered\<close>,
  \<open>published\<close> and the like) record events and are never read by the steps. The order in
  which Go visits a map is an argument, so what is proved holds for every order.

  What waits for the world outside does so in the models. A connection's peer may stay
  silent: a read that finds nothing then fails if a deadline is set and otherwise never
  returns, which \<open>c_waits\<close> records, and a matcher that got into such a read has not returned
  (\<open>run_matcher\<close>). \<open>Accept\<close> of the open root listener waits for a connection or an error of
  the network; once the listener is closed it fails. A server's \<open>Serve\<close> ends when it likes.
  A dial is in flight between \<open>dial_begin\<close> and \<open>dial_end\<close>. Standard input yields the lines
  typed so far, and \<open>Scan\<close> waits for more until the input ends. Where it is shown that the
  program finishes, only its own steps are taken (\<open>own_step\<close>, \<open>serving_own\<close>, \<open>scan_step\<close>),
  never one of its environment.

  What the lemmas show

  \<^item> Interfaces are locales, interpreted on the program's own definitions: \<open>io_reader\<close> and
    \<open>clean_reader\<close> (what a reader promises, met by the connection, the sniffing reader and
    the limited reader), \<open>decider\<close> (a matcher returns, only reads, and answers a predicate
    of the stream), \<open>fifo_channel\<close>, \<open>tracked_close\<close> (met by all four trackers),
    \<open>health_handler\<close> (met by both handlers), \<open>transition_system\<close> (the invariants of the
    concurrent parts).
  \<^item> \<open>BufferedReader\<close>: sniffing is invisible to later readers. \<open>Patricia\<close>: the compressed
    tree is equivalent to the list of strings. \<open>Matchers\<close>, \<open>Http1\<close>, \<open>Http2\<close>: what each
    matcher answers, and that it returns.
  \<^item> \<open>MuxServe\<close>, \<open>MuxConc\<close>: the first matching listener gets a connection with its whole
    stream; in every interleaving no connection is lost, duplicated or reordered, nothing
    panics, and the shutdown ends if the matching of the connections at hand does.
    \<open>AllMatchers\<close>: every matcher of the package meets what these lemmas ask of a matcher, on
    faulty connections too: it only reads and writes through the sniffing reader, and returns
    if its reads do, which those of a peer that ends its stream do, and with a read timeout
    those of any peer. \<open>SilentPeer\<close>: without one, a prefix matcher never returns on a stream
    shorter than its depth whose peer stays silent. Below, these are put together for a
    concrete configuration.
  \<^item> \<open>Conntrack\<close>, \<open>Metrics\<close>: what is counted and logged, and that an event log is
    finished once; \<open>Counters\<close>: that the labels are the declared ones and the counters of a
    dialer balance in every sequence of operations, with dials in flight. \<open>Probe\<close>, \<open>ProbeConc\<close>: what the endpoints answer, that the exporting
    handler refines the basic one, that a cached check never blocks its readers and a timed
    check ends.
  \<^item> \<open>ServerUtil\<close>, \<open>StartServe\<close>, \<open>Wiring\<close>, \<open>Syncer\<close>, \<open>Utilz\<close>: who is let in, what is
    stopped and what leaks, where panics end, which error a group returns, where durations
    overflow and strings break.
  \<^item> \<open>ServeGroup\<close>: the composed server refines the error group (\<open>as_group\<close>), runs of the
    whole are runs of its parts, its shutdown ends by its own steps, what \<open>Wait\<close> returns, and
    what a matcher that does not return does to it all. \<open>GotilServe\<close>, \<open>GotilClient\<close>: where the example's
    traffic goes, how its setup and its end run the deferred calls or do not, that it is
    never ready, how the client ends and when it waits. \<open>DemoSystem\<close>: for this program's own
    multiplexer, that in every run connections reach the listener their bytes ask for and none
    is lost, from which clients the shutdown ends, and that one silent client with fewer than
    eight bytes prevents it, from a law of the HTTP/2 framer alone.

  Bounds and loops

  No fuel is used. Loops over data are structural or have a measure; those over a reader
  (\<open>readFull_loop\<close>, the preface, the frames of \<open>matchHTTP2Field\<close>) are
  \<open>partial_function (option)\<close>, for which \<open>None\<close> is not returning, and that they return is
  proved where it holds. Machine integers are words
  where their width matters (bytes, TLS versions, frame flags, cipher suites, durations).

  Not modelled

  Generated code (\<open>src/proto/ping/ping.pb.go\<close>) and the struct \<open>Gotility\<close> that only embeds
  the other types. The examples take the multiplexer, the health checks and the dialer from
  the packages that the repository's are copies of; the models use the repository's own.
  Code outside the repository is a parameter or
  modelled by its documented effect as far as the program sees it: net/http's parsers and
  \<open>ServeMux\<close>, the HTTP/2 framer and HPACK decoder, gRPC and its middleware, the Prometheus
  client (its counters count, its registries refuse names that are not valid and collectors
  that clash), zap, jaeger, certificate loading, the rate limiter, the network. Of shared memory
  only what goroutines do under the code's own synchronisation is modelled; the data races
  that Go's memory model would allow elsewhere (configuring a multiplexer while it serves)
  are not.
\<close>

section \<open>A multiplexer for HTTP, TLS and the rest\<close>

text \<open>
  The configuration a server of mixed traffic uses: a listener for HTTP/1, one for TLS and
  one for everything else, registered in this order.
\<close>

definition edge_mux :: "string list \<Rightarrow> 64 word list \<Rightarrow> int \<Rightarrow> rpcMux" where
  "edge_mux methods versions timeout =
     (let rd = bufferedReader_Read conn_read;
          (httpL, m1) = Match [HTTP1Fast rd methods] (New False);
          (tlsL, m2) = Match [TLS rd versions] m1;
          (anyL, m3) = Match [Any] m2
      in SetReadTimeout timeout m3)"

text \<open>Where a stream belongs, without trees, buffers or readers.\<close>

definition edge_route :: "string list \<Rightarrow> 64 word list \<Rightarrow> bytes \<Rightarrow> nat" where
  "edge_route methods versions stream =
     (if \<exists>s \<in> set (defaultHTTPMethods @ methods). prefix (bytes_of s) stream then 0
      else if \<exists>v \<in> set (tls_versions versions). prefix (tls_prefix v) stream then 1
      else 2)"

lemma edge_mux_decides:
  "list_all2 (\<lambda>sl. list_all2 decides_stream (ss sl)) (sls (edge_mux methods versions timeout))
     [[recognises (map bytes_of (defaultHTTPMethods @ methods)) True],
      [recognises (map tls_prefix (tls_versions versions)) True], [\<lambda>_. True]]"
  by (simp add: edge_mux_def Match_def MatchWithWriters_def SetReadTimeout_def New_def Let_def HTTP1Fast_def
      decider_decides_stream [OF any.decider_axioms] decider_decides_stream [OF tls.decider_axioms]
      decider_decides_stream [OF prefix_matcher.decider_axioms] del: map_append)

lemma edge_route_eq:
  "edge_route methods versions st =
     (if recognises (map bytes_of (defaultHTTPMethods @ methods)) True st then 0
      else if recognises (map tls_prefix (tls_versions versions)) True st then 1 else 2)"
  by (simp add: edge_route_def recognises_def defaultHTTPMethods_def tls_versions_def)

text \<open>
  C12. The multiplexer as a whole computes its routing function: a connection without faults
  is queued for the listener its stream belongs to, open and readable from its first byte,
  and no connection is refused.
\<close>

theorem edge_mux_routes:
  assumes "conn_clean c"
  shows "\<exists>muc. serve (edge_mux methods versions timeout) now c
      = Some (Enqueue (edge_route methods versions (conn_pend c)) muc)
    \<and> br_pend conn_pend muc = conn_pend c
    \<and> c_id (source muc) = c_id c \<and> c_closed (source muc) = c_closed c"
proof -
  let ?Pss = "[[recognises (map bytes_of (defaultHTTPMethods @ methods)) True],
      [recognises (map tls_prefix (tls_versions versions)) True], [\<lambda>_. True]]"
  let ?i = "edge_route methods versions (conn_pend c)"
  have "?i < length ?Pss" by (simp add: edge_route_eq)
  moreover have "\<exists>P \<in> set (?Pss ! ?i). P (conn_pend c)" by (simp add: edge_route_eq)
  moreover have "\<forall>j < ?i. \<forall>P \<in> set (?Pss ! j). \<not> P (conn_pend c)"
    by (auto simp: edge_route_eq less_Suc_eq numeral_2_eq_2 split: if_splits)
  ultimately show ?thesis
    using serve_enqueues [OF assms edge_mux_decides] by blast
qed

theorem edge_mux_routes_witness:
  "\<exists>muc. serve (edge_mux [] [] 0) 7 (sample_conn\<lparr>c_src := [([22, 3], None), ([1, 2], None)]\<rparr>)
      = Some (Enqueue 1 muc) \<and> br_pend conn_pend muc = [22, 3, 1, 2]"
proof -
  let ?c = "sample_conn\<lparr>c_src := [([22, 3], None), ([1, 2], None)]\<rparr>"
  have c: "conn_clean ?c" "conn_pend ?c = [22, 3, 1, 2]"
    by (simp_all add: conn_clean_def conn_pend_def)
  have "edge_route [] [] [22, 3, 1, 2] = 1" by code_simp
  with edge_mux_routes [OF c(1), of "[]" "[]" 0 7] c(2) show ?thesis by auto
qed

end
